(* ===== verification/Prelude.thy ===== *)
theory Prelude
  imports Main "HOL-Library.Word"
begin

text \<open>
  Shared vocabulary of the development: the outcomes of a C++ operation (a value, or the
  first undefined behaviour or exception it runs into), checked 32-bit arithmetic, checked
  vector access, \<open>memcpy\<close> between byte regions, and the list facts the component theories
  share (counting elements under an update, patching a region of bytes).
\<close>

section \<open>Outcomes of an operation\<close>

text \<open>
  The ways an operation of the program can leave the defined part of C++:
  an access outside a vector, bitset or byte region, a signed overflow, a division by zero,
  the use of an indeterminate or null pointer, of an object that is gone or of an object as one
  of another class, and an allocation request that the standard library refuses with an exception.
\<close>

datatype ub =
    OutOfBounds
  | IntOverflow
  | DivByZero
  | Indeterminate_Read
  | Null_Deref
  | Length_Error
  | Use_After_Free
  | Wrong_Type

definition bindE :: "ub + 'a \<Rightarrow> ('a \<Rightarrow> ub + 'b) \<Rightarrow> ub + 'b" where
  "bindE m f = (case m of Inl e \<Rightarrow> Inl e | Inr x \<Rightarrow> f x)"

named_theorems monad_simps \<open>rewrite rules for the outcome monad and its primitives\<close>

lemma bindE_Inl [simp, monad_simps]: "bindE (Inl e) f = Inl e"
  by (simp add: bindE_def)

lemma bindE_Inr [simp, monad_simps]: "bindE (Inr x) f = f x"
  by (simp add: bindE_def)

lemma bindE_eq_Inr: "bindE m f = Inr y \<longleftrightarrow> (\<exists>x. m = Inr x \<and> f x = Inr y)"
  by (auto simp: bindE_def split: sum.splits)

lemma bindE_eq_Inl: "bindE m f = Inl e \<longleftrightarrow> m = Inl e \<or> (\<exists>x. m = Inr x \<and> f x = Inl e)"
  by (auto simp: bindE_def split: sum.splits)

lemma bindE_InrE:
  assumes "bindE m f = Inr y"
  obtains x where "m = Inr x" and "f x = Inr y"
  using assms by (auto simp: bindE_eq_Inr)

lemma bindE_assoc: "bindE (bindE m f) g = bindE m (\<lambda>x. bindE (f x) g)"
  by (simp add: bindE_def split: sum.splits)

lemma bindE_cong [fundef_cong]:
  "m = m' \<Longrightarrow> (\<And>x. m' = Inr x \<Longrightarrow> f x = f' x) \<Longrightarrow> bindE m f = bindE m' f'"
  by (auto simp: bindE_def split: sum.splits)

section \<open>Machine integers\<close>

text \<open>
  An \<open>int\<close> of the program is a mathematical integer that is checked wherever arithmetic may
  leave the 32-bit range, because signed overflow is undefined. \<open>std::size_t\<close> is the 64-bit
  unsigned word of the 64-bit targets: its arithmetic wraps.
\<close>

type_synonym size_t = "64 word"
type_synonym byte = "8 word"

definition INT_MAX :: int where "INT_MAX = 2 ^ 31 - 1"
definition INT_MIN :: int where "INT_MIN = - (2 ^ 31)"

definition i32 :: "int \<Rightarrow> ub + int" where
  "i32 x = (if INT_MIN \<le> x \<and> x \<le> INT_MAX then Inr x else Inl IntOverflow)"

definition to_size_t :: "int \<Rightarrow> size_t" where
  "to_size_t x = word_of_int x"

definition to_int32 :: "size_t \<Rightarrow> int" where
  "to_int32 x = sint (ucast x :: 32 word)"

lemma i32_eq_Inr [monad_simps]: "i32 x = Inr y \<longleftrightarrow> y = x \<and> INT_MIN \<le> x \<and> x \<le> INT_MAX"
  by (auto simp: i32_def)

lemma i32_ok: "INT_MIN \<le> x \<Longrightarrow> x \<le> INT_MAX \<Longrightarrow> i32 x = Inr x"
  by (simp add: i32_def)

lemma i32_nonneg: "0 \<le> x \<Longrightarrow> x \<le> INT_MAX \<Longrightarrow> i32 x = Inr x"
  by (simp add: i32_def INT_MIN_def)

lemma uint_to_size_t: "0 \<le> x \<Longrightarrow> x \<le> INT_MAX \<Longrightarrow> uint (to_size_t x) = x"
  by (simp add: to_size_t_def INT_MAX_def uint_word_of_int take_bit_int_eq_self)

lemma to_int32_small: "uint w \<le> INT_MAX \<Longrightarrow> to_int32 w = uint w"
proof -
  assume a: "uint w \<le> INT_MAX"
  have "uint (ucast w :: 32 word) = uint w"
    using a by (simp add: INT_MAX_def unsigned_ucast_eq take_bit_int_eq_self)
  moreover have "sint (ucast w :: 32 word) = signed_take_bit 31 (uint (ucast w :: 32 word))"
    by (simp add: sint_uint)
  moreover have "signed_take_bit 31 (uint w) = uint w"
  proof (rule signed_take_bit_int_eq_self)
    have "- (2 ^ 31) \<le> (0 :: int)" by simp
    then show "- (2 ^ 31) \<le> uint w" using uint_ge_0 [of w] by (rule order_trans)
    show "uint w < 2 ^ 31" using a by (simp add: INT_MAX_def)
  qed
  ultimately show ?thesis by (simp add: to_int32_def)
qed

text \<open>
  The difference of two sizes, as the code computes it: for an offset inside the length it is
  the mathematical difference.
\<close>

lemma uint_size_diff:
  assumes "0 \<le> off" "off \<le> len" "len \<le> INT_MAX"
  shows "uint (to_size_t len - to_size_t off) = len - off"
proof -
  have "to_size_t len - to_size_t off = to_size_t (len - off)"
    by (simp add: to_size_t_def)
  then show ?thesis using assms by (simp add: uint_to_size_t)
qed

lemma to_copy_min:
  assumes "0 \<le> off" "off \<le> len" "len \<le> INT_MAX"
  shows "to_int32 (min (to_size_t len - to_size_t off) k) = min (len - off) (uint k)"
proof -
  let ?d = "to_size_t len - to_size_t off"
  have m: "uint (min ?d k) = min (len - off) (uint k)"
    using uint_size_diff [OF assms] by (simp add: min_def word_le_def)
  then have "uint (min ?d k) \<le> INT_MAX" using assms by simp
  then show ?thesis using m by (simp add: to_int32_small)
qed

lemma to_int32_word_of_int: "to_int32 (word_of_int x) = signed_take_bit 31 x"
proof -
  have "ucast (word_of_int x :: 64 word) = (word_of_int x :: 32 word)"
    by (rule bit_word_eqI) (simp add: bit_simps)
  then show ?thesis by (simp add: to_int32_def sint_sbintrunc')
qed

lemma to_int32_diff:
  assumes "INT_MIN \<le> a - b" "a - b \<le> INT_MAX"
  shows "to_int32 (to_size_t a - to_size_t b) = a - b"
proof -
  have "to_size_t a - to_size_t b = word_of_int (a - b)" by (simp add: to_size_t_def)
  then have "to_int32 (to_size_t a - to_size_t b) = signed_take_bit 31 (a - b)"
    by (simp only: to_int32_word_of_int)
  then show ?thesis
    using assms by (simp add: signed_take_bit_int_eq_self INT_MIN_def INT_MAX_def)
qed

lemma of_nat_size: "(of_nat n :: size_t) = to_size_t (int n)"
  by (simp add: to_size_t_def)

section \<open>Vectors\<close>

definition vec_at :: "'a list \<Rightarrow> int \<Rightarrow> ub + 'a" where
  "vec_at xs i = (if 0 \<le> i \<and> i < int (length xs) then Inr (xs ! nat i) else Inl OutOfBounds)"

definition vec_upd :: "'a list \<Rightarrow> int \<Rightarrow> ('a \<Rightarrow> 'a) \<Rightarrow> ub + 'a list" where
  "vec_upd xs i f =
     (if 0 \<le> i \<and> i < int (length xs) then Inr (xs[nat i := f (xs ! nat i)]) else Inl OutOfBounds)"

lemma vec_at_ok [simp]: "0 \<le> i \<Longrightarrow> i < int (length xs) \<Longrightarrow> vec_at xs i = Inr (xs ! nat i)"
  by (simp add: vec_at_def)

lemma vec_upd_ok [simp]:
  "0 \<le> i \<Longrightarrow> i < int (length xs) \<Longrightarrow> vec_upd xs i f = Inr (xs[nat i := f (xs ! nat i)])"
  by (simp add: vec_upd_def)

lemma vec_at_eq_Inr [monad_simps]:
  "vec_at xs i = Inr x \<longleftrightarrow> 0 \<le> i \<and> i < int (length xs) \<and> x = xs ! nat i"
  by (auto simp: vec_at_def)

lemma vec_upd_eq_Inr [monad_simps]:
  "vec_upd xs i f = Inr ys \<longleftrightarrow>
     0 \<le> i \<and> i < int (length xs) \<and> ys = xs[nat i := f (xs ! nat i)]"
  by (auto simp: vec_upd_def)

text \<open>A property of all positions survives the update of one that keeps it.\<close>

lemma all_nth_update:
  assumes "\<forall>i < length xs. P i (xs ! i)" and "k < length xs \<Longrightarrow> P k y"
  shows "\<forall>i < length xs. P i (xs[k := y] ! i)"
  using assms by (cases "k < length xs") (auto simp: nth_list_update)

lemma nth_update_proj: "f y = f (xs ! i) \<Longrightarrow> f (xs[i := y] ! j) = f (xs ! j)"
  by (cases "i < length xs"; cases "i = j"; simp add: list_update_beyond)

section \<open>Byte regions\<close>

text \<open>
  \<open>memcpy\<close> split into its two accesses: the bytes read from the source region, and the
  destination region with those bytes stored. The count is the \<open>int\<close> the code passes; a
  negative one converts to a huge \<open>size_t\<close>, which no region holds.
\<close>

definition mem_load :: "byte list \<Rightarrow> int \<Rightarrow> int \<Rightarrow> ub + byte list" where
  "mem_load src off n =
     (if 0 \<le> off \<and> 0 \<le> n \<and> off + n \<le> int (length src)
      then Inr (take (nat n) (drop (nat off) src)) else Inl OutOfBounds)"

definition patch :: "'a list \<Rightarrow> nat \<Rightarrow> 'a list \<Rightarrow> 'a list" where
  "patch xs off ys = take off xs @ ys @ drop (off + length ys) xs"

definition mem_store :: "byte list \<Rightarrow> int \<Rightarrow> byte list \<Rightarrow> ub + byte list" where
  "mem_store dst off bs =
     (if 0 \<le> off \<and> off + int (length bs) \<le> int (length dst)
      then Inr (patch dst (nat off) bs) else Inl OutOfBounds)"

lemma mem_load_eq_Inr [monad_simps]:
  "mem_load src off n = Inr bs \<longleftrightarrow>
     0 \<le> off \<and> 0 \<le> n \<and> off + n \<le> int (length src) \<and> bs = take (nat n) (drop (nat off) src)"
  by (auto simp: mem_load_def)

lemma mem_store_eq_Inr [monad_simps]:
  "mem_store dst off bs = Inr dst' \<longleftrightarrow>
     0 \<le> off \<and> off + int (length bs) \<le> int (length dst) \<and> dst' = patch dst (nat off) bs"
  by (auto simp: mem_store_def)

lemma length_patch [simp]: "off + length ys \<le> length xs \<Longrightarrow> length (patch xs off ys) = length xs"
  by (simp add: patch_def)

lemma patch_Nil [simp]: "patch xs off [] = xs"
  by (simp add: patch_def)

lemma nth_patch:
  assumes "off + length ys \<le> length xs" and "i < length xs"
  shows "patch xs off ys ! i = (if off \<le> i \<and> i < off + length ys then ys ! (i - off) else xs ! i)"
  using assms by (auto simp: patch_def nth_append min_def)

lemma patch_patch:
  assumes "off + length ys + length zs \<le> length xs"
  shows "patch (patch xs off ys) (off + length ys) zs = patch xs off (ys @ zs)"
proof -
  have "off + length ys \<le> length xs" using assms by simp
  then have "drop (off + length ys + length zs) (patch xs off ys) = drop (off + length (ys @ zs)) xs"
    and "take (off + length ys) (patch xs off ys) = take off xs @ ys"
    by (cases ys; simp add: patch_def min_def ac_simps)+
  then show ?thesis by (simp add: patch_def [of _ "off + length ys"] patch_def [of xs off "ys @ zs"])
qed

lemma slice_patch:
  assumes "off + length ys \<le> length xs"
  shows "take (length ys) (drop off (patch xs off ys)) = ys"
  using assms by (simp add: patch_def min_def)

section \<open>Counting\<close>

definition count_if :: "('a \<Rightarrow> bool) \<Rightarrow> 'a list \<Rightarrow> int" where
  "count_if P xs = int (length (filter P xs))"

lemma count_if_Nil [simp]: "count_if P [] = 0"
  by (simp add: count_if_def)

lemma count_if_Cons [simp]: "count_if P (x # xs) = (if P x then 1 else 0) + count_if P xs"
  by (simp add: count_if_def)

lemma count_if_append [simp]: "count_if P (xs @ ys) = count_if P xs + count_if P ys"
  by (simp add: count_if_def)

lemma count_if_nonneg [simp]: "0 \<le> count_if P xs"
  by (simp add: count_if_def)

lemma count_if_le_length: "count_if P xs \<le> int (length xs)"
  by (simp add: count_if_def)

lemma count_if_update:
  "i < length xs \<Longrightarrow>
   count_if P (xs[i := y]) = count_if P xs - (if P (xs ! i) then 1 else 0) + (if P y then 1 else 0)"
  by (induction xs arbitrary: i) (auto split: nat.splits)

lemma count_if_all_less:
  "i < length xs \<Longrightarrow> \<not> P (xs ! i) \<Longrightarrow> count_if P xs < int (length xs)"
proof -
  assume "i < length xs" "\<not> P (xs ! i)"
  then have "length (filter P xs) < length xs"
    by (meson length_filter_less nth_mem)
  then show ?thesis by (simp add: count_if_def)
qed

lemma count_if_full: "count_if P xs = int (length xs) \<Longrightarrow> x \<in> set xs \<Longrightarrow> P x"
  by (metis count_if_all_less in_set_conv_nth less_irrefl)

lemma count_if_pos: "0 < count_if P xs \<longleftrightarrow> (\<exists>x\<in>set xs. P x)"
  by (auto simp: count_if_def filter_empty_conv)

lemma count_if_cong: "(\<And>x. x \<in> set xs \<Longrightarrow> P x = Q x) \<Longrightarrow> count_if P xs = count_if Q xs"
  by (simp add: count_if_def cong: filter_cong)

lemma count_if_disj:
  "(\<And>x. x \<in> set xs \<Longrightarrow> \<not> (P x \<and> Q x)) \<Longrightarrow>
   count_if (\<lambda>x. P x \<or> Q x) xs = count_if P xs + count_if Q xs"
  by (induction xs) auto

lemma count_if_card: "count_if P xs = int (card {i. i < length xs \<and> P (xs ! i)})"
  by (simp add: count_if_def length_filter_conv_card)

lemma count_if_mono:
  assumes "length xs = length ys" "\<And>i. i < length xs \<Longrightarrow> P (xs ! i) \<Longrightarrow> P (ys ! i)"
  shows "count_if P xs \<le> count_if P ys"
proof -
  have "{i. i < length xs \<and> P (xs ! i)} \<subseteq> {i. i < length ys \<and> P (ys ! i)}" using assms by auto
  then show ?thesis by (simp add: count_if_card card_mono)
qed

lemma count_if_unique:
  assumes "j < length xs" "P (xs ! j)" "\<And>l. l < length xs \<Longrightarrow> P (xs ! l) \<Longrightarrow> l = j"
  shows "count_if P xs = 1"
proof -
  have "{i. i < length xs \<and> P (xs ! i)} = {j}"
  proof (rule equalityI; rule subsetI)
    fix i assume "i \<in> {i. i < length xs \<and> P (xs ! i)}"
    then show "i \<in> {j}" using assms(3) by blast
  next
    fix i assume "i \<in> {j}"
    then show "i \<in> {i. i < length xs \<and> P (xs ! i)}" using assms(1,2) by blast
  qed
  then show ?thesis by (simp add: count_if_card)
qed

lemma count_if_replicate_False: "\<not> P x \<Longrightarrow> count_if P (replicate n x) = 0"
  by (simp add: count_if_def)

lemma int_sum_list_map: "int (sum_list (map f xs)) = (\<Sum>x\<leftarrow>xs. int (f x))"
  by (induction xs) simp_all

end
