(* ===== verification/Runs.thy ===== *)
theory Runs
  imports Prelude
begin

text \<open>
  Runs of operations, each made under its guard, the contract that makes something an invariant
  of such runs, and the contract by which runs with their answers are runs of a specification.
\<close>

section \<open>Runs of guarded calls\<close>

inductive calls_to ::
  "('c \<Rightarrow> 'w \<Rightarrow> bool) \<Rightarrow> ('c \<Rightarrow> 'w \<Rightarrow> (ub + 'w) option) \<Rightarrow> 'w \<Rightarrow> 'w \<Rightarrow> bool"
  for guard and op and w where
  no_call: "calls_to guard op w w"
| one_more: "calls_to guard op w v \<Longrightarrow> guard c v \<Longrightarrow> op c v = Some (Inr u) \<Longrightarrow> calls_to guard op w u"

lemma calls_to_trans: "calls_to guard op u v \<Longrightarrow> calls_to guard op v w \<Longrightarrow> calls_to guard op u w"
  by (rotate_tac, induction rule: calls_to.induct) (blast intro: calls_to.one_more)+

text \<open>A schedule of guarded calls, run.\<close>

fun performed ::
  "('c \<Rightarrow> 'w \<Rightarrow> bool) \<Rightarrow> ('c \<Rightarrow> 'w \<Rightarrow> (ub + 'w) option) \<Rightarrow> 'c list \<Rightarrow> 'w \<Rightarrow> 'w option" where
  "performed guard op [] w = Some w"
| "performed guard op (c # cs) w =
     (if guard c w
      then case op c w of Some (Inr v) \<Rightarrow> performed guard op cs v | _ \<Rightarrow> None
      else None)"

lemma performed_calls:
  "performed guard op cs w = Some w' \<Longrightarrow> calls_to guard op w0 w \<Longrightarrow> calls_to guard op w0 w'"
proof (induction cs arbitrary: w)
  case (Cons c cs)
  then obtain v where "guard c w" "op c w = Some (Inr v)" "performed guard op cs v = Some w'"
    by (auto split: if_splits option.splits sum.splits)
  then show ?case using Cons by (blast intro: calls_to.one_more)
qed simp

text \<open>The contract between an operation and an invariant it keeps when called under its guard.\<close>

locale keeps_invariant =
  fixes inv :: "'w \<Rightarrow> bool" and guard :: "'c \<Rightarrow> 'w \<Rightarrow> bool"
    and op :: "'c \<Rightarrow> 'w \<Rightarrow> (ub + 'w) option"
  assumes keep: "inv w \<Longrightarrow> guard c w \<Longrightarrow> op c w = Some (Inr w') \<Longrightarrow> inv w'"
begin

lemma kept_by_runs: "calls_to guard op w w' \<Longrightarrow> inv w \<Longrightarrow> inv w'"
  by (induction rule: calls_to.induct) (auto intro: keep)

end

section \<open>Runs with their answers\<close>

inductive observed ::
  "('c \<Rightarrow> 'w \<Rightarrow> bool) \<Rightarrow> ('c \<Rightarrow> 'w \<Rightarrow> (ub + 'a \<times> 'w) option) \<Rightarrow> 'w \<Rightarrow> ('c \<times> 'a) list \<Rightarrow> 'w \<Rightarrow> bool"
  for guard and op and w where
  nothing_yet: "observed guard op w [] w"
| answered: "observed guard op w tr v \<Longrightarrow> guard c v \<Longrightarrow> op c v = Some (Inr (a, u)) \<Longrightarrow>
    observed guard op w (tr @ [(c, a)]) u"

text \<open>A schedule of guarded operations, with the answers it gets.\<close>

fun answers ::
  "('c \<Rightarrow> 'w \<Rightarrow> bool) \<Rightarrow> ('c \<Rightarrow> 'w \<Rightarrow> (ub + 'a \<times> 'w) option) \<Rightarrow> 'c list \<Rightarrow> ('c \<times> 'a) list \<Rightarrow> 'w
    \<Rightarrow> (('c \<times> 'a) list \<times> 'w) option" where
  "answers guard op [] tr w = Some (tr, w)"
| "answers guard op (c # cs) tr w =
     (if guard c w
      then case op c w of Some (Inr (a, v)) \<Rightarrow> answers guard op cs (tr @ [(c, a)]) v | _ \<Rightarrow> None
      else None)"

lemma answers_observed:
  "answers guard op cs tr w = Some (tr', w') \<Longrightarrow> observed guard op w0 tr w \<Longrightarrow> observed guard op w0 tr' w'"
proof (induction cs arbitrary: tr w)
  case (Cons c cs)
  then obtain a v where "guard c w" "op c w = Some (Inr (a, v))" "answers guard op cs (tr @ [(c, a)]) v = Some (tr', w')"
    by (auto split: if_splits option.splits sum.splits)
  then show ?case using Cons by (blast intro: observed.answered)
qed simp

inductive allowed ::
  "('c \<Rightarrow> 'a \<Rightarrow> 's \<Rightarrow> 's \<Rightarrow> bool) \<Rightarrow> 's \<Rightarrow> ('c \<times> 'a) list \<Rightarrow> 's \<Rightarrow> bool"
  for spec and s where
  allowed_none: "allowed spec s [] s"
| allowed_more: "allowed spec s tr t \<Longrightarrow> spec c a t u \<Longrightarrow> allowed spec s (tr @ [(c, a)]) u"

text \<open>
  The contract between an operation and a specification of what it may answer and do, through an
  abstraction of the state: whatever the operation does to a state that satisfies the invariant,
  the specification allows.
\<close>

locale implements =
  fixes inv :: "'w \<Rightarrow> bool" and guard :: "'c \<Rightarrow> 'w \<Rightarrow> bool"
    and op :: "'c \<Rightarrow> 'w \<Rightarrow> (ub + 'a \<times> 'w) option"
    and abs :: "'w \<Rightarrow> 's" and spec :: "'c \<Rightarrow> 'a \<Rightarrow> 's \<Rightarrow> 's \<Rightarrow> bool"
  assumes simulated: "inv w \<Longrightarrow> guard c w \<Longrightarrow> op c w = Some (Inr (a, w')) \<Longrightarrow>
      inv w' \<and> spec c a (abs w) (abs w')"
begin

lemma runs_allowed:
  assumes "observed guard op w tr w'" "inv w"
  shows "inv w' \<and> allowed spec (abs w) tr (abs w')"
  using assms
proof (induction rule: observed.induct)
  case nothing_yet
  then show ?case by (simp add: allowed_none)
next
  case (answered tr v c a u)
  then have "inv v" "allowed spec (abs w) tr (abs v)" by blast+
  then show ?case using simulated [OF _ answered.hyps(2,3)] allowed_more by metis
qed

end

end
