(* ===== verification/Storage_State.thy ===== *)
theory Storage_State
  imports Prelude
begin

text \<open>
  The state of \<open>memory_storage\<close> (memory_storage.hpp): pieces, buffers, the storage object, the
  environment it runs in (libtorrent's torrent object, Boost's bitset and clock), its
  constructor, the two predicates over pieces, \<open>restore_piece\<close> and \<open>set_torrent_handle\<close>.
\<close>

section \<open>Code outside the repository\<close>

text \<open>
  What the storage calls in libtorrent (\<open>torrent_handle::piece_priority\<close>, the three calls that
  make the picker forget a piece, whether \<open>native_handle\<close> still yields a torrent) and in
  Boost (\<open>dynamic_bitset\<close>) is an argument of the model: a record of functions over a torrent
  state \<open>'t\<close> and a bitset type \<open>'b\<close>.
\<close>

record ('b, 't) ext =
  piece_priority :: "'t \<Rightarrow> int \<Rightarrow> int"
  reset_piece_deadline :: "'t \<Rightarrow> int \<Rightarrow> 't"
  set_piece_priority :: "'t \<Rightarrow> int \<Rightarrow> int \<Rightarrow> 't"
  we_dont_have :: "'t \<Rightarrow> int \<Rightarrow> 't"
  has_native :: "'t \<Rightarrow> bool"
  bs_new :: 'b
  bs_size :: "'b \<Rightarrow> nat"
  bs_test :: "'b \<Rightarrow> nat \<Rightarrow> bool"
  bs_set :: "'b \<Rightarrow> nat \<Rightarrow> 'b"
  bs_reset :: "'b \<Rightarrow> 'b"
  bs_resize :: "'b \<Rightarrow> nat \<Rightarrow> 'b"

text \<open>The documented behaviour of \<open>boost::dynamic_bitset\<close> that the storage relies on.\<close>

definition bitset_laws :: "('b, 't) ext \<Rightarrow> bool" where
  "bitset_laws X \<longleftrightarrow>
     bs_size X (bs_new X) = 0 \<and>
     (\<forall>b n. bs_size X (bs_resize X b n) = n) \<and>
     (\<forall>b n i. i < n \<longrightarrow> bs_test X (bs_resize X b n) i = (i < bs_size X b \<and> bs_test X b i)) \<and>
     (\<forall>b. bs_size X (bs_reset X b) = bs_size X b) \<and>
     (\<forall>b i. i < bs_size X b \<longrightarrow> \<not> bs_test X (bs_reset X b) i) \<and>
     (\<forall>b i. i < bs_size X b \<longrightarrow> bs_size X (bs_set X b i) = bs_size X b) \<and>
     (\<forall>b i j. i < bs_size X b \<longrightarrow> j < bs_size X b \<longrightarrow>
        bs_test X (bs_set X b i) j = (j = i \<or> bs_test X b j))"

text \<open>
  \<open>test\<close> and \<open>set\<close> require a position inside the bitset; a negative \<open>int\<close> position converts
  to a huge one.
\<close>

definition bit_test :: "('b, 't) ext \<Rightarrow> 'b \<Rightarrow> int \<Rightarrow> ub + bool" where
  "bit_test X b i =
     (if 0 \<le> i \<and> i < int (bs_size X b) then Inr (bs_test X b (nat i)) else Inl OutOfBounds)"

definition bit_set :: "('b, 't) ext \<Rightarrow> 'b \<Rightarrow> int \<Rightarrow> ub + 'b" where
  "bit_set X b i =
     (if 0 \<le> i \<and> i < int (bs_size X b) then Inr (bs_set X b (nat i)) else Inl OutOfBounds)"

text \<open>
  A pointer member: never assigned, null, pointing to the one object it is used for, or still
  holding the address of that object after somebody deleted it. Testing a pointer only looks at
  the address; using it needs the object.
\<close>

datatype ptr = Indeterminate | Null | Valid | Dangling

definition non_null :: "ptr \<Rightarrow> ub + bool" where
  "non_null p =
     (case p of Indeterminate \<Rightarrow> Inl Indeterminate_Read | Null \<Rightarrow> Inr False
      | Valid \<Rightarrow> Inr True | Dangling \<Rightarrow> Inr True)"

definition follow :: "ptr \<Rightarrow> 'a \<Rightarrow> ub + 'a" where
  "follow p x =
     (case p of Indeterminate \<Rightarrow> Inl Indeterminate_Read | Null \<Rightarrow> Inl Null_Deref
      | Valid \<Rightarrow> Inr x | Dangling \<Rightarrow> Inl Use_After_Free)"

definition gone :: "ptr \<Rightarrow> ptr" where
  "gone p = (case p of Valid \<Rightarrow> Dangling | _ \<Rightarrow> p)"

lemma follow_Valid [simp]: "follow Valid x = Inr x"
  by (simp add: follow_def)

text \<open>
  \<open>boost::posix_time::ptime\<close>: \<open>None\<close> is the default \<open>not_a_date_time\<close>, which compares less
  than nothing.
\<close>

type_synonym ptime = "int option"

definition ptime_less :: "ptime \<Rightarrow> ptime \<Rightarrow> bool" where
  "ptime_less a b = (case (a, b) of (Some x, Some y) \<Rightarrow> x < y | _ \<Rightarrow> False)"

section \<open>Pieces and buffers\<close>

record memory_piece =
  mp_index :: int
  mp_length :: int
  mp_size :: int
  mp_bi :: int
  mp_is_completed :: bool
  mp_is_read :: bool

definition new_memory_piece :: "int \<Rightarrow> int \<Rightarrow> memory_piece" where
  "new_memory_piece i len =
     \<lparr>mp_index = i, mp_length = len, mp_size = 0, mp_bi = -1,
      mp_is_completed = False, mp_is_read = False\<rparr>"

definition is_buffered :: "memory_piece \<Rightarrow> bool" where
  "is_buffered p = (mp_bi p \<noteq> -1)"

definition piece_reset :: "memory_piece \<Rightarrow> memory_piece" where
  "piece_reset p = p\<lparr>mp_bi := -1, mp_is_completed := False, mp_is_read := False, mp_size := 0\<rparr>"

record memory_buffer =
  mb_index :: int
  mb_length :: int
  mb_buffer :: "byte list"
  mb_pi :: int
  mb_is_used :: bool
  mb_accessed :: ptime

text \<open>\<open>buffer.resize(length)\<close>: a negative length is a request the vector refuses.\<close>

definition new_memory_buffer :: "int \<Rightarrow> int \<Rightarrow> ub + memory_buffer" where
  "new_memory_buffer i len =
     (if len < 0 then Inl Length_Error
      else Inr \<lparr>mb_index = i, mb_length = len, mb_buffer = replicate (nat len) 0,
                mb_pi = -1, mb_is_used = False, mb_accessed = None\<rparr>)"

definition is_assigned :: "memory_buffer \<Rightarrow> bool" where
  "is_assigned b = (mb_pi b \<noteq> -1)"

definition buffer_reset :: "ptime \<Rightarrow> memory_buffer \<Rightarrow> memory_buffer" where
  "buffer_reset t b =
     b\<lparr>mb_is_used := False, mb_pi := -1, mb_accessed := t,
       mb_buffer := replicate (length (mb_buffer b)) 0\<rparr>"

section \<open>The storage object\<close>

text \<open>What the constructor asks of \<open>torrent_info\<close>.\<close>

record torrent_info =
  ti_num_pieces :: int
  ti_piece_length :: int
  ti_piece_size :: "int \<Rightarrow> int"

record 'b memory_storage =
  reader_pieces :: 'b
  reserved_pieces :: 'b
  capacity :: int
  piece_count :: int
  piece_length :: int
  pieces :: "memory_piece list"
  buffer_size :: int
  buffer_limit :: int
  buffer_used :: int
  buffer_reserved :: int
  buffers :: "memory_buffer list"
  m_info :: torrent_info
  m_handle :: ptr
  m_t :: ptr
  is_logging :: bool
  is_initialized :: bool
  is_reading :: bool

text \<open>
  The storage with the world around it: the torrent its handle refers to, and the wall clock
  as the sequence of readings it will give with the number of readings taken.
\<close>

record ('b, 't) world = "'b memory_storage" +
  torrent :: 't
  clock :: "nat \<Rightarrow> int"
  ticks :: nat

definition now :: "('b, 't) world \<Rightarrow> ptime \<times> ('b, 't) world" where
  "now w = (Some (clock w (ticks w)), w\<lparr>ticks := Suc (ticks w)\<rparr>)"

section \<open>Construction\<close>

text \<open>
  \<open>rint(ceil(capacity/piece_length) + 2)\<close>: the division is the truncating 64-bit one, so
  \<open>ceil\<close> and \<open>rint\<close> see a whole number; converting a value outside \<open>int\<close> is undefined.
  Quotients too large for a \<open>double\<close> to hold exactly are far outside \<open>int\<close>, so the rounding
  never decides the outcome. The result is capped by the number of pieces.
\<close>

definition trunc_div :: "int \<Rightarrow> int \<Rightarrow> int" where
  "trunc_div a b = sgn a * sgn b * (\<bar>a\<bar> div \<bar>b\<bar>)"

definition max_buffers :: "int \<Rightarrow> int \<Rightarrow> int \<Rightarrow> ub + int" where
  "max_buffers cap plen pcount =
     (if plen = 0 then Inl DivByZero
      else bindE (i32 (trunc_div cap plen + 2)) (\<lambda>n.
        Inr (if n > pcount then pcount else n)))"

text \<open>The loop that appends buffers \<open>i, i + 1, \<dots>, lim - 1\<close>.\<close>

function push_buffers :: "int \<Rightarrow> int \<Rightarrow> int \<Rightarrow> memory_buffer list \<Rightarrow> ub + memory_buffer list" where
  "push_buffers i lim len bs =
     (if i < lim
      then bindE (new_memory_buffer i len) (\<lambda>b. push_buffers (i + 1) lim len (bs @ [b]))
      else Inr bs)"
  by pat_completeness auto
termination
  by (relation "measure (\<lambda>(i, lim, len, bs). nat (lim - i))") auto

function push_pieces :: "int \<Rightarrow> torrent_info \<Rightarrow> memory_piece list \<Rightarrow> memory_piece list" where
  "push_pieces i ti ps =
     (if i < ti_num_pieces ti
      then push_pieces (i + 1) ti (ps @ [new_memory_piece i (ti_piece_size ti i)])
      else ps)"
  by pat_completeness auto
termination
  by (relation "measure (\<lambda>(i, ti, ps). nat (ti_num_pieces ti - i))") auto

declare push_buffers.simps [simp del] push_pieces.simps [simp del]

definition bitset_resize :: "('b, 't) ext \<Rightarrow> 'b \<Rightarrow> int \<Rightarrow> ub + 'b" where
  "bitset_resize X b n = (if n < 0 then Inl Length_Error else Inr (bs_resize X b (nat n)))"

text \<open>
  The constructor, on the global \<open>memory_size\<close> and the torrent's info. It assigns neither
  \<open>m_handle\<close> nor \<open>t\<close>.
\<close>

definition new_memory_storage ::
  "('b, 't) ext \<Rightarrow> int \<Rightarrow> torrent_info \<Rightarrow> ub + 'b memory_storage" where
  "new_memory_storage X memory_size ti =
     (let pcount = ti_num_pieces ti; plen = ti_piece_length ti; ps = push_pieces 0 ti [] in
      bindE (max_buffers memory_size plen pcount) (\<lambda>bsize.
      bindE (push_buffers 0 bsize plen []) (\<lambda>bufs.
      bindE (i32 (pcount + 10)) (\<lambda>nbits.
      bindE (bitset_resize X (bs_new X) nbits) (\<lambda>reader.
      bindE (bitset_resize X (bs_new X) nbits) (\<lambda>reserved.
        Inr \<lparr>reader_pieces = reader, reserved_pieces = reserved,
             capacity = memory_size, piece_count = pcount, piece_length = plen, pieces = ps,
             buffer_size = bsize, buffer_limit = bsize, buffer_used = 0, buffer_reserved = 0,
             buffers = bufs, m_info = ti, m_handle = Indeterminate, m_t = Indeterminate,
             is_logging = False, is_initialized = True, is_reading = False\<rparr>))))))"

definition in_world :: "'b memory_storage \<Rightarrow> 't \<Rightarrow> (nat \<Rightarrow> int) \<Rightarrow> ('b, 't) world" where
  "in_world s t c = memory_storage.extend s (world.fields t c 0)"

section \<open>Handles, predicates over pieces, giving a piece back\<close>

definition set_torrent_handle :: "('b, 't) ext \<Rightarrow> ptr \<Rightarrow> ('b, 't) world \<Rightarrow> ub + ('b, 't) world" where
  "set_torrent_handle X h w =
     (let w1 = w\<lparr>m_handle := h\<rparr> in
      bindE (follow (m_handle w1) (if has_native X (torrent w1) then Valid else Null)) (\<lambda>t.
        Inr (w1\<lparr>m_t := t\<rparr>)))"

definition is_reserved :: "('b, 't) ext \<Rightarrow> int \<Rightarrow> ('b, 't) world \<Rightarrow> ub + bool" where
  "is_reserved X index w =
     (if \<not> is_initialized w then Inr False else bit_test X (reserved_pieces w) index)"

definition is_readered :: "('b, 't) ext \<Rightarrow> int \<Rightarrow> ('b, 't) world \<Rightarrow> ub + bool" where
  "is_readered X index w =
     (if \<not> is_initialized w then Inr False
      else bindE (non_null (m_handle w)) (\<lambda>h.
        if \<not> h then Inr True
        else bindE (follow (m_handle w) (torrent w)) (\<lambda>t. Inr (piece_priority X t index \<noteq> 0))))"

definition restore_piece :: "('b, 't) ext \<Rightarrow> int \<Rightarrow> ('b, 't) world \<Rightarrow> ub + ('b, 't) world" where
  "restore_piece X pi w =
     bindE (non_null (m_handle w)) (\<lambda>h.
       if \<not> h then Inr w
       else bindE (non_null (m_t w)) (\<lambda>t.
         if \<not> t then Inr w
         else bindE (follow (m_t w) (torrent w)) (\<lambda>t0.
                let t1 = reset_piece_deadline X t0 pi;
                    t2 = set_piece_priority X t1 pi 0;
                    t3 = we_dont_have X t2 pi
                in Inr (w\<lparr>torrent := t3\<rparr>))))"

end
