(* ===== verification/Storage_Inv.thy ===== *)
theory Storage_Inv
  imports Storage_State
begin

text \<open>
  The well-formedness invariant of the storage, the accounting invariant of its two buffer
  counters, their frame rules, and the proof that the constructor establishes both.
\<close>

section \<open>Well-formedness\<close>

definition shape_ok :: "('b, 't) ext \<Rightarrow> ('b, 't) world \<Rightarrow> bool" where
  "shape_ok X w \<longleftrightarrow>
     is_initialized w \<and>
     0 \<le> piece_count w \<and> piece_count w + 10 \<le> INT_MAX \<and>
     int (length (pieces w)) = piece_count w \<and>
     0 < piece_length w \<and> piece_length w \<le> INT_MAX \<and>
     buffer_size w \<le> piece_count w \<and> int (length (buffers w)) = buffer_size w \<and>
     bs_size X (reader_pieces w) = nat (piece_count w + 10) \<and>
     bs_size X (reserved_pieces w) = nat (piece_count w + 10)"

definition piece_ok :: "int \<Rightarrow> int \<Rightarrow> memory_piece \<Rightarrow> bool" where
  "piece_ok plen i p \<longleftrightarrow>
     mp_index p = i \<and> 0 \<le> mp_length p \<and> mp_length p \<le> plen \<and> 0 \<le> mp_size p \<and>
     (mp_bi p = -1 \<longrightarrow> mp_size p = 0 \<and> \<not> mp_is_completed p \<and> \<not> mp_is_read p)"

definition buffer_ok :: "int \<Rightarrow> int \<Rightarrow> memory_buffer \<Rightarrow> bool" where
  "buffer_ok plen j b \<longleftrightarrow>
     mb_index b = j \<and> int (length (mb_buffer b)) = plen \<and>
     mb_is_used b = (mb_pi b \<noteq> -1) \<and>
     (\<not> mb_is_used b \<longrightarrow> mb_buffer b = replicate (nat plen) 0) \<and>
     (mb_is_used b \<longrightarrow> mb_accessed b \<noteq> None)"

text \<open>Pieces and buffers point at each other: \<open>bi\<close> and \<open>pi\<close> are mutually inverse.\<close>

definition link_ok :: "memory_piece list \<Rightarrow> memory_buffer list \<Rightarrow> bool" where
  "link_ok ps bs \<longleftrightarrow>
     (\<forall>i < length ps. mp_bi (ps ! i) = -1 \<or>
        (0 \<le> mp_bi (ps ! i) \<and> mp_bi (ps ! i) < int (length bs) \<and>
         mb_pi (bs ! nat (mp_bi (ps ! i))) = int i)) \<and>
     (\<forall>j < length bs. mb_pi (bs ! j) = -1 \<or>
        (0 \<le> mb_pi (bs ! j) \<and> mb_pi (bs ! j) < int (length ps) \<and>
         mp_bi (ps ! nat (mb_pi (bs ! j))) = int j))"

lemma link_okI:
  assumes "\<And>i. i < length ps \<Longrightarrow> mp_bi (ps ! i) \<noteq> -1 \<Longrightarrow>
      0 \<le> mp_bi (ps ! i) \<and> mp_bi (ps ! i) < int (length bs) \<and>
      mb_pi (bs ! nat (mp_bi (ps ! i))) = int i"
    and "\<And>j. j < length bs \<Longrightarrow> mb_pi (bs ! j) \<noteq> -1 \<Longrightarrow>
      0 \<le> mb_pi (bs ! j) \<and> mb_pi (bs ! j) < int (length ps) \<and>
      mp_bi (ps ! nat (mb_pi (bs ! j))) = int j"
  shows "link_ok ps bs"
  using assms unfolding link_ok_def by blast

lemma link_okD1:
  "link_ok ps bs \<Longrightarrow> i < length ps \<Longrightarrow> mp_bi (ps ! i) \<noteq> -1 \<Longrightarrow>
     0 \<le> mp_bi (ps ! i) \<and> mp_bi (ps ! i) < int (length bs) \<and>
     mb_pi (bs ! nat (mp_bi (ps ! i))) = int i"
  unfolding link_ok_def by blast

lemma link_okD2:
  "link_ok ps bs \<Longrightarrow> j < length bs \<Longrightarrow> mb_pi (bs ! j) \<noteq> -1 \<Longrightarrow>
     0 \<le> mb_pi (bs ! j) \<and> mb_pi (bs ! j) < int (length ps) \<and>
     mp_bi (ps ! nat (mb_pi (bs ! j))) = int j"
  unfolding link_ok_def by blast

text \<open>
  Pairing a free piece with a free buffer, and separating a pair: the new entries point at
  each other, or at nothing.
\<close>

lemma link_ok_pair:
  assumes ok: "link_ok ps bs" and k: "k < length ps" "mp_bi (ps ! k) = -1" "mp_bi p' = int j"
    and j: "j < length bs" "mb_pi (bs ! j) = -1" "mb_pi b' = int k"
  shows "link_ok (ps[k := p']) (bs[j := b'])"
proof (rule link_okI)
  fix i assume i: "i < length (ps[k := p'])" "mp_bi (ps[k := p'] ! i) \<noteq> -1"
  show "0 \<le> mp_bi (ps[k := p'] ! i) \<and> mp_bi (ps[k := p'] ! i) < int (length (bs[j := b'])) \<and>
      mb_pi (bs[j := b'] ! nat (mp_bi (ps[k := p'] ! i))) = int i"
  proof (cases "i = k")
    case True
    then show ?thesis using k j by simp
  next
    case False
    then have "nat (mp_bi (ps ! i)) \<noteq> j" using link_okD1 [OF ok, of i] i j(2) by auto
    then show ?thesis using False link_okD1 [OF ok, of i] i by simp
  qed
next
  fix l assume l: "l < length (bs[j := b'])" "mb_pi (bs[j := b'] ! l) \<noteq> -1"
  show "0 \<le> mb_pi (bs[j := b'] ! l) \<and> mb_pi (bs[j := b'] ! l) < int (length (ps[k := p'])) \<and>
      mp_bi (ps[k := p'] ! nat (mb_pi (bs[j := b'] ! l))) = int l"
  proof (cases "l = j")
    case True
    then show ?thesis using k j by simp
  next
    case False
    then have "nat (mb_pi (bs ! l)) \<noteq> k" using link_okD2 [OF ok, of l] l k(2) by auto
    then show ?thesis using False link_okD2 [OF ok, of l] l by simp
  qed
qed

lemma link_ok_unpair:
  assumes ok: "link_ok ps bs" and k: "k < length ps" "mp_bi (ps ! k) = int j" "mp_bi p' = -1"
    and j: "j < length bs" "mb_pi (bs ! j) = int k" "mb_pi b' = -1"
  shows "link_ok (ps[k := p']) (bs[j := b'])"
proof (rule link_okI)
  fix i assume i: "i < length (ps[k := p'])" "mp_bi (ps[k := p'] ! i) \<noteq> -1"
  then have ik: "i \<noteq> k" using k by auto
  then have "nat (mp_bi (ps ! i)) \<noteq> j" using link_okD1 [OF ok, of i] i j(2) by auto
  then show "0 \<le> mp_bi (ps[k := p'] ! i) \<and> mp_bi (ps[k := p'] ! i) < int (length (bs[j := b'])) \<and>
      mb_pi (bs[j := b'] ! nat (mp_bi (ps[k := p'] ! i))) = int i"
    using ik link_okD1 [OF ok, of i] i by simp
next
  fix l assume l: "l < length (bs[j := b'])" "mb_pi (bs[j := b'] ! l) \<noteq> -1"
  then have lj: "l \<noteq> j" using j by auto
  then have "nat (mb_pi (bs ! l)) \<noteq> k" using link_okD2 [OF ok, of l] l k(2) by auto
  then show "0 \<le> mb_pi (bs[j := b'] ! l) \<and> mb_pi (bs[j := b'] ! l) < int (length (ps[k := p'])) \<and>
      mp_bi (ps[k := p'] ! nat (mb_pi (bs[j := b'] ! l))) = int l"
    using lj link_okD2 [OF ok, of l] l by simp
qed

text \<open>Updates that keep \<open>bi\<close> and \<open>pi\<close> keep the links.\<close>

lemma link_ok_keep_piece:
  assumes "link_ok ps bs" "mp_bi p' = mp_bi (ps ! k)"
  shows "link_ok (ps[k := p']) bs"
proof -
  have "mp_bi (ps[k := p'] ! i) = mp_bi (ps ! i)" if "i < length ps" for i
    using assms(2) that by (cases "i = k") auto
  then show ?thesis using assms(1) unfolding link_ok_def by auto
qed

lemma link_ok_keep_buffer:
  assumes "link_ok ps bs" "mb_pi b' = mb_pi (bs ! j)"
  shows "link_ok ps (bs[j := b'])"
proof -
  have "mb_pi (bs[j := b'] ! i) = mb_pi (bs ! i)" if "i < length bs" for i
    using assms(2) that by (cases "i = j") auto
  then show ?thesis using assms(1) unfolding link_ok_def by auto
qed

definition wf :: "('b, 't) ext \<Rightarrow> ('b, 't) world \<Rightarrow> bool" where
  "wf X w \<longleftrightarrow>
     shape_ok X w \<and>
     (\<forall>i < length (pieces w). piece_ok (piece_length w) (int i) (pieces w ! i)) \<and>
     (\<forall>j < length (buffers w). buffer_ok (piece_length w) (int j) (buffers w ! j)) \<and>
     link_ok (pieces w) (buffers w)"

section \<open>Accounting\<close>

text \<open>
  \<open>buffer_used\<close> counts the buffers lent to ordinary pieces; every buffer lent to a reserved
  piece is taken off \<open>buffer_limit\<close> instead.
\<close>

definition lent :: "('b, 't) ext \<Rightarrow> 'b \<Rightarrow> bool \<Rightarrow> memory_buffer \<Rightarrow> bool" where
  "lent X r res b \<longleftrightarrow> mb_is_used b \<and> bs_test X r (nat (mb_pi b)) = res"

definition acct :: "('b, 't) ext \<Rightarrow> ('b, 't) world \<Rightarrow> bool" where
  "acct X w \<longleftrightarrow>
     buffer_used w = count_if (lent X (reserved_pieces w) False) (buffers w) \<and>
     buffer_limit w = buffer_size w - count_if (lent X (reserved_pieces w) True) (buffers w)"

definition handle_ok :: "('b, 't) world \<Rightarrow> bool" where
  "handle_ok w \<longleftrightarrow> m_handle w \<in> {Null, Valid} \<and> m_t w \<in> {Null, Valid}"

lemma lent_unused [simp]: "\<not> mb_is_used b \<Longrightarrow> lent X r v b = False"
  by (simp add: lent_def)

lemma used_split:
  "count_if mb_is_used bs = count_if (lent X r False) bs + count_if (lent X r True) bs"
  by (induction bs) (auto simp: lent_def)

section \<open>Frame rules\<close>

lemma wf_frame [simp]:
  "wf X (w\<lparr>torrent := t\<rparr>) = wf X w" "wf X (w\<lparr>ticks := n\<rparr>) = wf X w"
  "wf X (w\<lparr>m_handle := h\<rparr>) = wf X w" "wf X (w\<lparr>m_t := h\<rparr>) = wf X w"
  "wf X (w\<lparr>is_reading := f\<rparr>) = wf X w" "wf X (w\<lparr>is_logging := f\<rparr>) = wf X w"
  "wf X (w\<lparr>buffer_used := k\<rparr>) = wf X w" "wf X (w\<lparr>buffer_limit := k\<rparr>) = wf X w"
  "wf X (w\<lparr>buffer_reserved := k\<rparr>) = wf X w" "wf X (w\<lparr>capacity := k\<rparr>) = wf X w"
  by (simp_all add: wf_def shape_ok_def)

lemma acct_frame [simp]:
  "acct X (w\<lparr>torrent := t\<rparr>) = acct X w" "acct X (w\<lparr>ticks := n\<rparr>) = acct X w"
  "acct X (w\<lparr>m_handle := h\<rparr>) = acct X w" "acct X (w\<lparr>m_t := h\<rparr>) = acct X w"
  "acct X (w\<lparr>is_reading := f\<rparr>) = acct X w" "acct X (w\<lparr>is_logging := f\<rparr>) = acct X w"
  "acct X (w\<lparr>buffer_reserved := k\<rparr>) = acct X w" "acct X (w\<lparr>capacity := k\<rparr>) = acct X w"
  "acct X (w\<lparr>pieces := ps\<rparr>) = acct X w"
  by (simp_all add: acct_def)

section \<open>Consequences of well-formedness\<close>

lemma wf_shape:
  assumes "wf X w"
  shows "is_initialized w" and "0 \<le> piece_count w" and "piece_count w + 10 \<le> INT_MAX"
    and "int (length (pieces w)) = piece_count w" and "0 < piece_length w"
    and "piece_length w \<le> INT_MAX" and "buffer_size w \<le> piece_count w"
    and "int (length (buffers w)) = buffer_size w"
    and "bs_size X (reader_pieces w) = nat (piece_count w + 10)"
    and "bs_size X (reserved_pieces w) = nat (piece_count w + 10)"
  using assms by (auto simp: wf_def shape_ok_def)

lemma wf_piece: "wf X w \<Longrightarrow> i < length (pieces w) \<Longrightarrow> piece_ok (piece_length w) (int i) (pieces w ! i)"
  by (simp add: wf_def)

lemma wf_buffer: "wf X w \<Longrightarrow> j < length (buffers w) \<Longrightarrow> buffer_ok (piece_length w) (int j) (buffers w ! j)"
  by (simp add: wf_def)

lemma wf_link: "wf X w \<Longrightarrow> link_ok (pieces w) (buffers w)"
  by (simp add: wf_def)

text \<open>The buffer of a buffered piece, and the piece of a used buffer.\<close>

lemma wf_piece_buffer:
  assumes "wf X w" "0 \<le> pz" "pz < piece_count w" "is_buffered (pieces w ! nat pz)"
  defines "k \<equiv> mp_bi (pieces w ! nat pz)"
  shows "0 \<le> k" "k < int (length (buffers w))" "mb_pi (buffers w ! nat k) = pz"
    and "mb_is_used (buffers w ! nat k)" and "int (length (mb_buffer (buffers w ! nat k))) = piece_length w"
proof -
  have "nat pz < length (pieces w)" using assms wf_shape(4) [OF assms(1)] by linarith
  with wf_link [OF assms(1)] assms(2,4)
  show k: "0 \<le> k" "k < int (length (buffers w))" "mb_pi (buffers w ! nat k) = pz"
    by (auto simp: link_ok_def is_buffered_def k_def)
  then have "buffer_ok (piece_length w) k (buffers w ! nat k)"
    using wf_buffer [OF assms(1), of "nat k"] by auto
  then show "mb_is_used (buffers w ! nat k)"
    and "int (length (mb_buffer (buffers w ! nat k))) = piece_length w"
    using k(3) assms(2) by (simp_all add: buffer_ok_def)
qed

lemma wf_buffer_piece:
  assumes "wf X w" "j < length (buffers w)" "mb_is_used (buffers w ! j)"
  shows "0 \<le> mb_pi (buffers w ! j)" "mb_pi (buffers w ! j) < piece_count w"
    and "mp_bi (pieces w ! nat (mb_pi (buffers w ! j))) = int j"
  using assms wf_buffer [OF assms(1,2)] wf_link [OF assms(1)] wf_shape(4) [OF assms(1)]
  by (auto simp: link_ok_def buffer_ok_def)

text \<open>Both counters stay within the number of pieces, so they never overflow.\<close>

lemma acct_bounds:
  assumes "wf X w" "acct X w"
  shows "0 \<le> buffer_used w" "buffer_used w \<le> buffer_size w" "0 \<le> buffer_limit w"
    "buffer_limit w \<le> buffer_size w" "buffer_used w + 10 \<le> INT_MAX"
    "0 \<le> buffer_size w" "buffer_size w + 10 \<le> INT_MAX"
proof -
  have "count_if (lent X (reserved_pieces w) False) (buffers w) \<le> buffer_size w"
    and "count_if (lent X (reserved_pieces w) True) (buffers w) \<le> buffer_size w"
    using count_if_le_length [of _ "buffers w"] wf_shape(8) [OF assms(1)] by auto
  then show "0 \<le> buffer_used w" "buffer_used w \<le> buffer_size w" "0 \<le> buffer_limit w"
    "buffer_limit w \<le> buffer_size w" "buffer_used w + 10 \<le> INT_MAX"
    "0 \<le> buffer_size w" "buffer_size w + 10 \<le> INT_MAX"
    using assms(2) wf_shape(3,7,8) [OF assms(1)] by (auto simp: acct_def)
qed

lemma used_count:
  assumes "wf X w" "acct X w"
  shows "count_if mb_is_used (buffers w) = buffer_used w + (buffer_size w - buffer_limit w)"
  using assms(2) used_split [of "buffers w" X "reserved_pieces w"] by (simp add: acct_def)

text \<open>Whenever fewer buffers are used than the limit allows, one of them is free.\<close>

lemma spare_buffer:
  assumes "wf X w" "acct X w" "buffer_used w < buffer_limit w"
  shows "\<exists>j < length (buffers w). \<not> mb_is_used (buffers w ! j)"
proof (rule ccontr)
  assume "\<not> ?thesis"
  then have "\<forall>b\<in>set (buffers w). mb_is_used b" by (auto simp: in_set_conv_nth)
  then have "count_if mb_is_used (buffers w) = int (length (buffers w))"
    by (simp add: count_if_def)
  with used_count [OF assms(1,2)] assms(3) wf_shape(8) [OF assms(1)] show False by simp
qed

section \<open>The constructor\<close>

lemma push_pieces_eq:
  "0 \<le> i \<Longrightarrow> push_pieces i ti ps =
     ps @ map (\<lambda>k. new_memory_piece (int k) (ti_piece_size ti (int k))) [nat i..<nat (ti_num_pieces ti)]"
proof (induction i ti ps rule: push_pieces.induct)
  case (1 i ti ps)
  show ?case
  proof (cases "i < ti_num_pieces ti")
    case True
    then have "[nat i..<nat (ti_num_pieces ti)] = nat i # [nat (i + 1)..<nat (ti_num_pieces ti)]"
      using "1.prems" by (simp add: upt_conv_Cons nat_add_distrib)
    with 1 True show ?thesis by (subst push_pieces.simps) simp
  next
    case False
    then show ?thesis by (subst push_pieces.simps) simp
  qed
qed

definition empty_buffer :: "int \<Rightarrow> int \<Rightarrow> memory_buffer" where
  "empty_buffer plen i =
     \<lparr>mb_index = i, mb_length = plen, mb_buffer = replicate (nat plen) 0,
      mb_pi = -1, mb_is_used = False, mb_accessed = None\<rparr>"

lemma push_buffers_eq:
  "0 \<le> i \<Longrightarrow> 0 \<le> plen \<Longrightarrow> push_buffers i n plen bs =
     Inr (bs @ map (\<lambda>k. empty_buffer plen (int k)) [nat i..<nat n])"
proof (induction i n plen bs rule: push_buffers.induct)
  case (1 i n plen bs)
  show ?case
  proof (cases "i < n")
    case True
    then have "[nat i..<nat n] = nat i # [nat (i + 1)..<nat n]"
      using "1.prems" by (simp add: upt_conv_Cons nat_add_distrib)
    moreover have "new_memory_buffer i plen = Inr (empty_buffer plen i)"
      using "1.prems" by (simp add: new_memory_buffer_def empty_buffer_def)
    ultimately show ?thesis using 1 True by (subst push_buffers.simps) simp
  next
    case False
    then show ?thesis by (subst push_buffers.simps) simp
  qed
qed

lemma buffer_ok_empty [simp]: "0 \<le> plen \<Longrightarrow> buffer_ok plen i (empty_buffer plen i)"
  by (simp add: buffer_ok_def empty_buffer_def)

lemma trunc_div_nonneg: "0 \<le> a \<Longrightarrow> 0 < b \<Longrightarrow> trunc_div a b = a div b"
  by (simp add: trunc_div_def sgn_if)

text \<open>What \<open>torrent_info\<close> promises: the last piece may be shorter, none is longer.\<close>

definition info_ok :: "torrent_info \<Rightarrow> bool" where
  "info_ok ti \<longleftrightarrow>
     0 \<le> ti_num_pieces ti \<and> ti_num_pieces ti + 10 \<le> INT_MAX \<and>
     0 < ti_piece_length ti \<and> ti_piece_length ti \<le> INT_MAX \<and>
     (\<forall>i. 0 \<le> i \<and> i < ti_num_pieces ti \<longrightarrow>
        0 < ti_piece_size ti i \<and> ti_piece_size ti i \<le> ti_piece_length ti)"

lemma constructed_bound:
  assumes "new_memory_storage X mem ti = Inr s" "info_ok ti" "0 \<le> mem"
  shows "mem div ti_piece_length ti + 2 \<le> INT_MAX"
  using assms by (auto simp: new_memory_storage_def Let_def bindE_eq_Inr max_buffers_def
      trunc_div_nonneg i32_eq_Inr info_ok_def)

lemma new_memory_storage_eq:
  assumes "info_ok ti" "0 \<le> mem" "mem div ti_piece_length ti + 2 \<le> INT_MAX"
  defines "n \<equiv> min (ti_num_pieces ti) (mem div ti_piece_length ti + 2)"
  shows "new_memory_storage X mem ti = Inr
    \<lparr>reader_pieces = bs_resize X (bs_new X) (nat (ti_num_pieces ti + 10)),
     reserved_pieces = bs_resize X (bs_new X) (nat (ti_num_pieces ti + 10)),
     capacity = mem, piece_count = ti_num_pieces ti, piece_length = ti_piece_length ti,
     pieces = map (\<lambda>k. new_memory_piece (int k) (ti_piece_size ti (int k))) [0..<nat (ti_num_pieces ti)],
     buffer_size = n, buffer_limit = n, buffer_used = 0, buffer_reserved = 0,
     buffers = map (\<lambda>k. empty_buffer (ti_piece_length ti) (int k)) [0..<nat n],
     m_info = ti, m_handle = Indeterminate, m_t = Indeterminate,
     is_logging = False, is_initialized = True, is_reading = False\<rparr>"
proof -
  have p: "0 < ti_piece_length ti" "0 \<le> ti_num_pieces ti" "ti_num_pieces ti + 10 \<le> INT_MAX"
    using assms(1) by (auto simp: info_ok_def)
  then have "0 \<le> mem div ti_piece_length ti" using assms(2) by (simp add: pos_imp_zdiv_nonneg_iff)
  then have "max_buffers mem (ti_piece_length ti) (ti_num_pieces ti) = Inr n"
    using p assms(2,3) by (simp add: max_buffers_def trunc_div_nonneg i32_nonneg n_def min_def)
  moreover have "i32 (ti_num_pieces ti + 10) = Inr (ti_num_pieces ti + 10)"
    using p by (simp add: i32_nonneg)
  ultimately show ?thesis
    using p by (simp add: new_memory_storage_def Let_def push_pieces_eq push_buffers_eq bitset_resize_def)
qed

lemma in_world_simps [simp]:
  "reader_pieces (in_world s t c) = reader_pieces s" "reserved_pieces (in_world s t c) = reserved_pieces s"
  "capacity (in_world s t c) = capacity s" "piece_count (in_world s t c) = piece_count s"
  "piece_length (in_world s t c) = piece_length s" "pieces (in_world s t c) = pieces s"
  "buffer_size (in_world s t c) = buffer_size s" "buffer_limit (in_world s t c) = buffer_limit s"
  "buffer_used (in_world s t c) = buffer_used s" "buffer_reserved (in_world s t c) = buffer_reserved s"
  "buffers (in_world s t c) = buffers s" "m_handle (in_world s t c) = m_handle s"
  "m_t (in_world s t c) = m_t s" "is_logging (in_world s t c) = is_logging s"
  "is_initialized (in_world s t c) = is_initialized s" "is_reading (in_world s t c) = is_reading s"
  "torrent (in_world s t c) = t" "clock (in_world s t c) = c" "ticks (in_world s t c) = 0"
  by (simp_all add: in_world_def memory_storage.extend_def world.fields_def)

lemma link_ok_fresh:
  "\<forall>p\<in>set ps. mp_bi p = -1 \<Longrightarrow> \<forall>b\<in>set bs. mb_pi b = -1 \<Longrightarrow> link_ok ps bs"
  by (auto simp: link_ok_def)

lemma count_if_none: "\<forall>b\<in>set bs. \<not> P b \<Longrightarrow> count_if P bs = 0"
  using count_if_pos [of P bs] count_if_nonneg [of P bs] by (metis order_less_le)

lemma constructor_wf:
  assumes "bitset_laws X" "info_ok ti" "0 \<le> mem" "mem div ti_piece_length ti + 2 \<le> INT_MAX"
  shows "\<exists>s. new_memory_storage X mem ti = Inr s \<and>
    wf X (in_world s t c) \<and> acct X (in_world s t c)"
proof -
  let ?n = "min (ti_num_pieces ti) (mem div ti_piece_length ti + 2)"
  let ?ps = "map (\<lambda>k. new_memory_piece (int k) (ti_piece_size ti (int k))) [0..<nat (ti_num_pieces ti)]"
  let ?bs = "map (\<lambda>k. empty_buffer (ti_piece_length ti) (int k)) [0..<nat ?n]"
  have p: "0 < ti_piece_length ti" "0 \<le> ti_num_pieces ti" "ti_num_pieces ti + 10 \<le> INT_MAX"
    "ti_piece_length ti \<le> INT_MAX"
    using assms(2) by (auto simp: info_ok_def)
  then have n: "0 \<le> ?n" using assms(3) by (simp add: pos_imp_zdiv_nonneg_iff)
  obtain s where s: "new_memory_storage X mem ti = Inr s" and f: "pieces s = ?ps" "buffers s = ?bs"
    "piece_count s = ti_num_pieces ti" "piece_length s = ti_piece_length ti" "buffer_size s = ?n"
    "buffer_limit s = ?n" "buffer_used s = 0" "is_initialized s"
    "reader_pieces s = bs_resize X (bs_new X) (nat (ti_num_pieces ti + 10))"
    "reserved_pieces s = bs_resize X (bs_new X) (nat (ti_num_pieces ti + 10))"
    using new_memory_storage_eq [OF assms(2-4), of X] by simp
  have fresh: "\<forall>b\<in>set ?bs. mb_pi b = -1 \<and> \<not> mb_is_used b"
    by (simp add: empty_buffer_def)
  have "shape_ok X (in_world s t c)"
    using p n f assms(1) by (simp add: shape_ok_def bitset_laws_def)
  moreover have "piece_ok (ti_piece_length ti) (int i) (?ps ! i)" if "i < length ?ps" for i
    using that assms(2) by (simp add: piece_ok_def new_memory_piece_def info_ok_def less_imp_le)
  moreover have "buffer_ok (ti_piece_length ti) (int j) (?bs ! j)" if "j < length ?bs" for j
    using that p by simp
  moreover have "link_ok ?ps ?bs"
    using fresh by (intro link_ok_fresh) (simp_all add: new_memory_piece_def)
  moreover have "count_if (lent X r v) ?bs = 0" for r v
    using fresh by (intro count_if_none) (simp add: lent_def)
  ultimately show ?thesis using s f by (simp add: wf_def acct_def)
qed

end
