(* ===== verification/Buffer_Pool.thy ===== *)
theory Buffer_Pool
  imports Storage_Inv
begin

text \<open>
  Lending buffers to pieces and taking them back: \<open>get_buffer\<close> with its two callers, and
  \<open>remove_piece\<close> (memory_storage.hpp). Each operation is first reduced, under the invariant, to
  a plain state update (\<open>assigned\<close>, \<open>freed\<close>); the facts about those updates carry the proofs
  of every client.
\<close>

section \<open>get_buffer\<close>

text \<open>
  The body of the search loop for a buffer \<open>i\<close> that is not used: it is lent to the piece at
  position \<open>pz\<close>, and either the limit or the usage count is adjusted.
\<close>

definition assign_buffer ::
  "('b, 't) ext \<Rightarrow> int \<Rightarrow> int \<Rightarrow> ('b, 't) world \<Rightarrow> ub + ('b, 't) world" where
  "assign_buffer X pz i w =
     bindE (vec_at (pieces w) pz) (\<lambda>p.
     bindE (vec_upd (buffers w) i (\<lambda>b. b\<lparr>mb_is_used := True, mb_pi := mp_index p\<rparr>)) (\<lambda>bs.
     let (t, w1) = now (w\<lparr>buffers := bs\<rparr>) in
     bindE (vec_upd (buffers w1) i (\<lambda>b. b\<lparr>mb_accessed := t\<rparr>)) (\<lambda>bs.
     bindE (vec_at bs i) (\<lambda>b.
     bindE (vec_upd (pieces w1) pz (\<lambda>p. p\<lparr>mp_bi := mb_index b\<rparr>)) (\<lambda>ps.
     let w2 = w1\<lparr>buffers := bs, pieces := ps\<rparr> in
     bindE (bit_test X (reserved_pieces w2) (mp_index p)) (\<lambda>reserved.
       if reserved then bindE (i32 (buffer_limit w2 - 1)) (\<lambda>n. Inr (w2\<lparr>buffer_limit := n\<rparr>))
       else bindE (i32 (buffer_used w2 + 1)) (\<lambda>n. Inr (w2\<lparr>buffer_used := n\<rparr>))))))))"

function get_buffer_loop ::
  "('b, 't) ext \<Rightarrow> int \<Rightarrow> int \<Rightarrow> ('b, 't) world \<Rightarrow> ub + ('b, 't) world" where
  "get_buffer_loop X pz i w =
     (if i < buffer_size w
      then bindE (vec_at (buffers w) i) (\<lambda>b.
        if mb_is_used b then get_buffer_loop X pz (i + 1) w else assign_buffer X pz i w)
      else Inr w)"
  by pat_completeness auto
termination
  by (relation "measure (\<lambda>(X, pz, i, w). nat (buffer_size w - i))") auto

declare get_buffer_loop.simps [simp del]

text \<open>
  \<open>get_buffer(&pieces[pz], is_write)\<close>. The re-checks under the lock are kept; no other thread
  runs between them and the first check here.
\<close>

definition get_buffer ::
  "('b, 't) ext \<Rightarrow> int \<Rightarrow> bool \<Rightarrow> ('b, 't) world \<Rightarrow> ub + bool \<times> ('b, 't) world" where
  "get_buffer X pz is_write w =
     bindE (vec_at (pieces w) pz) (\<lambda>p.
       if is_buffered p then Inr (True, w)
       else if \<not> is_write then Inr (is_buffered p, w)
       else if is_buffered p then Inr (True, w)
       else bindE (if is_reading w then bindE (is_readered X (mp_index p) w) (\<lambda>r. Inr (\<not> r))
                   else Inr False) (\<lambda>refuse.
         if refuse then bindE (restore_piece X (mp_index p) w) (\<lambda>w. Inr (False, w))
         else bindE (get_buffer_loop X pz 0 w) (\<lambda>w.
              bindE (vec_at (pieces w) pz) (\<lambda>p. Inr (is_buffered p, w)))))"

definition get_read_buffer ::
  "('b, 't) ext \<Rightarrow> int \<Rightarrow> ('b, 't) world \<Rightarrow> ub + bool \<times> ('b, 't) world" where
  "get_read_buffer X pz w = get_buffer X pz False w"

definition get_write_buffer ::
  "('b, 't) ext \<Rightarrow> int \<Rightarrow> ('b, 't) world \<Rightarrow> ub + bool \<times> ('b, 't) world" where
  "get_write_buffer X pz w = get_buffer X pz True w"

section \<open>remove_piece\<close>

definition remove_piece ::
  "('b, 't) ext \<Rightarrow> int \<Rightarrow> ('b, 't) world \<Rightarrow> ub + ('b, 't) world" where
  "remove_piece X bi w =
     bindE (vec_at (buffers w) bi) (\<lambda>b.
     let pi = mb_pi b; (t, w1) = now w in
     bindE (vec_upd (buffers w1) bi (buffer_reset t)) (\<lambda>bs.
     bindE (i32 (buffer_used w1 - 1)) (\<lambda>n.
     let w2 = w1\<lparr>buffers := bs, buffer_used := n\<rparr> in
       if pi \<noteq> -1 \<and> pi < piece_count w2
       then bindE (vec_upd (pieces w2) pi piece_reset) (\<lambda>ps. restore_piece X pi (w2\<lparr>pieces := ps\<rparr>))
       else Inr w2)))"

section \<open>The state updates behind them\<close>

definition lent_buffer :: "int \<Rightarrow> ptime \<Rightarrow> memory_buffer \<Rightarrow> memory_buffer" where
  "lent_buffer pz t b = b\<lparr>mb_is_used := True, mb_pi := pz, mb_accessed := t\<rparr>"

definition assigned :: "('b, 't) ext \<Rightarrow> nat \<Rightarrow> nat \<Rightarrow> ('b, 't) world \<Rightarrow> ('b, 't) world" where
  "assigned X k j w =
     (let w1 = w\<lparr>ticks := Suc (ticks w),
                 buffers := (buffers w)[j := lent_buffer (int k) (Some (clock w (ticks w))) (buffers w ! j)],
                 pieces := (pieces w)[k := (pieces w ! k)\<lparr>mp_bi := int j\<rparr>]\<rparr>
      in if bs_test X (reserved_pieces w) k
         then w1\<lparr>buffer_limit := buffer_limit w - 1\<rparr>
         else w1\<lparr>buffer_used := buffer_used w + 1\<rparr>)"

definition freed :: "nat \<Rightarrow> nat \<Rightarrow> ('b, 't) world \<Rightarrow> ('b, 't) world" where
  "freed j k w =
     w\<lparr>ticks := Suc (ticks w),
       buffers := (buffers w)[j := buffer_reset (Some (clock w (ticks w))) (buffers w ! j)],
       buffer_used := buffer_used w - 1,
       pieces := (pieces w)[k := piece_reset (pieces w ! k)]\<rparr>"

lemma assigned_sel [simp]:
  "ticks (assigned X k j w) = Suc (ticks w)"
  "buffers (assigned X k j w) =
     (buffers w)[j := lent_buffer (int k) (Some (clock w (ticks w))) (buffers w ! j)]"
  "pieces (assigned X k j w) = (pieces w)[k := (pieces w ! k)\<lparr>mp_bi := int j\<rparr>]"
  "buffer_limit (assigned X k j w) =
     buffer_limit w - (if bs_test X (reserved_pieces w) k then 1 else 0)"
  "buffer_used (assigned X k j w) =
     buffer_used w + (if bs_test X (reserved_pieces w) k then 0 else 1)"
  "reader_pieces (assigned X k j w) = reader_pieces w"
  "reserved_pieces (assigned X k j w) = reserved_pieces w"
  "capacity (assigned X k j w) = capacity w"
  "piece_count (assigned X k j w) = piece_count w"
  "piece_length (assigned X k j w) = piece_length w"
  "buffer_size (assigned X k j w) = buffer_size w"
  "m_handle (assigned X k j w) = m_handle w" "m_t (assigned X k j w) = m_t w"
  "is_logging (assigned X k j w) = is_logging w"
  "is_initialized (assigned X k j w) = is_initialized w"
  "is_reading (assigned X k j w) = is_reading w"
  "torrent (assigned X k j w) = torrent w" "clock (assigned X k j w) = clock w"
  by (simp_all add: assigned_def Let_def)

lemma freed_sel [simp]:
  "ticks (freed j k w) = Suc (ticks w)"
  "buffers (freed j k w) =
     (buffers w)[j := buffer_reset (Some (clock w (ticks w))) (buffers w ! j)]"
  "pieces (freed j k w) = (pieces w)[k := piece_reset (pieces w ! k)]"
  "buffer_limit (freed j k w) = buffer_limit w"
  "buffer_used (freed j k w) = buffer_used w - 1"
  "reader_pieces (freed j k w) = reader_pieces w"
  "reserved_pieces (freed j k w) = reserved_pieces w"
  "capacity (freed j k w) = capacity w"
  "piece_count (freed j k w) = piece_count w"
  "piece_length (freed j k w) = piece_length w"
  "buffer_size (freed j k w) = buffer_size w"
  "m_handle (freed j k w) = m_handle w" "m_t (freed j k w) = m_t w"
  "is_logging (freed j k w) = is_logging w"
  "is_initialized (freed j k w) = is_initialized w"
  "is_reading (freed j k w) = is_reading w"
  "torrent (freed j k w) = torrent w" "clock (freed j k w) = clock w"
  by (simp_all add: freed_def)

lemma restore_piece_InrE:
  assumes "restore_piece X pi w = Inr w'"
  obtains t where "w' = w\<lparr>torrent := t\<rparr>"
proof -
  have "\<exists>t. w' = w\<lparr>torrent := t\<rparr>"
  proof (cases "w' = w")
    case True
    then have "w' = w\<lparr>torrent := torrent w\<rparr>" by simp
    then show ?thesis by blast
  next
    case False
    with assms show ?thesis
      by (auto simp: restore_piece_def Let_def bindE_eq_Inr split: if_splits)
  qed
  then show thesis using that by blast
qed

lemma restore_piece_total:
  "handle_ok w \<Longrightarrow> \<exists>t. restore_piece X pi w = Inr (w\<lparr>torrent := t\<rparr>)"
proof -
  assume "handle_ok w"
  then have "\<exists>w'. restore_piece X pi w = Inr w'"
    by (cases "m_handle w"; cases "m_t w")
      (auto simp: restore_piece_def handle_ok_def non_null_def Let_def)
  then obtain w' where w': "restore_piece X pi w = Inr w'" ..
  then obtain t where "w' = w\<lparr>torrent := t\<rparr>" by (rule restore_piece_InrE)
  with w' show ?thesis by blast
qed

lemma assign_buffer_eq:
  assumes "wf X w" "k < length (pieces w)" "j < length (buffers w)"
    and "r = bs_test X (reserved_pieces w) k"
    and "\<not> r \<Longrightarrow> buffer_used w + 1 \<le> INT_MAX \<and> INT_MIN \<le> buffer_used w + 1"
    and "r \<Longrightarrow> INT_MIN \<le> buffer_limit w - 1 \<and> buffer_limit w - 1 \<le> INT_MAX"
  shows "assign_buffer X (int k) (int j) w = Inr (assigned X k j w)"
proof -
  have "mp_index (pieces w ! k) = int k" using wf_piece [OF assms(1,2)] by (simp add: piece_ok_def)
  moreover have "mb_index (buffers w ! j) = int j"
    using wf_buffer [OF assms(1,3)] by (simp add: buffer_ok_def)
  moreover have "bit_test X (reserved_pieces w) (int k) = Inr r"
    using wf_shape(4,10) [OF assms(1)] assms(2,4) by (simp add: bit_test_def)
  ultimately show ?thesis
    using assms(2-6) by (cases r)
      (simp_all add: assign_buffer_def assigned_def now_def lent_buffer_def Let_def i32_ok)
qed

lemma assign_buffer_InrD:
  assumes "wf X w" "k < length (pieces w)" "j < length (buffers w)"
    and "assign_buffer X (int k) (int j) w = Inr w'"
  shows "w' = assigned X k j w"
proof -
  have "mp_index (pieces w ! k) = int k" using wf_piece [OF assms(1,2)] by (simp add: piece_ok_def)
  moreover have "mb_index (buffers w ! j) = int j"
    using wf_buffer [OF assms(1,3)] by (simp add: buffer_ok_def)
  moreover have "bit_test X (reserved_pieces w) (int k) = Inr (bs_test X (reserved_pieces w) k)"
    using wf_shape(4,10) [OF assms(1)] assms(2) by (simp add: bit_test_def)
  ultimately show ?thesis
    using assms(2-4)
    by (auto simp: assign_buffer_def assigned_def now_def lent_buffer_def Let_def bindE_eq_Inr
        i32_eq_Inr split: if_splits)
qed

lemma remove_piece_InrE:
  assumes "wf X w" "j < length (buffers w)" "mb_is_used (buffers w ! j)"
    and "remove_piece X (int j) w = Inr w'"
  obtains t where "w' = (freed j (nat (mb_pi (buffers w ! j))) w)\<lparr>torrent := t\<rparr>"
proof -
  let ?p = "mb_pi (buffers w ! j)"
  have p: "0 \<le> ?p" "?p < piece_count w" "nat ?p < length (pieces w)"
    using wf_buffer_piece [OF assms(1-3)] wf_shape(4) [OF assms(1)] by linarith+
  then have "restore_piece X ?p (freed j (nat ?p) w) = Inr w'"
    using assms(2,4) wf_shape(4) [OF assms(1)]
    by (auto simp: remove_piece_def now_def Let_def bindE_eq_Inr i32_eq_Inr freed_def)
  then show thesis using that by (rule restore_piece_InrE)
qed

lemma remove_piece_total:
  assumes "wf X w" "acct X w" "handle_ok w" "j < length (buffers w)" "mb_is_used (buffers w ! j)"
  shows "\<exists>t. remove_piece X (int j) w = Inr ((freed j (nat (mb_pi (buffers w ! j))) w)\<lparr>torrent := t\<rparr>)"
proof -
  let ?p = "mb_pi (buffers w ! j)"
  have p: "0 \<le> ?p" "?p < piece_count w" "nat ?p < length (pieces w)"
    using wf_buffer_piece [OF assms(1,4,5)] wf_shape(4) [OF assms(1)] by linarith+
  have "i32 (buffer_used w - 1) = Inr (buffer_used w - 1)"
    using acct_bounds [OF assms(1,2)] by (intro i32_ok) (simp_all add: INT_MIN_def INT_MAX_def)
  then have "remove_piece X (int j) w = restore_piece X ?p (freed j (nat ?p) w)"
    using p assms(4) wf_shape(4) [OF assms(1)]
    by (simp add: remove_piece_def now_def freed_def Let_def)
  moreover have "handle_ok (freed j (nat ?p) w)" using assms(3) by (simp add: handle_ok_def)
  ultimately show ?thesis using restore_piece_total by metis
qed

section \<open>The updates keep the invariants\<close>

lemma wf_assigned:
  assumes "wf X w" "k < length (pieces w)" "j < length (buffers w)"
    and "mp_bi (pieces w ! k) = -1" "\<not> mb_is_used (buffers w ! j)"
  shows "wf X (assigned X k j w)"
proof -
  have pk: "piece_ok (piece_length w) (int k) (pieces w ! k)" using assms by (simp add: wf_piece)
  have bj: "buffer_ok (piece_length w) (int j) (buffers w ! j)" using assms by (simp add: wf_buffer)
  have free: "mb_pi (buffers w ! j) = -1" using bj assms(5) by (simp add: buffer_ok_def)
  have "shape_ok X (assigned X k j w)"
    using assms(1) by (simp add: wf_def shape_ok_def)
  moreover have "\<forall>i < length (pieces w). piece_ok (piece_length w) (int i)
      ((pieces w)[k := (pieces w ! k)\<lparr>mp_bi := int j\<rparr>] ! i)"
    using assms(1) pk by (intro all_nth_update [where P = "\<lambda>i. piece_ok (piece_length w) (int i)"])
      (auto simp: wf_def piece_ok_def)
  moreover have "\<forall>i < length (buffers w). buffer_ok (piece_length w) (int i)
      ((buffers w)[j := lent_buffer (int k) t (buffers w ! j)] ! i)" if "t \<noteq> None" for t
    using assms(1) bj that
    by (intro all_nth_update [where P = "\<lambda>i. buffer_ok (piece_length w) (int i)"])
      (auto simp: wf_def buffer_ok_def lent_buffer_def)
  moreover have "link_ok ((pieces w)[k := (pieces w ! k)\<lparr>mp_bi := int j\<rparr>])
      ((buffers w)[j := lent_buffer (int k) t (buffers w ! j)])" for t
    using wf_link [OF assms(1)] assms(2,3,4) free
    by (intro link_ok_pair) (simp_all add: lent_buffer_def)
  ultimately show ?thesis by (simp add: wf_def)
qed

lemma acct_assigned:
  assumes "acct X w" "k < length (pieces w)" "j < length (buffers w)" "\<not> mb_is_used (buffers w ! j)"
  shows "acct X (assigned X k j w)"
  using assms by (auto simp: acct_def count_if_update lent_def lent_buffer_def)

lemma wf_freed:
  assumes "wf X w" "j < length (buffers w)" "mb_is_used (buffers w ! j)"
    and "mb_pi (buffers w ! j) = int k"
  shows "wf X (freed j k w)"
proof -
  have p: "int k < piece_count w" "mp_bi (pieces w ! k) = int j"
    using wf_buffer_piece [OF assms(1-3)] assms(4) by auto
  have k: "k < length (pieces w)" using p wf_shape(4) [OF assms(1)] by linarith
  have pk: "piece_ok (piece_length w) (int k) (pieces w ! k)" using assms k by (simp add: wf_piece)
  have bj: "buffer_ok (piece_length w) (int j) (buffers w ! j)" using assms by (simp add: wf_buffer)
  have "shape_ok X (freed j k w)"
    using assms(1) by (simp add: wf_def shape_ok_def)
  moreover have "\<forall>i < length (pieces w). piece_ok (piece_length w) (int i)
      ((pieces w)[k := piece_reset (pieces w ! k)] ! i)"
    using assms(1) pk by (intro all_nth_update [where P = "\<lambda>i. piece_ok (piece_length w) (int i)"])
      (auto simp: wf_def piece_ok_def piece_reset_def)
  moreover have "\<forall>i < length (buffers w). buffer_ok (piece_length w) (int i)
      ((buffers w)[j := buffer_reset t (buffers w ! j)] ! i)" for t
    using assms(1) bj by (intro all_nth_update [where P = "\<lambda>i. buffer_ok (piece_length w) (int i)"])
      (auto simp: wf_def buffer_ok_def buffer_reset_def)
  moreover have "link_ok ((pieces w)[k := piece_reset (pieces w ! k)])
      ((buffers w)[j := buffer_reset t (buffers w ! j)])" for t
    using wf_link [OF assms(1)] assms(2,4) k p
    by (intro link_ok_unpair) (simp_all add: piece_reset_def buffer_reset_def)
  ultimately show ?thesis by (simp add: wf_def)
qed

lemma acct_freed:
  assumes "acct X w" "j < length (buffers w)" "mb_is_used (buffers w ! j)"
    and "\<not> bs_test X (reserved_pieces w) (nat (mb_pi (buffers w ! j)))"
  shows "acct X (freed j k w)"
  using assms by (auto simp: acct_def count_if_update lent_def buffer_reset_def)

section \<open>get_buffer under the invariant\<close>

text \<open>The search loop: either every buffer from \<open>i\<close> on is used, or the first free one is lent.\<close>

lemma get_buffer_loop_cases:
  assumes "wf X w" "0 \<le> i"
  shows "((\<forall>j < length (buffers w). i \<le> int j \<longrightarrow> mb_is_used (buffers w ! j)) \<and>
            get_buffer_loop X pz i w = Inr w) \<or>
         (\<exists>j < length (buffers w). \<not> mb_is_used (buffers w ! j) \<and>
            (\<forall>l < j. i \<le> int l \<longrightarrow> mb_is_used (buffers w ! l)) \<and>
            get_buffer_loop X pz i w = assign_buffer X pz (int j) w)"
  using assms
proof (induction X pz i w rule: get_buffer_loop.induct)
  case (1 X pz i w)
  have len: "int (length (buffers w)) = buffer_size w" using wf_shape(8) [OF "1.prems"(1)] .
  show ?case
  proof (cases "i < buffer_size w")
    case False
    then show ?thesis using len by (subst (1) get_buffer_loop.simps) auto
  next
    case i: True
    then have i': "nat i < length (buffers w)" using len "1.prems"(2) by linarith
    have at: "vec_at (buffers w) i = Inr (buffers w ! nat i)" using i len "1.prems"(2) by simp
    show ?thesis
    proof (cases "mb_is_used (buffers w ! nat i)")
      case False
      then have "get_buffer_loop X pz i w = assign_buffer X pz i w"
        using i at by (subst get_buffer_loop.simps) simp
      then show ?thesis using False i' "1.prems"(2) by (intro disjI2 exI [of _ "nat i"]) auto
    next
      case True
      have eq: "get_buffer_loop X pz i w = get_buffer_loop X pz (i + 1) w"
        using i at True by (subst get_buffer_loop.simps) simp
      have split: "i + 1 \<le> int l \<or> l = nat i" if "i \<le> int l" for l using that by linarith
      have "0 \<le> i + 1" using "1.prems"(2) by simp
      from "1.IH" [OF i at True "1.prems"(1) this]
      consider (all) "\<forall>j<length (buffers w). i + 1 \<le> int j \<longrightarrow> mb_is_used (buffers w ! j)"
          "get_buffer_loop X pz (i + 1) w = Inr w"
        | (found) j where "j < length (buffers w)" "\<not> mb_is_used (buffers w ! j)"
          "\<forall>l<j. i + 1 \<le> int l \<longrightarrow> mb_is_used (buffers w ! l)"
          "get_buffer_loop X pz (i + 1) w = assign_buffer X pz (int j) w" by blast
      then show ?thesis
      proof cases
        case all
        then have "\<forall>j<length (buffers w). i \<le> int j \<longrightarrow> mb_is_used (buffers w ! j)"
          using True split by metis
        then show ?thesis using all(2) eq by simp
      next
        case (found j)
        then have "\<forall>l<j. i \<le> int l \<longrightarrow> mb_is_used (buffers w ! l)" using True split by metis
        then show ?thesis using found(1,2,4) eq by (intro disjI2 exI [of _ j]) simp
      qed
    qed
  qed
qed

text \<open>The outcomes of \<open>get_buffer\<close> for a piece in range.\<close>

lemma get_buffer_loop_InrE:
  assumes "wf X w" "k < length (pieces w)" "get_buffer_loop X (int k) 0 w = Inr w1"
  obtains (none) "w1 = w"
  | (lent) j where "j < length (buffers w)" "\<not> mb_is_used (buffers w ! j)" "w1 = assigned X k j w"
  using get_buffer_loop_cases [OF assms(1), of 0 "int k"] assms(3) assign_buffer_InrD [OF assms(1,2)] by auto

lemma get_buffer_InrE [consumes 3, case_names buffered unbuffered refused lent]:
  assumes "wf X w" "k < length (pieces w)" "get_buffer X (int k) wr w = Inr (ok, w')"
  obtains (buffered) "is_buffered (pieces w ! k)" "ok" "w' = w"
  | (unbuffered) "\<not> is_buffered (pieces w ! k)" "\<not> ok" "w' = w"
  | (refused) t where "\<not> is_buffered (pieces w ! k)" "wr" "is_reading w" "\<not> ok" "w' = w\<lparr>torrent := t\<rparr>"
  | (lent) j where "\<not> is_buffered (pieces w ! k)" "wr" "ok" "j < length (buffers w)"
      "\<not> mb_is_used (buffers w ! j)" "w' = assigned X k j w"
proof (cases "is_buffered (pieces w ! k) \<or> \<not> wr")
  case True
  then have "ok = is_buffered (pieces w ! k) \<and> w' = w"
    using assms(2,3) by (auto simp: get_buffer_def split: if_splits)
  then show thesis using buffered unbuffered by blast
next
  case False
  then have nb: "\<not> is_buffered (pieces w ! k)" and wr: wr by auto
  from assms(2,3) nb wr obtain refuse where
    r: "(if is_reading w then bindE (is_readered X (mp_index (pieces w ! k)) w) (\<lambda>r. Inr (\<not> r))
         else Inr False) = Inr refuse"
    and rest: "(if refuse then bindE (restore_piece X (mp_index (pieces w ! k)) w) (\<lambda>w. Inr (False, w))
       else bindE (get_buffer_loop X (int k) 0 w) (\<lambda>w.
            bindE (vec_at (pieces w) (int k)) (\<lambda>p. Inr (is_buffered p, w)))) = Inr (ok, w')"
    by (auto simp: get_buffer_def bindE_eq_Inr)
  show thesis
  proof (cases refuse)
    case True
    with rest obtain "\<not> ok" "restore_piece X (mp_index (pieces w ! k)) w = Inr w'"
      by (auto simp: bindE_eq_Inr)
    moreover have "is_reading w" using r True by (auto split: if_splits)
    ultimately show thesis using nb wr refused by (metis restore_piece_InrE)
  next
    case False
    with rest obtain w1 where w1: "get_buffer_loop X (int k) 0 w = Inr w1"
      and ok: "bindE (vec_at (pieces w1) (int k)) (\<lambda>p. Inr (is_buffered p, w1)) = Inr (ok, w')"
      by (auto simp: bindE_eq_Inr)
    from assms(1,2) w1 show thesis
    proof (cases rule: get_buffer_loop_InrE)
      case none
      then have "\<not> ok \<and> w' = w" using ok nb assms(2) by auto
      then show thesis using nb by (intro unbuffered) auto
    next
      case (lent j)
      then have "ok \<and> w' = assigned X k j w" using ok assms(2) by (auto simp: is_buffered_def)
      then show thesis using nb wr lent(1,2) by (intro that(4)) auto
    qed
  qed
qed

lemma get_buffer_wf:
  assumes "wf X w" "k < length (pieces w)" "get_buffer X (int k) wr w = Inr (ok, w')"
  shows "wf X w' \<and> (acct X w \<longrightarrow> acct X w')"
  using assms
proof (cases rule: get_buffer_InrE)
  case (lent j)
  then show ?thesis
    using assms wf_assigned [of X w k j] acct_assigned [of X w k j] by (simp add: is_buffered_def)
qed (use assms in auto)

lemma get_buffer_True:
  assumes "wf X w" "k < length (pieces w)" "get_buffer X (int k) wr w = Inr (True, w')"
  shows "is_buffered (pieces w' ! k)"
  using assms
  by (cases rule: get_buffer_InrE) (use assms(2) in \<open>auto simp: is_buffered_def\<close>)

text \<open>With a spare buffer and a piece in demand, a write always gets its buffer.\<close>

lemma get_buffer_total:
  assumes "wf X w" "acct X w" "handle_ok w" "k < length (pieces w)"
  shows "\<exists>ok w'. get_buffer X (int k) wr w = Inr (ok, w')"
proof -
  note b = acct_bounds [OF assms(1,2)]
  have asg: "assign_buffer X (int k) (int j) w = Inr (assigned X k j w)" if "j < length (buffers w)" for j
    using that b assms(1,4) by (intro assign_buffer_eq [OF _ _ _ refl])
      (auto simp: INT_MAX_def INT_MIN_def)
  have "\<exists>w1. get_buffer_loop X (int k) 0 w = Inr w1 \<and> length (pieces w1) = length (pieces w)"
    using get_buffer_loop_cases [OF assms(1), of 0 "int k"] asg by auto
  then obtain w1 where w1: "get_buffer_loop X (int k) 0 w = Inr w1" "k < length (pieces w1)"
    using assms(4) by auto
  have "\<exists>r. is_readered X (mp_index (pieces w ! k)) w = Inr r"
    using assms(3) by (cases "m_handle w") (auto simp: is_readered_def handle_ok_def non_null_def)
  then obtain r where r: "is_readered X (mp_index (pieces w ! k)) w = Inr r" ..
  obtain t where t: "restore_piece X (mp_index (pieces w ! k)) w = Inr (w\<lparr>torrent := t\<rparr>)"
    using restore_piece_total [OF assms(3)] by blast
  show ?thesis
    using assms(4) w1 r t by (cases r; cases "is_reading w"; cases wr) (auto simp: get_buffer_def)
qed

end
