(* ===== verification/Eviction.thy ===== *)
theory Eviction
  imports Buffer_Pool "HOL-Library.While_Combinator"
begin

text \<open>
  Choosing a victim and trimming: \<open>find_last_buffer\<close> and \<open>trim\<close> (memory_storage.hpp). The
  search is shown equal to a scan for the least recently used eligible buffer; the loop of
  \<open>trim\<close> is kept as a loop (\<open>while_option\<close>, \<open>None\<close> when it never ends); theory Trim says
  when it stops.
\<close>

section \<open>find_last_buffer\<close>

text \<open>The condition of the search, with the short-circuit order of its conjuncts.\<close>

definition victim_test ::
  "('b, 't) ext \<Rightarrow> int \<Rightarrow> bool \<Rightarrow> memory_buffer \<Rightarrow> ptime \<Rightarrow> ('b, 't) world \<Rightarrow> ub + bool" where
  "victim_test X pi check_read b minTime w =
     (if \<not> (mb_is_used b \<and> is_assigned b) then Inr False
      else bindE (is_reserved X (mb_pi b) w) (\<lambda>reserved.
        if reserved \<or> mb_pi b = pi then Inr False
        else if \<not> check_read then Inr (ptime_less (mb_accessed b) minTime)
        else bindE (is_readered X (mb_pi b) w) (\<lambda>readered.
          Inr (\<not> readered \<and> ptime_less (mb_accessed b) minTime))))"

fun find_last_loop ::
  "('b, 't) ext \<Rightarrow> int \<Rightarrow> bool \<Rightarrow> ('b, 't) world \<Rightarrow> memory_buffer list \<Rightarrow> int \<Rightarrow> ptime \<Rightarrow> ub + int" where
  "find_last_loop X pi check_read w [] bi minTime = Inr bi"
| "find_last_loop X pi check_read w (b # bs) bi minTime =
     bindE (victim_test X pi check_read b minTime w) (\<lambda>c.
       if c then find_last_loop X pi check_read w bs (mb_index b) (mb_accessed b)
       else find_last_loop X pi check_read w bs bi minTime)"

definition find_last_buffer ::
  "('b, 't) ext \<Rightarrow> int \<Rightarrow> bool \<Rightarrow> ('b, 't) world \<Rightarrow> ub + int \<times> ('b, 't) world" where
  "find_last_buffer X pi check_read w =
     (let (minTime, w1) = now w in
      bindE (find_last_loop X pi check_read w1 (buffers w1) (-1) minTime) (\<lambda>bi. Inr (bi, w1)))"

section \<open>trim\<close>

text \<open>One turn of the loop; \<open>reader_pieces.empty()\<close> asks whether the bitset has no bits at all.\<close>

definition trim_step ::
  "('b, 't) ext \<Rightarrow> int \<Rightarrow> ('b, 't) world \<Rightarrow> ub + ('b, 't) world" where
  "trim_step X pi w =
     bindE (if bs_size X (reader_pieces w) \<noteq> 0 then find_last_buffer X pi True w
            else Inr (-1, w)) (\<lambda>(bi, w).
       if bi \<noteq> -1 then remove_piece X bi w
       else bindE (find_last_buffer X pi False w) (\<lambda>(bi, w).
         if bi \<noteq> -1 then remove_piece X bi w else Inr w))"

definition over_limit :: "ub + ('b, 't) world \<Rightarrow> bool" where
  "over_limit r = (case r of Inl e \<Rightarrow> False | Inr w \<Rightarrow> buffer_limit w \<le> buffer_used w)"

definition trim_loop ::
  "('b, 't) ext \<Rightarrow> int \<Rightarrow> ('b, 't) world \<Rightarrow> (ub + ('b, 't) world) option" where
  "trim_loop X pi w = while_option over_limit (\<lambda>r. bindE r (trim_step X pi)) (Inr w)"

definition trim ::
  "('b, 't) ext \<Rightarrow> int \<Rightarrow> ('b, 't) world \<Rightarrow> (ub + ('b, 't) world) option" where
  "trim X pi w =
     (if capacity w < 0 \<or> buffer_used w < buffer_limit w then Some (Inr w)
      else trim_loop X pi w)"

section \<open>The search is a least-recently-used scan\<close>

definition readered :: "('b, 't) ext \<Rightarrow> ('b, 't) world \<Rightarrow> int \<Rightarrow> bool" where
  "readered X w i \<longleftrightarrow> m_handle w = Null \<or> piece_priority X (torrent w) i \<noteq> 0"

definition eligible :: "('b, 't) ext \<Rightarrow> int \<Rightarrow> bool \<Rightarrow> ('b, 't) world \<Rightarrow> memory_buffer \<Rightarrow> bool" where
  "eligible X pi check_read w b \<longleftrightarrow>
     mb_is_used b \<and> \<not> bs_test X (reserved_pieces w) (nat (mb_pi b)) \<and> mb_pi b \<noteq> pi \<and>
     (check_read \<longrightarrow> \<not> readered X w (mb_pi b))"

definition stamp :: "memory_buffer \<Rightarrow> int" where
  "stamp b = the (mb_accessed b)"

text \<open>Position of the eligible buffer with the least time below \<open>t\<close>, the first one on a tie.\<close>

definition is_lru :: "(memory_buffer \<Rightarrow> bool) \<Rightarrow> memory_buffer list \<Rightarrow> int \<Rightarrow> nat \<Rightarrow> bool" where
  "is_lru E bs t j \<longleftrightarrow>
     j < length bs \<and> E (bs ! j) \<and> stamp (bs ! j) < t \<and>
     (\<forall>l < length bs. E (bs ! l) \<longrightarrow> stamp (bs ! j) \<le> stamp (bs ! l)) \<and>
     (\<forall>l < j. E (bs ! l) \<longrightarrow> stamp (bs ! j) < stamp (bs ! l))"

definition none_before :: "(memory_buffer \<Rightarrow> bool) \<Rightarrow> memory_buffer list \<Rightarrow> int \<Rightarrow> bool" where
  "none_before E bs t \<longleftrightarrow> (\<forall>b\<in>set bs. E b \<longrightarrow> t \<le> stamp b)"

fun min_scan :: "(memory_buffer \<Rightarrow> bool) \<Rightarrow> memory_buffer list \<Rightarrow> int \<Rightarrow> int \<Rightarrow> int" where
  "min_scan E [] bi t = bi"
| "min_scan E (b # bs) bi t =
     (if E b \<and> stamp b < t then min_scan E bs (mb_index b) (stamp b) else min_scan E bs bi t)"

lemma is_lru_Cons_0:
  assumes "E b" "stamp b < t" "none_before E bs (stamp b)"
  shows "is_lru E (b # bs) t 0"
  unfolding is_lru_def
proof (intro conjI allI impI)
  fix l assume "l < length (b # bs)" "E ((b # bs) ! l)"
  then show "stamp ((b # bs) ! 0) \<le> stamp ((b # bs) ! l)"
    using assms(3) by (cases l) (auto simp: none_before_def)
qed (use assms in auto)

lemma is_lru_Cons_Suc:
  assumes "is_lru E bs s j" "s \<le> t" "E b \<longrightarrow> s \<le> stamp b"
  shows "is_lru E (b # bs) t (Suc j)"
  unfolding is_lru_def
proof (intro conjI allI impI)
  fix l assume "l < length (b # bs)" "E ((b # bs) ! l)"
  then show "stamp ((b # bs) ! Suc j) \<le> stamp ((b # bs) ! l)"
    using assms by (cases l) (auto simp: is_lru_def)
next
  fix l assume "l < Suc j" "E ((b # bs) ! l)"
  then show "stamp ((b # bs) ! Suc j) < stamp ((b # bs) ! l)"
    using assms by (cases l) (auto simp: is_lru_def)
qed (use assms in \<open>auto simp: is_lru_def\<close>)

lemma min_scan_cases:
  "(min_scan E bs bi t = bi \<and> none_before E bs t) \<or>
   (\<exists>j. is_lru E bs t j \<and> min_scan E bs bi t = mb_index (bs ! j))"
proof (induction bs arbitrary: bi t)
  case Nil
  then show ?case by (simp add: none_before_def)
next
  case (Cons b bs)
  show ?case
  proof (cases "E b \<and> stamp b < t")
    case True
    with Cons.IH [of "mb_index b" "stamp b"] show ?thesis
      using is_lru_Cons_0 [of E b t bs] is_lru_Cons_Suc [of E bs "stamp b" _ t b] by fastforce
  next
    case False
    with Cons.IH [of bi t] show ?thesis
      using is_lru_Cons_Suc [of E bs t _ t b] by (fastforce simp: none_before_def)
  qed
qed

lemma is_readered_eq:
  "wf X w \<Longrightarrow> handle_ok w \<Longrightarrow> is_readered X i w = Inr (readered X w i)"
  using wf_shape(1) [of X w]
  by (cases "m_handle w") (auto simp: is_readered_def readered_def handle_ok_def non_null_def)

lemma is_reserved_eq:
  assumes "wf X w" "0 \<le> i" "i < piece_count w"
  shows "is_reserved X i w = Inr (bs_test X (reserved_pieces w) (nat i))"
  using wf_shape(1,10) [OF assms(1)] assms(2,3) by (simp add: is_reserved_def bit_test_def)

lemma victim_test_eq:
  assumes "wf X w" "handle_ok w" "b \<in> set (buffers w)"
  shows "victim_test X pi chk b (Some t) w = Inr (eligible X pi chk w b \<and> stamp b < t)"
proof -
  obtain j where j: "j < length (buffers w)" "b = buffers w ! j"
    using assms(3) by (auto simp: in_set_conv_nth)
  have bok: "buffer_ok (piece_length w) (int j) b" using wf_buffer [OF assms(1) j(1)] j(2) by simp
  show ?thesis
  proof (cases "mb_is_used b")
    case False
    then show ?thesis by (simp add: victim_test_def eligible_def)
  next
    case True
    then have "0 \<le> mb_pi b" "mb_pi b < piece_count w"
      using wf_buffer_piece [OF assms(1) j(1)] j(2) by auto
    moreover obtain s where "mb_accessed b = Some s" using bok True by (auto simp: buffer_ok_def)
    moreover have "is_assigned b" using bok True by (simp add: buffer_ok_def is_assigned_def)
    ultimately show ?thesis
      using True assms(1,2)
      by (auto simp: victim_test_def is_reserved_eq is_readered_eq eligible_def stamp_def ptime_less_def)
  qed
qed

lemma find_last_loop_eq:
  assumes "wf X w" "handle_ok w" "set bs \<subseteq> set (buffers w)"
  shows "find_last_loop X pi chk w bs bi (Some t) = Inr (min_scan (eligible X pi chk w) bs bi t)"
  using assms(3)
proof (induction bs arbitrary: bi t)
  case Nil
  then show ?case by simp
next
  case (Cons b bs)
  then have b: "b \<in> set (buffers w)" by simp
  have "mb_accessed b = Some (stamp b)" if "eligible X pi chk w b"
    using that b assms(1) by (auto simp: in_set_conv_nth eligible_def stamp_def
        dest!: wf_buffer [of X w] simp: buffer_ok_def)
  then show ?case
    using Cons victim_test_eq [OF assms(1,2) b] by auto
qed

lemma eligible_ticks [simp]: "eligible X pi chk (w\<lparr>ticks := n\<rparr>) = eligible X pi chk w"
  by (rule ext) (simp add: eligible_def readered_def)

lemma handle_ok_ticks [simp]:
  "handle_ok (w\<lparr>ticks := n\<rparr>) = handle_ok w" "handle_ok (w\<lparr>torrent := t\<rparr>) = handle_ok w"
  by (simp_all add: handle_ok_def)

text \<open>The result of the search: minus one when nothing eligible is older than the clock reading.\<close>

lemma find_last_buffer_cases [consumes 2, case_names none found]:
  fixes X :: "('b, 't) ext" and w :: "('b, 't) world" and pi :: int and chk :: bool
  assumes "wf X w" "handle_ok w"
  defines "w1 \<equiv> w\<lparr>ticks := Suc (ticks w)\<rparr>" and "E \<equiv> eligible X pi chk w" and "t \<equiv> clock w (ticks w)"
  obtains (none) "find_last_buffer X pi chk w = Inr (-1, w1)" "none_before E (buffers w) t"
  | (found) j where "find_last_buffer X pi chk w = Inr (int j, w1)" "is_lru E (buffers w) t j"
proof -
  have eq: "find_last_buffer X pi chk w = Inr (min_scan E (buffers w) (-1) t, w1)"
    using assms(1,2) find_last_loop_eq [of X w1 "buffers w" pi chk "-1" t]
    by (simp add: find_last_buffer_def now_def w1_def E_def t_def)
  have ix: "mb_index (buffers w ! j) = int j" if "is_lru E (buffers w) t j" for j
    using that wf_buffer [OF assms(1), of j] by (simp add: is_lru_def buffer_ok_def)
  from min_scan_cases [of E "buffers w" "-1" t] show thesis
    using eq ix none found by fastforce
qed

end
