(* ===== verification/Trim.thy ===== *)
theory Trim
  imports Eviction
begin

text \<open>
  What \<open>trim\<close> does and when it returns. A pair of locales describes loops that evict from a
  finite stock until an excess is gone; the model's loop is an instance. The effect of the
  loop is the relation \<open>evicted_from\<close>: pieces are either untouched or were given back.
\<close>

section \<open>Loops that evict from a stock\<close>

definition run_loop :: "('s \<Rightarrow> int) \<Rightarrow> ('s \<Rightarrow> ub + 's) \<Rightarrow> 's \<Rightarrow> (ub + 's) option" where
  "run_loop excess body s =
     while_option (\<lambda>r. case r of Inl e \<Rightarrow> False | Inr s \<Rightarrow> 0 \<le> excess s) (\<lambda>r. bindE r body) (Inr s)"

lemma run_loop_stop: "excess s < 0 \<Longrightarrow> run_loop excess body s = Some (Inr s)"
  by (simp add: run_loop_def while_option_unfold)

lemma run_loop_step: "0 \<le> excess s \<Longrightarrow> body s = Inr s' \<Longrightarrow> run_loop excess body s = run_loop excess body s'"
  by (simp add: run_loop_def while_option_unfold)

text \<open>Every turn either evicts one element of the stock or leaves both measures as they are.\<close>

locale draining_loop =
  fixes inv :: "'s \<Rightarrow> bool" and excess :: "'s \<Rightarrow> int" and stock :: "'s \<Rightarrow> int"
    and body :: "'s \<Rightarrow> ub + 's"
  assumes stock_nonneg: "inv s \<Longrightarrow> 0 \<le> stock s"
    and turn: "inv s \<Longrightarrow> 0 \<le> excess s \<Longrightarrow>
      \<exists>s'. body s = Inr s' \<and> inv s' \<and>
        ((excess s' = excess s - 1 \<and> stock s' = stock s - 1) \<or>
         (excess s' = excess s \<and> stock s' = stock s))"
begin

lemma diverges:
  assumes "inv s" "0 \<le> excess s" "stock s \<le> excess s"
  shows "run_loop excess body s = None"
proof (rule ccontr)
  let ?P = "\<lambda>r. \<exists>s. r = Inr s \<and> inv s \<and> stock s \<le> excess s"
  assume "run_loop excess body s \<noteq> None"
  then obtain r where r: "run_loop excess body s = Some r" by auto
  have "?P r"
  proof (rule while_option_rule [OF _ r [unfolded run_loop_def], where P = ?P])
    show "?P (Inr s)" using assms by simp
  next
    fix q :: "ub + 's"
    assume "?P q" and g: "case q of Inl e \<Rightarrow> False | Inr s \<Rightarrow> 0 \<le> excess s"
    then obtain s1 where s1: "q = Inr s1" "inv s1" "stock s1 \<le> excess s1" "0 \<le> excess s1" by auto
    from turn [OF s1(2,4)] s1(1,3) show "?P (bindE q body)" by auto
  qed
  then obtain s' where s': "r = Inr s'" "inv s'" "stock s' \<le> excess s'" by blast
  moreover have "0 \<le> excess s'" using stock_nonneg [OF s'(2)] s'(3) by simp
  ultimately show False using while_option_stop [OF r [unfolded run_loop_def]] by simp
qed

text \<open>No turn runs into undefined behaviour, so a loop that returns returns a state.\<close>

lemma returns_state:
  assumes "inv s" "run_loop excess body s = Some r"
  shows "\<exists>s'. r = Inr s' \<and> inv s' \<and> excess s' < 0"
proof -
  let ?P = "\<lambda>r. \<exists>s. r = Inr s \<and> inv s"
  have "?P r"
  proof (rule while_option_rule [OF _ assms(2) [unfolded run_loop_def], where P = ?P])
    show "?P (Inr s)" using assms by simp
  next
    fix q :: "ub + 's"
    assume "?P q" "case q of Inl e \<Rightarrow> False | Inr s \<Rightarrow> 0 \<le> excess s"
    then show "?P (bindE q body)" using turn by fastforce
  qed
  then show ?thesis using while_option_stop [OF assms(2) [unfolded run_loop_def]] by auto
qed

end

text \<open>
  If moreover a turn with something left to evict either evicts or brings the loop closer to a
  turn that does, the loop stops as soon as the stock exceeds the excess.
\<close>

locale progressing_loop = draining_loop +
  fixes live :: "'s \<Rightarrow> bool" and wait :: "'s \<Rightarrow> nat"
  assumes progress: "inv s \<Longrightarrow> live s \<Longrightarrow> 0 \<le> excess s \<Longrightarrow> 0 < stock s \<Longrightarrow> body s = Inr s' \<Longrightarrow>
      live s' \<and> (excess s' = excess s - 1 \<or> wait s' < wait s)"
begin

lemma terminates:
  assumes "inv s" "live s" "excess s < stock s"
  shows "\<exists>s'. run_loop excess body s = Some (Inr s') \<and> inv s' \<and> excess s' = min (excess s) (-1)"
  using assms
proof (induction "(nat (excess s + 1), wait s)" arbitrary: s
    rule: wf_induct_rule [OF wf_lex_prod [OF wf_less_than wf_less_than]])
  case (1 s)
  show ?case
  proof (cases "0 \<le> excess s")
    case False
    then show ?thesis using "1.prems" by (auto simp: run_loop_stop)
  next
    case True
    then obtain s' where s': "body s = Inr s'" "inv s'"
      and d: "(excess s' = excess s - 1 \<and> stock s' = stock s - 1) \<or>
              (excess s' = excess s \<and> stock s' = stock s)"
      using turn [OF "1.prems"(1)] by blast
    have p: "live s'" "excess s' = excess s - 1 \<or> wait s' < wait s"
      using progress [OF "1.prems"(1,2) True _ s'(1)] True "1.prems"(3) by auto
    have "((nat (excess s' + 1), wait s'), (nat (excess s + 1), wait s)) \<in> less_than <*lex*> less_than"
      using True d p(2) by auto
    moreover have "excess s' < stock s'" using d "1.prems"(3) by auto
    ultimately obtain s'' where "run_loop excess body s' = Some (Inr s'')" "inv s''" "excess s'' = min (excess s') (-1)"
      using "1.hyps" [OF _ s'(2) p(1)] by blast
    then show ?thesis using run_loop_step [of excess s body s'] True s'(1) d by auto
  qed
qed

end

section \<open>What one turn of trim does\<close>

definition trim_inv :: "('b, 't) ext \<Rightarrow> ('b, 't) world \<Rightarrow> bool" where
  "trim_inv X w \<longleftrightarrow> wf X w \<and> acct X w \<and> handle_ok w"

definition excess_used :: "('b, 't) world \<Rightarrow> int" where
  "excess_used w = buffer_used w - buffer_limit w"

definition evictable :: "('b, 't) ext \<Rightarrow> int \<Rightarrow> ('b, 't) world \<Rightarrow> int" where
  "evictable X pi w = count_if (eligible X pi False w) (buffers w)"

lemma eligible_weaken: "eligible X pi True w b \<Longrightarrow> eligible X pi False w b"
  by (simp add: eligible_def)

lemma none_before_mono: "none_before E bs t \<Longrightarrow> (\<And>b. F b \<Longrightarrow> E b) \<Longrightarrow> none_before F bs t"
  by (auto simp: none_before_def)

lemma remove_eligible:
  assumes "trim_inv X w" "is_lru (eligible X pi chk w) (buffers w) t j"
  shows "\<exists>k tr. mb_pi (buffers w ! j) = int k \<and>
    remove_piece X (int j) (w\<lparr>ticks := n\<rparr>) = Inr ((freed j k (w\<lparr>ticks := n\<rparr>))\<lparr>torrent := tr\<rparr>)"
proof -
  have j: "j < length (buffers w)" "mb_is_used (buffers w ! j)"
    using assms(2) by (auto simp: is_lru_def eligible_def)
  have w: "wf X w" "acct X w" "handle_ok w" using assms(1) by (auto simp: trim_inv_def)
  have "0 \<le> mb_pi (buffers w ! j)" using wf_buffer_piece [OF w(1) j] by auto
  moreover obtain tr where "remove_piece X (int j) (w\<lparr>ticks := n\<rparr>) =
      Inr ((freed j (nat (mb_pi (buffers w ! j))) (w\<lparr>ticks := n\<rparr>))\<lparr>torrent := tr\<rparr>)"
    using remove_piece_total [of X "w\<lparr>ticks := n\<rparr>" j] w j by auto
  ultimately show ?thesis by (metis int_nat_eq)
qed

text \<open>
  A turn evicts the least recently used piece that nobody reads, else the least recently used
  one, else it only reads the clock.
\<close>

lemma trim_step_cases:
  fixes X :: "('b, 't) ext" and w :: "('b, 't) world" and pi :: int
  assumes inv: "trim_inv X w"
  defines "W \<equiv> \<lambda>n. w\<lparr>ticks := ticks w + n\<rparr>"
  obtains
    (unread) j k tr where "is_lru (eligible X pi True w) (buffers w) (clock w (ticks w)) j"
      "mb_pi (buffers w ! j) = int k" "trim_step X pi w = Inr ((freed j k (W 1))\<lparr>torrent := tr\<rparr>)"
  | (lru) j k tr where "none_before (eligible X pi True w) (buffers w) (clock w (ticks w))"
      "is_lru (eligible X pi False w) (buffers w) (clock w (ticks w + 1)) j"
      "mb_pi (buffers w ! j) = int k" "trim_step X pi w = Inr ((freed j k (W 2))\<lparr>torrent := tr\<rparr>)"
  | (stall) "none_before (eligible X pi True w) (buffers w) (clock w (ticks w))"
      "none_before (eligible X pi False w) (buffers w) (clock w (ticks w + 1))"
      "trim_step X pi w = Inr (W 2)"
proof -
  have w: "wf X w" "handle_ok w" using inv by (auto simp: trim_inv_def)
  have sz: "bs_size X (reader_pieces w) \<noteq> 0" using wf_shape(2,9) [OF w(1)] by simp
  note rm = remove_eligible [OF inv]
  from w show thesis
  proof (cases rule: find_last_buffer_cases [where pi = pi and chk = True])
    case (found j)
    moreover obtain k tr where "mb_pi (buffers w ! j) = int k"
      "remove_piece X (int j) (W 1) = Inr ((freed j k (W 1))\<lparr>torrent := tr\<rparr>)"
      using rm [OF found(2)] unfolding W_def by blast
    ultimately show thesis using sz by (intro unread) (auto simp: trim_step_def W_def)
  next
    case none
    have w1: "wf X (W 1)" "handle_ok (W 1)" using w by (simp_all add: W_def)
    from w1 show thesis
    proof (cases rule: find_last_buffer_cases [where pi = pi and chk = False])
      case (found j)
      then have lru2: "is_lru (eligible X pi False w) (buffers w) (clock w (ticks w + 1)) j"
        by (simp add: W_def)
      moreover obtain k tr where "mb_pi (buffers w ! j) = int k"
        "remove_piece X (int j) (W 2) = Inr ((freed j k (W 2))\<lparr>torrent := tr\<rparr>)"
        using rm [OF lru2] unfolding W_def by blast
      ultimately show thesis using sz none found(1)
        by (intro lru) (auto simp: trim_step_def W_def numeral_2_eq_2)
    next
      case none2: none
      then show thesis using sz none
        by (intro stall) (auto simp: trim_step_def W_def numeral_2_eq_2)
    qed
  qed
qed

section \<open>The loop of trim as a draining and progressing loop\<close>

lemma eligible_same_reserved:
  "reserved_pieces v = reserved_pieces w \<Longrightarrow> eligible X pi False v = eligible X pi False w"
  by (rule ext) (simp add: eligible_def)

lemma trim_inv_freed:
  assumes "trim_inv X w" "is_lru (eligible X pi chk w) (buffers w) t j" "mb_pi (buffers w ! j) = int k"
  shows "trim_inv X ((freed j k (w\<lparr>ticks := n\<rparr>))\<lparr>torrent := tr\<rparr>)"
proof -
  have j: "j < length (buffers w)" "mb_is_used (buffers w ! j)"
    and r: "\<not> bs_test X (reserved_pieces w) (nat (mb_pi (buffers w ! j)))"
    using assms(2) by (auto simp: is_lru_def eligible_def)
  then show ?thesis
    using assms(1,3) wf_freed [of X "w\<lparr>ticks := n\<rparr>" j k] acct_freed [of X "w\<lparr>ticks := n\<rparr>" j k]
    by (simp add: trim_inv_def handle_ok_def)
qed

lemma evictable_freed:
  assumes "is_lru (eligible X pi chk w) (buffers w) t j"
  shows "evictable X pi ((freed j k (w\<lparr>ticks := n\<rparr>))\<lparr>torrent := tr\<rparr>) = evictable X pi w - 1"
proof -
  have "j < length (buffers w)" "eligible X pi False w (buffers w ! j)"
    using assms eligible_weaken by (cases chk; force simp: is_lru_def)+
  moreover have "eligible X pi False ((freed j k (w\<lparr>ticks := n\<rparr>))\<lparr>torrent := tr\<rparr>) = eligible X pi False w"
    by (rule eligible_same_reserved) simp
  moreover have "\<not> eligible X pi False w (buffer_reset x b)" for x b
    by (simp add: eligible_def buffer_reset_def)
  ultimately show ?thesis by (simp add: evictable_def count_if_update)
qed

lemma trim_turn:
  assumes "trim_inv X w"
  shows "\<exists>w'. trim_step X pi w = Inr w' \<and> trim_inv X w' \<and>
    ((excess_used w' = excess_used w - 1 \<and> evictable X pi w' = evictable X pi w - 1) \<or>
     (excess_used w' = excess_used w \<and> evictable X pi w' = evictable X pi w))"
  using assms
proof (cases rule: trim_step_cases [where pi = pi])
  case (unread j k tr)
  then show ?thesis
    using trim_inv_freed [OF assms unread(1,2)] evictable_freed [OF unread(1)]
    by (auto simp: excess_used_def)
next
  case (lru j k tr)
  then show ?thesis
    using trim_inv_freed [OF assms lru(2,3)] evictable_freed [OF lru(2)]
    by (auto simp: excess_used_def)
next
  case stall
  then show ?thesis
    using assms eligible_same_reserved [of "w\<lparr>ticks := ticks w + 2\<rparr>" w X pi]
    by (auto simp: trim_inv_def excess_used_def evictable_def)
qed

text \<open>From reading \<open>m\<close> on, the clock is past the last access of every buffer in use.\<close>

definition clock_past :: "nat \<Rightarrow> ('b, 't) world \<Rightarrow> bool" where
  "clock_past m w \<longleftrightarrow> (\<forall>b\<in>set (buffers w). mb_is_used b \<longrightarrow> (\<forall>n \<ge> m. stamp b < clock w n))"

lemma clock_past_freed:
  assumes "clock_past m w"
  shows "clock_past m ((freed j k (w\<lparr>ticks := n\<rparr>))\<lparr>torrent := tr\<rparr>)"
proof -
  have "b \<in> set (buffers w) \<or> \<not> mb_is_used b"
    if "b \<in> set ((buffers w)[j := buffer_reset t (buffers w ! j)])" for b t
    using that set_update_subset_insert [of "buffers w" j "buffer_reset t (buffers w ! j)"]
    by (auto simp: buffer_reset_def)
  then show ?thesis using assms by (fastforce simp: clock_past_def)
qed

lemma trim_progress:
  assumes inv: "trim_inv X w" and past: "clock_past m w" and stock: "0 < evictable X pi w"
    and step: "trim_step X pi w = Inr w'"
  shows "clock_past m w' \<and> (excess_used w' = excess_used w - 1 \<or> m - ticks w' < m - ticks w)"
  using inv
proof (cases rule: trim_step_cases [where pi = pi])
  case (unread j k tr)
  then show ?thesis using step clock_past_freed [OF past] by (simp add: excess_used_def)
next
  case (lru j k tr)
  then show ?thesis using step clock_past_freed [OF past] by (simp add: excess_used_def)
next
  case stall
  obtain b where b: "b \<in> set (buffers w)" "eligible X pi False w b"
    using stock by (auto simp: evictable_def count_if_pos)
  then have "clock w (ticks w + 1) \<le> stamp b" using stall(2) by (auto simp: none_before_def)
  moreover have "stamp b < clock w (ticks w + 1)" if "m \<le> ticks w + 1"
    using past b that unfolding clock_past_def eligible_def by blast
  ultimately have "ticks w + 1 < m" by linarith
  moreover have "clock_past m w'" using stall(3) step past by (simp add: clock_past_def)
  moreover have "m - (ticks w + 2) < m - ticks w" using \<open>ticks w + 1 < m\<close> by linarith
  ultimately show ?thesis using stall(3) step by simp
qed

interpretation trim_drain: draining_loop "trim_inv X" excess_used "evictable X pi" "trim_step X pi" for X pi
  by unfold_locales (simp add: evictable_def, rule trim_turn)

interpretation trim_run: progressing_loop "trim_inv X" excess_used "evictable X pi" "trim_step X pi"
    "clock_past m" "\<lambda>w. m - ticks w" for X pi m
  by unfold_locales (rule trim_progress)

lemma trim_loop_run:
  fixes w :: "('b, 't) world"
  shows "trim_loop X pi w = run_loop excess_used (trim_step X pi) w"
proof -
  have "(over_limit :: ub + ('b, 't) world \<Rightarrow> bool) = (\<lambda>r. case r of Inl e \<Rightarrow> False | Inr s \<Rightarrow> 0 \<le> excess_used s)"
    by (rule ext) (simp add: over_limit_def excess_used_def split: sum.split)
  then show ?thesis by (simp add: trim_loop_def run_loop_def)
qed

text \<open>How many pieces can be evicted: all ordinary ones in buffers but the current piece.\<close>

lemma evictable_count:
  assumes inv: "wf X w" "acct X w" and k: "k < length (pieces w)"
  shows "evictable X (int k) w = buffer_used w -
    (if is_buffered (pieces w ! k) \<and> \<not> bs_test X (reserved_pieces w) k then 1 else 0)"
proof -
  let ?R = "reserved_pieces w" and ?bs = "buffers w"
  let ?C = "\<lambda>b. mb_is_used b \<and> mb_pi b = int k \<and> \<not> bs_test X ?R k"
  have "lent X ?R False b = (eligible X (int k) False w b \<or> ?C b)" for b
    by (auto simp: lent_def eligible_def)
  then have "count_if (lent X ?R False) ?bs = count_if (\<lambda>b. eligible X (int k) False w b \<or> ?C b) ?bs"
    by (intro count_if_cong) blast
  also have "\<dots> = evictable X (int k) w + count_if ?C ?bs"
    unfolding evictable_def by (rule count_if_disj) (auto simp: eligible_def)
  finally have split: "buffer_used w = evictable X (int k) w + count_if ?C ?bs"
    using inv(2) by (simp add: acct_def)
  show ?thesis
  proof (cases "is_buffered (pieces w ! k) \<and> \<not> bs_test X ?R k")
    case True
    let ?j = "nat (mp_bi (pieces w ! k))"
    have pk: "is_buffered (pieces w ! nat (int k))" "0 \<le> int k" "int k < piece_count w"
      using True k wf_shape(4) [OF inv(1)] by auto
    note pb = wf_piece_buffer [OF inv(1) pk(2,3,1)]
    have j: "?j < length ?bs" "?C (?bs ! ?j)" using pb True by auto
    have uniq: "l = ?j" if "l < length ?bs" "?C (?bs ! l)" for l
      using wf_buffer_piece [OF inv(1) that(1)] that(2) by auto
    have "count_if ?C ?bs = 1" using count_if_unique [of ?j ?bs ?C] j uniq by blast
    then show ?thesis using True split by simp
  next
    case False
    have "count_if ?C ?bs = 0"
    proof (rule ccontr)
      assume "count_if ?C ?bs \<noteq> 0"
      then have "0 < count_if ?C ?bs" using count_if_nonneg [of ?C ?bs] by linarith
      then obtain b where "b \<in> set ?bs" "?C b" unfolding count_if_pos by blast
      then obtain l where l: "l < length ?bs" "?C (?bs ! l)" by (auto simp: in_set_conv_nth)
      then have "mp_bi (pieces w ! k) = int l" using wf_buffer_piece [OF inv(1) l(1)] by auto
      then show False using False l(2) by (simp add: is_buffered_def)
    qed
    then show ?thesis using False split by auto
  qed
qed

section \<open>The effect of trim\<close>

definition same_frame :: "('b, 't) world \<Rightarrow> ('b, 't) world \<Rightarrow> bool" where
  "same_frame w w' \<longleftrightarrow>
     reader_pieces w' = reader_pieces w \<and> reserved_pieces w' = reserved_pieces w \<and>
     capacity w' = capacity w \<and> piece_count w' = piece_count w \<and>
     piece_length w' = piece_length w \<and> length (pieces w') = length (pieces w) \<and>
     buffer_size w' = buffer_size w \<and> length (buffers w') = length (buffers w) \<and>
     m_handle w' = m_handle w \<and> m_t w' = m_t w \<and> is_logging w' = is_logging w \<and>
     is_initialized w' = is_initialized w \<and> clock w' = clock w"

definition evicted_from :: "('b, 't) ext \<Rightarrow> int \<Rightarrow> ('b, 't) world \<Rightarrow> ('b, 't) world \<Rightarrow> bool" where
  "evicted_from X pi w w' \<longleftrightarrow>
     same_frame w w' \<and> buffer_limit w' = buffer_limit w \<and> is_reading w' = is_reading w \<and>
     (\<forall>k < length (pieces w).
        (pieces w' ! k = pieces w ! k \<and>
         (is_buffered (pieces w ! k) \<longrightarrow>
            buffers w' ! nat (mp_bi (pieces w ! k)) = buffers w ! nat (mp_bi (pieces w ! k)))) \<or>
        (int k \<noteq> pi \<and> \<not> bs_test X (reserved_pieces w) k \<and> is_buffered (pieces w ! k) \<and>
         pieces w' ! k = piece_reset (pieces w ! k)))"

lemma evicted_from_refl: "evicted_from X pi w w"
  by (simp add: evicted_from_def same_frame_def)

lemma evicted_from_ticks: "evicted_from X pi w (w\<lparr>ticks := n\<rparr>)"
  by (simp add: evicted_from_def same_frame_def)

lemma piece_reset_buffered [simp]: "\<not> is_buffered (piece_reset p)"
  by (simp add: is_buffered_def piece_reset_def)

lemma evicted_from_trans:
  assumes a: "evicted_from X pi w v" and b: "evicted_from X pi v u"
  shows "evicted_from X pi w u"
proof -
  have "(pieces u ! k = pieces w ! k \<and>
         (is_buffered (pieces w ! k) \<longrightarrow>
            buffers u ! nat (mp_bi (pieces w ! k)) = buffers w ! nat (mp_bi (pieces w ! k)))) \<or>
        (int k \<noteq> pi \<and> \<not> bs_test X (reserved_pieces w) k \<and> is_buffered (pieces w ! k) \<and>
         pieces u ! k = piece_reset (pieces w ! k))" if k: "k < length (pieces w)" for k
  proof -
    have k': "k < length (pieces v)" and r: "reserved_pieces v = reserved_pieces w"
      using a k by (auto simp: evicted_from_def same_frame_def)
    from a k consider (same) "pieces v ! k = pieces w ! k"
        "is_buffered (pieces w ! k) \<longrightarrow>
          buffers v ! nat (mp_bi (pieces w ! k)) = buffers w ! nat (mp_bi (pieces w ! k))"
      | (gone) "int k \<noteq> pi" "\<not> bs_test X (reserved_pieces w) k" "is_buffered (pieces w ! k)"
        "pieces v ! k = piece_reset (pieces w ! k)"
      unfolding evicted_from_def by blast
    then show ?thesis
    proof cases
      case same
      then show ?thesis using b k' r unfolding evicted_from_def by auto
    next
      case gone
      then have "pieces u ! k = pieces v ! k" using b k' unfolding evicted_from_def by auto
      then show ?thesis using gone by simp
    qed
  qed
  then show ?thesis using a b by (simp add: evicted_from_def same_frame_def)
qed

lemma evicted_one:
  assumes wf: "wf X w" and j: "j < length (buffers w)" "mb_is_used (buffers w ! j)" "mb_pi (buffers w ! j) = int k"
    and r: "\<not> bs_test X (reserved_pieces w) k" "int k \<noteq> pi"
  shows "evicted_from X pi w ((freed j k (w\<lparr>ticks := n\<rparr>))\<lparr>torrent := tr\<rparr>)"
proof -
  have bi: "mp_bi (pieces w ! k) = int j" "k < length (pieces w)"
    using wf_buffer_piece [OF wf j(1,2)] j(3) wf_shape(4) [OF wf] by auto
  have "j \<noteq> nat (mp_bi (pieces w ! i))"
    if i: "i < length (pieces w)" "i \<noteq> k" "is_buffered (pieces w ! i)" for i
    using link_okD1 [OF wf_link [OF wf] i(1)] i(2,3) j(3) by (auto simp: is_buffered_def)
  then show ?thesis
    using r bi by (auto simp: evicted_from_def same_frame_def nth_list_update is_buffered_def)
qed

lemma evicted_from_freed:
  assumes "wf X w" "is_lru (eligible X pi chk w) (buffers w) t j" "mb_pi (buffers w ! j) = int k"
  shows "evicted_from X pi w ((freed j k (w\<lparr>ticks := n\<rparr>))\<lparr>torrent := tr\<rparr>)"
  using assms by (intro evicted_one) (auto simp: is_lru_def eligible_def)

lemma evicted_from_step:
  assumes "trim_inv X w" "trim_step X pi w = Inr w'"
  shows "evicted_from X pi w w'"
proof -
  have wf: "wf X w" using assms(1) by (simp add: trim_inv_def)
  from assms(1) show ?thesis
  proof (cases rule: trim_step_cases [where pi = pi])
    case (unread j k tr)
    then show ?thesis using assms(2) evicted_from_freed [OF wf unread(1,2)] by simp
  next
    case (lru j k tr)
    then show ?thesis using assms(2) evicted_from_freed [OF wf lru(2,3)] by simp
  next
    case stall
    then show ?thesis using assms(2) evicted_from_ticks [of X pi w] by simp
  qed
qed

lemma trim_loop_effect:
  fixes w :: "('b, 't) world"
  assumes "trim_inv X w" "trim_loop X pi w = Some (Inr w')"
  shows "evicted_from X pi w w'"
proof -
  let ?P = "\<lambda>r :: ub + ('b, 't) world. \<exists>v. r = Inr v \<and> trim_inv X v \<and> evicted_from X pi w v"
  have "?P (Inr w')"
  proof (rule while_option_rule [OF _ assms(2) [unfolded trim_loop_def], where P = ?P])
    show "?P (Inr w)" using assms(1) evicted_from_refl by blast
  next
    fix q :: "ub + ('b, 't) world"
    assume "?P q"
    then obtain v where v: "q = Inr v" "trim_inv X v" "evicted_from X pi w v" by blast
    obtain v' where v': "trim_step X pi v = Inr v'" "trim_inv X v'"
      using trim_turn [OF v(2)] by blast
    then show "?P (bindE q (trim_step X pi))"
      using v evicted_from_step [OF v(2) v'(1)] evicted_from_trans by fastforce
  qed
  then show ?thesis by blast
qed

text \<open>\<open>trim\<close> under the invariant, when it returns.\<close>

lemma trim_returns:
  assumes inv: "trim_inv X w" and ret: "trim X pi w = Some r"
  shows "\<exists>w'. r = Inr w' \<and> trim_inv X w' \<and> evicted_from X pi w w' \<and>
    (capacity w < 0 \<or> buffer_used w' < buffer_limit w')"
proof (cases "capacity w < 0 \<or> buffer_used w < buffer_limit w")
  case True
  then show ?thesis using assms evicted_from_refl [of X pi w] by (auto simp: trim_def)
next
  case False
  then have run: "trim_loop X pi w = Some r" using ret by (simp add: trim_def)
  then obtain w' where w': "r = Inr w'" "trim_inv X w'" "excess_used w' < 0"
    using trim_drain.returns_state [OF inv] trim_loop_run by metis
  moreover have "evicted_from X pi w w'" using trim_loop_effect [OF inv] run w'(1) by simp
  ultimately show ?thesis by (simp add: excess_used_def)
qed

lemma trim_terminates:
  assumes inv: "trim_inv X w" and past: "clock_past m w"
    and stock: "buffer_used w - buffer_limit w < evictable X pi w"
  shows "\<exists>w'. trim X pi w = Some (Inr w')"
proof (cases "capacity w < 0 \<or> buffer_used w < buffer_limit w")
  case True
  then show ?thesis by (auto simp: trim_def)
next
  case False
  then show ?thesis
    using trim_run.terminates [OF inv past] stock
    by (auto simp: trim_def trim_loop_run excess_used_def)
qed

text \<open>A trim that can succeed evicts no more than it must.\<close>

lemma trim_minimal:
  assumes inv: "trim_inv X w" and past: "clock_past m w" and cap: "0 \<le> capacity w"
    and stock: "buffer_used w < buffer_limit w \<or> buffer_used w - buffer_limit w < evictable X pi w"
  shows "\<exists>w'. trim X pi w = Some (Inr w') \<and> buffer_used w' = min (buffer_used w) (buffer_limit w - 1)"
proof (cases "buffer_used w < buffer_limit w")
  case True
  then show ?thesis by (auto simp: trim_def)
next
  case False
  then obtain w' where w': "trim X pi w = Some (Inr w')" "excess_used w' = min (excess_used w) (-1)"
    using trim_run.terminates [OF inv past] stock cap
    by (auto simp: trim_def trim_loop_run excess_used_def)
  then have "buffer_limit w' = buffer_limit w" using trim_returns [OF inv w'(1)] by (auto simp: evicted_from_def)
  then show ?thesis using w' False by (auto simp: excess_used_def)
qed

lemma trim_hangs:
  assumes inv: "trim_inv X w" and cap: "0 \<le> capacity w" "buffer_limit w \<le> buffer_used w"
    and stock: "evictable X pi w \<le> buffer_used w - buffer_limit w"
  shows "trim X pi w = None"
  using trim_drain.diverges [OF inv] cap stock
  by (auto simp: trim_def trim_loop_run excess_used_def)

end
