(* ===== verification/Storage_IO.thy ===== *)
theory Storage_IO
  imports Trim
begin

text \<open>
  Reading and writing pieces: \<open>read\<close>, \<open>readv\<close> and \<open>writev\<close> (memory_storage.hpp). A scatter
  or gather array \<open>bufs, num_bufs\<close> is a list of \<open>iovec_t\<close>; each entry carries the memory it
  points to and the length it claims.
\<close>

record iovec_t =
  iov_base :: "byte list"
  iov_len :: size_t

definition iov_ok :: "iovec_t \<Rightarrow> bool" where
  "iov_ok v \<longleftrightarrow> uint (iov_len v) = int (length (iov_base v))"

section \<open>Shared steps\<close>

text \<open>The buffer that holds a piece: \<open>buffers[pieces[piece].bi]\<close>.\<close>

definition piece_buffer :: "int \<Rightarrow> ('b, 't) world \<Rightarrow> ub + memory_buffer" where
  "piece_buffer piece w = bindE (vec_at (pieces w) piece) (\<lambda>p. vec_at (buffers w) (mp_bi p))"

text \<open>\<open>buffers[pieces[piece].bi].accessed = now()\<close>\<close>

definition touch :: "int \<Rightarrow> ('b, 't) world \<Rightarrow> ub + ('b, 't) world" where
  "touch piece w =
     (let (t, w1) = now w in
      bindE (vec_at (pieces w1) piece) (\<lambda>p.
      bindE (vec_upd (buffers w1) (mp_bi p) (\<lambda>b. b\<lparr>mb_accessed := t\<rparr>)) (\<lambda>bs.
        Inr (w1\<lparr>buffers := bs\<rparr>))))"

text \<open>The mark a read leaves on a completed piece when it reaches the end of what was written.\<close>

definition mark_read :: "int \<Rightarrow> int \<Rightarrow> ('b, 't) world \<Rightarrow> ub + ('b, 't) world" where
  "mark_read piece upto_off w =
     bindE (vec_at (pieces w) piece) (\<lambda>p.
       if mp_is_completed p \<and> upto_off \<ge> mp_size p
       then bindE (vec_upd (pieces w) piece (\<lambda>p. p\<lparr>mp_is_read := True\<rparr>)) (\<lambda>ps.
         Inr (w\<lparr>pieces := ps\<rparr>))
       else Inr w)"

text \<open>The logging branches print \<open>bufs[0].iov_len\<close>.\<close>

definition log_first_iov :: "iovec_t list \<Rightarrow> ('b, 't) world \<Rightarrow> ub + unit" where
  "log_first_iov bufs w =
     (if is_logging w then bindE (vec_at bufs 0) (\<lambda>_. Inr ()) else Inr ())"

section \<open>read\<close>

definition read ::
  "('b, 't) ext \<Rightarrow> byte list \<Rightarrow> int \<Rightarrow> int \<Rightarrow> int \<Rightarrow> ('b, 't) world
    \<Rightarrow> ub + int \<times> byte list \<times> ('b, 't) world" where
  "read X read_buf sz piece offset w =
     (if \<not> is_initialized w then Inr (0, read_buf, w)
      else let w = w\<lparr>is_reading := True\<rparr> in
      bindE (get_read_buffer X piece w) (\<lambda>(ok, w).
      if \<not> ok then bindE (restore_piece X piece w) (\<lambda>w. Inr (-1, read_buf, w))
      else bindE (vec_at (pieces w) piece) (\<lambda>p.
      if mp_size p < mp_length p then bindE (restore_piece X piece w) (\<lambda>w. Inr (-1, read_buf, w))
      else bindE (piece_buffer piece w) (\<lambda>b.
      let available = to_int32 (of_nat (length (mb_buffer b)) - to_size_t offset) in
      if available \<le> 0 then Inr (0, read_buf, w)
      else let available = (if available > sz then sz else available) in
      bindE (mem_load (mb_buffer b) offset available) (\<lambda>bytes.
      bindE (mem_store read_buf 0 bytes) (\<lambda>read_buf.
      bindE (mark_read piece (offset + available) w) (\<lambda>w.
      bindE (touch piece w) (\<lambda>w.
        Inr (sz, read_buf, w)))))))))"

section \<open>readv\<close>

text \<open>
  The copy loop: it yields the bytes copied in all and the destination entries after it.
\<close>

fun readv_loop :: "byte list \<Rightarrow> iovec_t list \<Rightarrow> int \<Rightarrow> int \<Rightarrow> ub + int \<times> iovec_t list" where
  "readv_loop data [] file_offset n = Inr (n, [])"
| "readv_loop data (v # vs) file_offset n =
     (let to_copy = to_int32 (min (of_nat (length data) - to_size_t file_offset) (iov_len v)) in
      bindE (mem_load data file_offset to_copy) (\<lambda>bytes.
      bindE (mem_store (iov_base v) 0 bytes) (\<lambda>base.
      bindE (i32 (file_offset + to_copy)) (\<lambda>file_offset.
      bindE (i32 (n + to_copy)) (\<lambda>n.
      bindE (readv_loop data vs file_offset n) (\<lambda>(n, rest).
        Inr (n, v\<lparr>iov_base := base\<rparr> # rest)))))))"

definition readv ::
  "('b, 't) ext \<Rightarrow> iovec_t list \<Rightarrow> int \<Rightarrow> int \<Rightarrow> ('b, 't) world
    \<Rightarrow> ub + int \<times> iovec_t list \<times> ('b, 't) world" where
  "readv X bufs piece offset w =
     (if \<not> is_initialized w then Inr (0, bufs, w)
      else bindE (get_read_buffer X piece w) (\<lambda>(ok, w).
      if \<not> ok then Inr (0, bufs, w)
      else bindE (piece_buffer piece w) (\<lambda>b.
      bindE (readv_loop (mb_buffer b) bufs offset 0) (\<lambda>(n, bufs').
      bindE (log_first_iov bufs w) (\<lambda>_.
      bindE (i32 (offset + n)) (\<lambda>e.
      bindE (mark_read piece e w) (\<lambda>w.
      bindE (touch piece w) (\<lambda>w.
        Inr (n, bufs', w)))))))))"

section \<open>writev\<close>

fun writev_loop ::
  "int \<Rightarrow> iovec_t list \<Rightarrow> int \<Rightarrow> int \<Rightarrow> byte list \<Rightarrow> ub + int \<times> byte list" where
  "writev_loop len [] file_offset n data = Inr (n, data)"
| "writev_loop len (v # vs) file_offset n data =
     (let to_copy = to_int32 (min (to_size_t len - to_size_t file_offset) (iov_len v)) in
      bindE (mem_load (iov_base v) 0 to_copy) (\<lambda>bytes.
      bindE (mem_store data file_offset bytes) (\<lambda>data.
      bindE (i32 (file_offset + to_copy)) (\<lambda>file_offset.
      bindE (i32 (n + to_copy)) (\<lambda>n.
        writev_loop len vs file_offset n data)))))"

text \<open>Everything up to the trim: the bytes are in the buffer and the piece has grown.\<close>

definition writev_store ::
  "('b, 't) ext \<Rightarrow> iovec_t list \<Rightarrow> int \<Rightarrow> int \<Rightarrow> ('b, 't) world \<Rightarrow> ub + int \<times> ('b, 't) world" where
  "writev_store X bufs piece offset w =
     bindE (vec_at (pieces w) piece) (\<lambda>p.
     bindE (vec_at (buffers w) (mp_bi p)) (\<lambda>b.
     bindE (writev_loop (mp_length p) bufs offset 0 (mb_buffer b)) (\<lambda>(n, data).
     bindE (vec_upd (buffers w) (mp_bi p) (\<lambda>b. b\<lparr>mb_buffer := data\<rparr>)) (\<lambda>bs.
     let w = w\<lparr>buffers := bs\<rparr> in
     bindE (log_first_iov bufs w) (\<lambda>_.
     bindE (i32 (mp_size p + n)) (\<lambda>sz.
     bindE (vec_upd (pieces w) piece (\<lambda>p. p\<lparr>mp_size := sz\<rparr>)) (\<lambda>ps.
     bindE (touch piece (w\<lparr>pieces := ps\<rparr>)) (\<lambda>w.
       Inr (n, w)))))))))"

definition writev ::
  "('b, 't) ext \<Rightarrow> iovec_t list \<Rightarrow> int \<Rightarrow> int \<Rightarrow> ('b, 't) world
    \<Rightarrow> (ub + int \<times> ('b, 't) world) option" where
  "writev X bufs piece offset w =
     (if \<not> is_initialized w then Some (Inr (0, w))
      else case get_write_buffer X piece w of
        Inl e \<Rightarrow> Some (Inl e)
      | Inr (False, w) \<Rightarrow> Some (Inr (0, w))
      | Inr (True, w) \<Rightarrow>
          (case writev_store X bufs piece offset w of
             Inl e \<Rightarrow> Some (Inl e)
           | Inr (n, w) \<Rightarrow>
               if buffer_limit w \<le> buffer_used w
               then map_option (\<lambda>r. bindE r (\<lambda>w. Inr (n, w))) (trim X piece w)
               else Some (Inr (n, w))))"

section \<open>The copy loops\<close>

definition gathered :: "iovec_t list \<Rightarrow> byte list" where
  "gathered vs = concat (map iov_base vs)"

text \<open>
  Within the piece, the write loop stores the gathered bytes at the offset, cut off at the end
  of the piece.
\<close>

lemma writev_loop_eq:
  assumes "list_all iov_ok vs" "0 \<le> fo" "fo \<le> len" "len \<le> int (length data)" "len \<le> INT_MAX"
    and "0 \<le> n" "n + (len - fo) \<le> INT_MAX"
  shows "writev_loop len vs fo n data =
    (let bs = take (nat (len - fo)) (gathered vs)
     in Inr (n + int (length bs), patch data (nat fo) bs))"
  using assms
proof (induction vs arbitrary: fo n data)
  case Nil
  then show ?case by (simp add: gathered_def Let_def)
next
  case (Cons v vs)
  define k where "k = min (len - fo) (int (length (iov_base v)))"
  define b where "b = take (nat k) (iov_base v)"
  have v: "uint (iov_len v) = int (length (iov_base v))" using Cons.prems(1) by (simp add: iov_ok_def)
  have cp: "to_int32 (min (to_size_t len - to_size_t fo) (iov_len v)) = k"
    using Cons.prems to_copy_min [of fo len "iov_len v"] v by (simp add: k_def)
  have k: "0 \<le> k" "k \<le> len - fo" "k \<le> int (length (iov_base v))" "length b = nat k"
    using Cons.prems(3) by (auto simp: k_def b_def)
  have b: "mem_load (iov_base v) 0 k = Inr b" using k by (simp add: mem_load_def b_def)
  have st: "mem_store data fo b = Inr (patch data (nat fo) b)"
    using k Cons.prems(2,4) by (simp add: mem_store_def)
  have i: "i32 (fo + k) = Inr (fo + k)" "i32 (n + k) = Inr (n + k)"
    using k Cons.prems(2,5,6,7) by (intro i32_nonneg; linarith)+
  have step: "writev_loop len (v # vs) fo n data =
      writev_loop len vs (fo + k) (n + k) (patch data (nat fo) b)"
    by (simp add: cp b st i)
  let ?bs = "take (nat (len - (fo + k))) (gathered vs)"
  have len': "nat fo + length b + length ?bs \<le> length data"
    using Cons.prems(2,4) k by auto
  have IH: "writev_loop len vs (fo + k) (n + k) (patch data (nat fo) b) =
      Inr (n + k + int (length ?bs), patch (patch data (nat fo) b) (nat (fo + k)) ?bs)"
    using Cons.IH [of "fo + k" "patch data (nat fo) b" "n + k"] Cons.prems k len'
    by (simp add: Let_def)
  have "nat (fo + k) = nat fo + length b" using k(1,4) Cons.prems(2) by (simp add: nat_add_distrib)
  then have "patch (patch data (nat fo) b) (nat (fo + k)) ?bs = patch data (nat fo) (b @ ?bs)"
    using patch_patch [OF len'] by simp
  moreover have "b @ ?bs = take (nat (len - fo)) (gathered (v # vs))"
  proof (cases "len - fo \<le> int (length (iov_base v))")
    case True
    then have "k = len - fo" by (simp add: k_def)
    then show ?thesis using True by (simp add: b_def gathered_def nat_le_iff)
  next
    case False
    then have k': "k = int (length (iov_base v))" by (simp add: k_def)
    then have "nat (len - (fo + k)) = nat (len - fo) - length (iov_base v)" using False by linarith
    moreover have "length (iov_base v) \<le> nat (len - fo)" using False by linarith
    ultimately show ?thesis using k' by (simp add: b_def gathered_def)
  qed
  moreover have "n + k + int (length ?bs) = n + int (length (b @ ?bs))" using k by simp
  ultimately show ?case using IH unfolding step Let_def by metis
qed

text \<open>Whatever the offset, a write loop that returns keeps the size of the buffer.\<close>

lemma writev_loop_InrD:
  "writev_loop len vs fo n data = Inr (n', data') \<Longrightarrow> length data' = length data \<and> n \<le> n'"
proof (induction vs arbitrary: fo n data)
  case Nil
  then show ?case by simp
next
  case (Cons v vs)
  let ?k = "to_int32 (min (to_size_t len - to_size_t fo) (iov_len v))"
  let ?bs = "take (nat ?k) (iov_base v)"
  have k: "0 \<le> ?k" and b: "0 \<le> fo" "fo + int (length ?bs) \<le> int (length data)"
    and r: "writev_loop len vs (fo + ?k) (n + ?k) (patch data (nat fo) ?bs) = Inr (n', data')"
    using Cons.prems
    by (auto simp: Let_def bindE_eq_Inr mem_load_eq_Inr mem_store_eq_Inr i32_eq_Inr)
  have "nat fo + length ?bs \<le> length data" using b by linarith
  with Cons.IH [OF r] k show ?case by simp
qed

text \<open>
  The read loop fills the destination entries, in order, with the bytes from the offset on,
  until the buffer ends.
\<close>

lemma gathered_simps [simp]:
  "gathered [] = []" "gathered (v # vs) = iov_base v @ gathered vs"
  by (simp_all add: gathered_def)

text \<open>What one entry takes and what the rest of the entries take, put together.\<close>

lemma scatter_entry:
  fixes data :: "byte list" and v :: iovec_t and vs :: "iovec_t list" and fo :: int
  assumes "0 \<le> fo" "fo \<le> int (length data)"
  defines "k \<equiv> min (int (length data) - fo) (int (length (iov_base v)))"
  defines "b \<equiv> take (nat k) (drop (nat fo) data)"
    and "rest \<equiv> take (length (gathered vs)) (drop (nat (fo + k)) data)"
  shows "take (length (gathered (v # vs))) (drop (nat fo) data) = b @ rest"
    and "patch (iov_base v) 0 b @ patch (gathered vs) 0 rest = patch (gathered (v # vs)) 0 (b @ rest)"
proof -
  have k: "0 \<le> k" "k \<le> int (length data) - fo" "k \<le> int (length (iov_base v))"
    using assms(2) by (auto simp: k_def)
  have lb: "length b = nat k" using k assms(1) by (simp add: b_def; linarith)
  consider (last) "nat (fo + k) = length data" "int (length data) - fo \<le> int (length (iov_base v))"
    | (full) "nat k = length (iov_base v)"
    using assms(1) by (cases "int (length data) - fo \<le> int (length (iov_base v))") (auto simp: k_def)
  note cases = this
  have nat: "nat (fo + k) = nat fo + nat k" using k assms(1) by (simp add: nat_add_distrib)
  from cases show "take (length (gathered (v # vs))) (drop (nat fo) data) = b @ rest"
  proof cases
    case last
    then show ?thesis using assms(1) by (simp add: b_def rest_def k_def nat_le_iff; linarith)
  next
    case full
    then show ?thesis by (simp add: b_def rest_def nat take_add add.commute [of "nat fo"])
  qed
  from cases show "patch (iov_base v) 0 b @ patch (gathered vs) 0 rest = patch (gathered (v # vs)) 0 (b @ rest)"
  proof cases
    case last
    then show ?thesis using k lb by (simp add: patch_def rest_def; linarith)
  next
    case full
    then show ?thesis using lb by (simp add: patch_def)
  qed
qed

lemma readv_loop_eq:
  assumes "list_all iov_ok vs" "0 \<le> fo" "fo \<le> int (length data)" "int (length data) \<le> INT_MAX"
    and "0 \<le> n" "n + (int (length data) - fo) \<le> INT_MAX"
  defines "bs \<equiv> take (length (gathered vs)) (drop (nat fo) data)"
  shows "\<exists>vs'. readv_loop data vs fo n = Inr (n + int (length bs), vs') \<and>
    list_all iov_ok vs' \<and> map iov_len vs' = map iov_len vs \<and>
    gathered vs' = patch (gathered vs) 0 bs"
  using assms(1-6) unfolding bs_def
proof (induction vs arbitrary: fo n)
  case Nil
  then show ?case by (simp add: gathered_def)
next
  case (Cons v vs)
  define k where "k = min (int (length data) - fo) (int (length (iov_base v)))"
  define b where "b = take (nat k) (drop (nat fo) data)"
  let ?base = "patch (iov_base v) 0 b"
  let ?bs = "take (length (gathered vs)) (drop (nat (fo + k)) data)"
  have v: "uint (iov_len v) = int (length (iov_base v))" using Cons.prems(1) by (simp add: iov_ok_def)
  have "(of_nat (length data) :: size_t) = to_size_t (int (length data))" by (simp add: to_size_t_def)
  then have cp: "to_int32 (min (of_nat (length data) - to_size_t fo) (iov_len v)) = k"
    using Cons.prems to_copy_min [of fo "int (length data)" "iov_len v"] v by (simp add: k_def)
  have k: "0 \<le> k" "k \<le> int (length data) - fo" "k \<le> int (length (iov_base v))"
    using Cons.prems(3) by (auto simp: k_def)
  then have lb: "length b = nat k" using Cons.prems(2) by (simp add: b_def; linarith)
  have ld: "mem_load data fo k = Inr b" using k Cons.prems(2) by (simp add: mem_load_def b_def)
  have st: "mem_store (iov_base v) 0 b = Inr ?base" using k lb by (simp add: mem_store_def)
  have i: "i32 (fo + k) = Inr (fo + k)" "i32 (n + k) = Inr (n + k)"
    using k Cons.prems(2,4,5,6) by (intro i32_nonneg; linarith)+
  have "list_all iov_ok vs" using Cons.prems(1) by simp
  then obtain vs' where vs': "readv_loop data vs (fo + k) (n + k) = Inr (n + k + int (length ?bs), vs')"
    "list_all iov_ok vs'" "map iov_len vs' = map iov_len vs" "gathered vs' = patch (gathered vs) 0 ?bs"
    using Cons.IH [of "fo + k" "n + k"] Cons.prems k by auto
  have step: "readv_loop data (v # vs) fo n =
      Inr (n + k + int (length ?bs), v\<lparr>iov_base := ?base\<rparr> # vs')"
    by (simp add: cp ld st i vs'(1))
  have ok: "iov_ok (v\<lparr>iov_base := ?base\<rparr>)" using v k lb by (simp add: iov_ok_def)
  have d: "take (length (gathered (v # vs))) (drop (nat fo) data) = b @ ?bs"
    and g: "?base @ patch (gathered vs) 0 ?bs = patch (gathered (v # vs)) 0 (b @ ?bs)"
    using scatter_entry [of fo data v vs] Cons.prems(2,3) by (simp_all add: b_def k_def)
  have "n + k + int (length ?bs) = n + int (length (b @ ?bs))" using k lb by simp
  then show ?case
    using step ok vs' g unfolding d by simp
qed

lemma readv_loop_InrD: "readv_loop data vs fo n = Inr (n', vs') \<Longrightarrow> n \<le> n'"
proof (induction vs arbitrary: fo n n' vs')
  case Nil
  then show ?case by simp
next
  case (Cons v vs)
  from Cons.prems obtain k vs'' where k: "0 \<le> k"
    and r: "readv_loop data vs (fo + k) (n + k) = Inr (n', vs'')"
    by (auto simp: Let_def bindE_eq_Inr mem_load_eq_Inr mem_store_eq_Inr i32_eq_Inr)
  from Cons.IH [OF r] k show ?case by simp
qed

section \<open>Updates of one piece or one buffer\<close>

lemma wf_upd_piece:
  assumes "wf X w" "piece_ok (piece_length w) (int k) p'" "mp_bi p' = mp_bi (pieces w ! k)"
  shows "wf X (w\<lparr>pieces := (pieces w)[k := p']\<rparr>)"
proof -
  have "\<forall>i < length (pieces w). piece_ok (piece_length w) (int i) ((pieces w)[k := p'] ! i)"
    using assms by (intro all_nth_update [where P = "\<lambda>i. piece_ok (piece_length w) (int i)"])
      (auto simp: wf_def)
  then show ?thesis
    using assms link_ok_keep_piece [OF wf_link [OF assms(1)] assms(3)]
    by (simp add: wf_def shape_ok_def)
qed

lemma wf_upd_buffer:
  assumes "wf X w" "buffer_ok (piece_length w) (int j) b'" "mb_pi b' = mb_pi (buffers w ! j)"
  shows "wf X (w\<lparr>buffers := (buffers w)[j := b']\<rparr>)"
proof -
  have "\<forall>i < length (buffers w). buffer_ok (piece_length w) (int i) ((buffers w)[j := b'] ! i)"
    using assms by (intro all_nth_update [where P = "\<lambda>i. buffer_ok (piece_length w) (int i)"])
      (auto simp: wf_def)
  then show ?thesis
    using assms link_ok_keep_buffer [OF wf_link [OF assms(1)] assms(3)]
    by (simp add: wf_def shape_ok_def)
qed

lemma acct_upd_buffer:
  assumes "acct X w" "mb_pi b' = mb_pi (buffers w ! j)" "mb_is_used b' = mb_is_used (buffers w ! j)"
  shows "acct X (w\<lparr>buffers := (buffers w)[j := b']\<rparr>)"
proof (cases "j < length (buffers w)")
  case True
  then show ?thesis using assms by (simp add: acct_def count_if_update lent_def)
next
  case False
  then show ?thesis using assms by (simp add: list_update_beyond)
qed

end
