(* ===== verification/IO_Facts.thy ===== *)
theory IO_Facts
  imports Storage_IO
begin

text \<open>
  The behaviour of \<open>read\<close>, \<open>readv\<close> and \<open>writev\<close> under the invariant: closed forms of their
  result states, preservation of the invariants, and the data a write leaves in the cache.
\<close>

section \<open>Closed forms\<close>

definition piece_data :: "('b, 't) world \<Rightarrow> nat \<Rightarrow> byte list" where
  "piece_data w k = mb_buffer (buffers w ! nat (mp_bi (pieces w ! k)))"

definition touched :: "nat \<Rightarrow> ('b, 't) world \<Rightarrow> ('b, 't) world" where
  "touched k w =
     (let j = nat (mp_bi (pieces w ! k)) in
      w\<lparr>ticks := Suc (ticks w),
        buffers := (buffers w)[j := (buffers w ! j)\<lparr>mb_accessed := Some (clock w (ticks w))\<rparr>]\<rparr>)"

text \<open>The state after \<open>writev\<close> put the bytes \<open>bs\<close> at offset \<open>off\<close> of piece \<open>k\<close>.\<close>

definition stored :: "nat \<Rightarrow> nat \<Rightarrow> byte list \<Rightarrow> ('b, 't) world \<Rightarrow> ('b, 't) world" where
  "stored k off bs w =
     (let j = nat (mp_bi (pieces w ! k)); p = pieces w ! k in
      touched k (w\<lparr>buffers := (buffers w)[j := (buffers w ! j)\<lparr>mb_buffer := patch (piece_data w k) off bs\<rparr>],
                   pieces := (pieces w)[k := p\<lparr>mp_size := mp_size p + int (length bs)\<rparr>]\<rparr>))"

lemma buffered_index:
  assumes "wf X w" "k < length (pieces w)" "is_buffered (pieces w ! k)"
  obtains j where "mp_bi (pieces w ! k) = int j" "j < length (buffers w)"
    "mb_pi (buffers w ! j) = int k" "mb_is_used (buffers w ! j)"
    "buffer_ok (piece_length w) (int j) (buffers w ! j)" "piece_data w k = mb_buffer (buffers w ! j)"
proof -
  have "int k < piece_count w" using assms(2) wf_shape(4) [OF assms(1)] by simp
  then have b: "0 \<le> mp_bi (pieces w ! k)" "mp_bi (pieces w ! k) < int (length (buffers w))"
    "mb_pi (buffers w ! nat (mp_bi (pieces w ! k))) = int k" "mb_is_used (buffers w ! nat (mp_bi (pieces w ! k)))"
    using wf_piece_buffer [OF assms(1), of "int k"] assms(3) by auto
  then show thesis
    using wf_buffer [OF assms(1), of "nat (mp_bi (pieces w ! k))"]
    by (intro that [of "nat (mp_bi (pieces w ! k))"]) (auto simp: piece_data_def)
qed

lemma length_piece_data:
  assumes "wf X w" "k < length (pieces w)" "is_buffered (pieces w ! k)"
  shows "int (length (piece_data w k)) = piece_length w"
  using buffered_index [OF assms] by (metis buffer_ok_def)

lemma piece_buffer_eq:
  assumes "wf X w" "k < length (pieces w)" "is_buffered (pieces w ! k)"
  shows "piece_buffer (int k) w = Inr (buffers w ! nat (mp_bi (pieces w ! k)))"
  using assms(2) by (rule_tac buffered_index [OF assms]) (simp add: piece_buffer_def)

lemma touch_eq:
  assumes "wf X w" "k < length (pieces w)" "is_buffered (pieces w ! k)"
  shows "touch (int k) w = Inr (touched k w)"
  using assms(2)
  by (rule_tac buffered_index [OF assms]) (simp add: touch_def now_def touched_def Let_def)

lemma touched_wf:
  assumes "wf X w" "k < length (pieces w)" "is_buffered (pieces w ! k)"
  shows "wf X (touched k w) \<and> (acct X w \<longrightarrow> acct X (touched k w))"
proof -
  obtain j where j: "mp_bi (pieces w ! k) = int j"
    "buffer_ok (piece_length w) (int j) (buffers w ! j)"
    by (rule buffered_index [OF assms])
  let ?b = "(buffers w ! j)\<lparr>mb_accessed := Some (clock w (ticks w))\<rparr>"
  have ok: "buffer_ok (piece_length w) (int j) ?b" using j(2) by (auto simp: buffer_ok_def)
  let ?v = "w\<lparr>ticks := Suc (ticks w)\<rparr>"
  have "wf X (?v\<lparr>buffers := (buffers ?v)[j := ?b]\<rparr>)"
    using assms(1) ok by (intro wf_upd_buffer) simp_all
  moreover have "acct X (?v\<lparr>buffers := (buffers ?v)[j := ?b]\<rparr>)" if "acct X w"
    using that by (intro acct_upd_buffer) simp_all
  ultimately show ?thesis using j(1) by (simp add: touched_def)
qed

lemma touched_sel [simp]:
  "pieces (touched k w) = pieces w" "reserved_pieces (touched k w) = reserved_pieces w"
  "buffer_used (touched k w) = buffer_used w" "buffer_limit (touched k w) = buffer_limit w"
  "capacity (touched k w) = capacity w" "m_handle (touched k w) = m_handle w"
  "m_t (touched k w) = m_t w" "torrent (touched k w) = torrent w" "clock (touched k w) = clock w"
  "length (buffers (touched k w)) = length (buffers w)" "is_reading (touched k w) = is_reading w"
  "is_logging (touched k w) = is_logging w" "ticks (touched k w) = Suc (ticks w)"
  "piece_length (touched k w) = piece_length w" "piece_count (touched k w) = piece_count w"
  "buffer_size (touched k w) = buffer_size w" "is_initialized (touched k w) = is_initialized w"
  "reader_pieces (touched k w) = reader_pieces w"
  by (simp_all add: touched_def Let_def)

lemma touched_buffers:
  "mb_buffer (buffers (touched k w) ! i) = mb_buffer (buffers w ! i)"
  "mb_pi (buffers (touched k w) ! i) = mb_pi (buffers w ! i)"
  "mb_is_used (buffers (touched k w) ! i) = mb_is_used (buffers w ! i)"
  by (simp_all add: touched_def Let_def nth_update_proj [of mb_buffer] nth_update_proj [of mb_pi]
      nth_update_proj [of mb_is_used])

lemma piece_data_touched [simp]: "piece_data (touched k w) i = piece_data w i"
  by (simp add: piece_data_def touched_buffers)

section \<open>Writing\<close>

lemma stored_sel [simp]:
  "pieces (stored k off bs w) =
     (pieces w)[k := (pieces w ! k)\<lparr>mp_size := mp_size (pieces w ! k) + int (length bs)\<rparr>]"
  "reserved_pieces (stored k off bs w) = reserved_pieces w"
  "buffer_used (stored k off bs w) = buffer_used w" "buffer_limit (stored k off bs w) = buffer_limit w"
  "capacity (stored k off bs w) = capacity w" "m_handle (stored k off bs w) = m_handle w"
  "m_t (stored k off bs w) = m_t w" "torrent (stored k off bs w) = torrent w"
  "clock (stored k off bs w) = clock w" "is_logging (stored k off bs w) = is_logging w"
  "length (buffers (stored k off bs w)) = length (buffers w)" "is_reading (stored k off bs w) = is_reading w"
  "ticks (stored k off bs w) = Suc (ticks w)" "piece_length (stored k off bs w) = piece_length w"
  "piece_count (stored k off bs w) = piece_count w" "buffer_size (stored k off bs w) = buffer_size w"
  "is_initialized (stored k off bs w) = is_initialized w" "reader_pieces (stored k off bs w) = reader_pieces w"
  by (simp_all add: stored_def Let_def)

text \<open>A buffer and a piece that point at each other, replaced together by an accepted write.\<close>

lemma written_wf:
  assumes "wf X w" "k < length (pieces w)" "is_buffered (pieces w ! k)"
    and "length data = length (piece_data w k)" "0 \<le> n"
  defines "j \<equiv> nat (mp_bi (pieces w ! k))"
  defines "v \<equiv> w\<lparr>buffers := (buffers w)[j := (buffers w ! j)\<lparr>mb_buffer := data\<rparr>],
      pieces := (pieces w)[k := (pieces w ! k)\<lparr>mp_size := mp_size (pieces w ! k) + n\<rparr>]\<rparr>"
  shows "wf X v" and "acct X w \<Longrightarrow> acct X v"
proof -
  obtain i where i: "mp_bi (pieces w ! k) = int i" "mb_is_used (buffers w ! i)"
    "buffer_ok (piece_length w) (int i) (buffers w ! i)" "piece_data w k = mb_buffer (buffers w ! i)"
    by (rule buffered_index [OF assms(1-3)])
  let ?b = "(buffers w ! i)\<lparr>mb_buffer := data\<rparr>"
  let ?w = "w\<lparr>buffers := (buffers w)[i := ?b]\<rparr>"
  have "buffer_ok (piece_length w) (int i) ?b" using i assms(4) by (simp add: buffer_ok_def)
  then have "wf X ?w" using assms(1) by (intro wf_upd_buffer) auto
  moreover have "piece_ok (piece_length ?w) (int k)
      ((pieces w ! k)\<lparr>mp_size := mp_size (pieces w ! k) + n\<rparr>)"
    using wf_piece [OF assms(1,2)] assms(3,5) by (auto simp: piece_ok_def is_buffered_def)
  ultimately show "wf X v"
    using wf_upd_piece [of X ?w k] i(1) by (simp add: v_def j_def)
  show "acct X v" if "acct X w"
    using acct_upd_buffer [OF that, of ?b i] i(1) by (simp add: v_def j_def)
qed

lemma writev_store_InrD:
  assumes "wf X w" "k < length (pieces w)" "is_buffered (pieces w ! k)"
    and "writev_store X bufs (int k) off w = Inr (n, w')"
  shows "wf X w' \<and> (acct X w \<longrightarrow> acct X w') \<and> 0 \<le> n"
proof -
  obtain j where j: "mp_bi (pieces w ! k) = int j" "j < length (buffers w)"
    "piece_data w k = mb_buffer (buffers w ! j)"
    by (rule buffered_index [OF assms(1-3)])
  obtain data where loop: "writev_loop (mp_length (pieces w ! k)) bufs off 0 (mb_buffer (buffers w ! j)) = Inr (n, data)"
    and t: "touch (int k) (w\<lparr>buffers := (buffers w)[j := (buffers w ! j)\<lparr>mb_buffer := data\<rparr>],
        pieces := (pieces w)[k := (pieces w ! k)\<lparr>mp_size := mp_size (pieces w ! k) + n\<rparr>]\<rparr>) = Inr w'"
    using assms(2,4) j by (auto simp: writev_store_def bindE_eq_Inr i32_eq_Inr Let_def)
  have n: "length data = length (piece_data w k)" "0 \<le> n" using writev_loop_InrD [OF loop] j(3) by auto
  let ?v = "w\<lparr>buffers := (buffers w)[j := (buffers w ! j)\<lparr>mb_buffer := data\<rparr>],
      pieces := (pieces w)[k := (pieces w ! k)\<lparr>mp_size := mp_size (pieces w ! k) + n\<rparr>]\<rparr>"
  have v: "wf X ?v" "acct X w \<Longrightarrow> acct X ?v"
    using written_wf [OF assms(1-3) n] j(1) by auto
  have "k < length (pieces ?v)" "is_buffered (pieces ?v ! k)"
    using assms(2,3) by (auto simp: is_buffered_def)
  then show ?thesis
    using touch_eq [OF v(1)] touched_wf [OF v(1)] t v(2) n(2) by auto
qed

lemma writev_store_eq:
  assumes "wf X w" "k < length (pieces w)" "is_buffered (pieces w ! k)" "list_all iov_ok bufs"
    and "0 \<le> off" "off \<le> mp_length (pieces w ! k)" "is_logging w \<longrightarrow> bufs \<noteq> []"
  defines "bs \<equiv> take (nat (mp_length (pieces w ! k) - off)) (gathered bufs)"
  assumes "mp_size (pieces w ! k) + int (length bs) \<le> INT_MAX"
  shows "writev_store X bufs (int k) off w = Inr (int (length bs), stored k (nat off) bs w)"
proof -
  let ?p = "pieces w ! k"
  obtain j where j: "mp_bi ?p = int j" "j < length (buffers w)"
    "buffer_ok (piece_length w) (int j) (buffers w ! j)" "piece_data w k = mb_buffer (buffers w ! j)"
    by (rule buffered_index [OF assms(1-3)])
  have p: "0 \<le> mp_size ?p" "mp_length ?p \<le> piece_length w" "piece_length w \<le> INT_MAX"
    using wf_piece [OF assms(1,2)] wf_shape(6) [OF assms(1)] by (auto simp: piece_ok_def)
  have loop: "writev_loop (mp_length ?p) bufs off 0 (mb_buffer (buffers w ! j)) =
      Inr (int (length bs), patch (piece_data w k) (nat off) bs)"
    using writev_loop_eq [of bufs off "mp_length ?p" "mb_buffer (buffers w ! j)" 0] assms(4-6) j p
    by (simp add: bs_def buffer_ok_def)
  have sz: "i32 (mp_size ?p + int (length bs)) = Inr (mp_size ?p + int (length bs))"
    using p assms(9) by (intro i32_nonneg) auto
  let ?v = "w\<lparr>buffers := (buffers w)[j := (buffers w ! j)\<lparr>mb_buffer := patch (piece_data w k) (nat off) bs\<rparr>],
      pieces := (pieces w)[k := ?p\<lparr>mp_size := mp_size ?p + int (length bs)\<rparr>]\<rparr>"
  have "length (patch (piece_data w k) (nat off) bs) = length (piece_data w k)"
    using j(3,4) p assms(5,6) by (intro length_patch) (auto simp: bs_def buffer_ok_def)
  then have "wf X ?v" using written_wf(1) [OF assms(1-3)] j(1) by simp
  then have "touch (int k) ?v = Inr (touched k ?v)"
    by (rule touch_eq) (use assms(2,3) in \<open>auto simp: is_buffered_def\<close>)
  then show ?thesis
    using assms(2,7) j loop sz
    by (simp add: writev_store_def log_first_iov_def stored_def Let_def)
qed

lemma piece_data_stored:
  assumes "wf X w" "k < length (pieces w)" "is_buffered (pieces w ! k)"
  shows "piece_data (stored k off bs w) k = patch (piece_data w k) off bs"
proof -
  obtain j where "mp_bi (pieces w ! k) = int j" "j < length (buffers w)"
    by (rule buffered_index [OF assms])
  then show ?thesis using assms(2)
    by (simp add: stored_def Let_def piece_data_def [of _ k] touched_buffers)
qed

lemma piece_data_stored_other:
  assumes "wf X w" "k < length (pieces w)" "is_buffered (pieces w ! k)"
    and "i < length (pieces w)" "is_buffered (pieces w ! i)" "i \<noteq> k"
  shows "piece_data (stored k off bs w) i = piece_data w i"
proof -
  obtain j where j: "mp_bi (pieces w ! k) = int j" "mb_pi (buffers w ! j) = int k"
    by (rule buffered_index [OF assms(1-3)])
  obtain l where l: "mp_bi (pieces w ! i) = int l" "mb_pi (buffers w ! l) = int i"
    by (rule buffered_index [OF assms(1,4,5)])
  have "j \<noteq> l" using j l assms(6) by auto
  then show ?thesis using assms(6) j l 
    by (simp add: stored_def Let_def piece_data_def [of _ i] touched_buffers)
qed

end
