(* ===== verification/Safety.thy ===== *)
theory Safety
  imports IO_Facts
begin

text \<open>
  What holds whatever a client does: links stay mutually inverse, no piece is ever marked
  completed or read, and the pool has the size its capacity asks for. Every operation keeps
  the three (\<open>safe\<close>), and the reads are given in closed form.
\<close>

section \<open>Well-formedness alone\<close>

text \<open>Without the accounting invariant, a turn of the loop that returns still keeps the links.\<close>

lemma victim_test_used: "victim_test X pi chk b t w = Inr True \<Longrightarrow> mb_is_used b"
  by (auto simp: victim_test_def split: if_splits)

lemma find_last_loop_InrD:
  "find_last_loop X pi chk w bs bi t = Inr i \<Longrightarrow> i = bi \<or> (\<exists>b\<in>set bs. mb_index b = i \<and> mb_is_used b)"
proof (induction bs arbitrary: bi t)
  case Nil
  then show ?case by simp
next
  case (Cons b bs)
  then obtain c where c: "victim_test X pi chk b t w = Inr c"
    and r: "(if c then find_last_loop X pi chk w bs (mb_index b) (mb_accessed b)
             else find_last_loop X pi chk w bs bi t) = Inr i"
    by (auto simp: bindE_eq_Inr)
  show ?case
  proof (cases c)
    case True
    then have "mb_is_used b" using victim_test_used [of X pi chk b t w] c by simp
    moreover have "i = mb_index b \<or> (\<exists>b\<in>set bs. mb_index b = i \<and> mb_is_used b)"
      using Cons.IH r True by simp
    ultimately show ?thesis by auto
  next
    case False
    then have "i = bi \<or> (\<exists>b\<in>set bs. mb_index b = i \<and> mb_is_used b)" using Cons.IH r by simp
    then show ?thesis by auto
  qed
qed

lemma find_last_buffer_InrD:
  assumes "wf X w" "find_last_buffer X pi chk w = Inr (i, w')"
  shows "w' = w\<lparr>ticks := Suc (ticks w)\<rparr> \<and>
    (i = -1 \<or> (\<exists>j < length (buffers w). i = int j \<and> mb_is_used (buffers w ! j)))"
proof -
  let ?w1 = "w\<lparr>ticks := Suc (ticks w)\<rparr>"
  have l: "find_last_loop X pi chk ?w1 (buffers w) (-1) (Some (clock w (ticks w))) = Inr i" "w' = ?w1"
    using assms(2) by (auto simp: find_last_buffer_def now_def bindE_eq_Inr)
  have "mb_index (buffers w ! j) = int j" if "j < length (buffers w)" for j
    using wf_buffer [OF assms(1) that] by (simp add: buffer_ok_def)
  then show ?thesis
    using find_last_loop_InrD [OF l(1)] l(2) by (fastforce simp: in_set_conv_nth)
qed

definition never_completed :: "('b, 't) world \<Rightarrow> bool" where
  "never_completed w \<longleftrightarrow> (\<forall>p\<in>set (pieces w). \<not> mp_is_completed p \<and> \<not> mp_is_read p)"

lemma never_completed_pieces:
  "never_completed w \<Longrightarrow> pieces w' = pieces w \<Longrightarrow> never_completed w'"
  by (simp add: never_completed_def)

lemma never_completed_update:
  assumes "never_completed w" "pieces w' = (pieces w)[k := p]" "\<not> mp_is_completed p" "\<not> mp_is_read p"
  shows "never_completed w'"
  using assms set_update_subset_insert [of "pieces w" k p] by (auto simp: never_completed_def)

text \<open>The capacity is not negative and the number of buffers is the one it asks for. The three invariants that hold
  whatever the client does are collected in \<open>safe\<close>.\<close>

definition sized :: "('b, 't) world \<Rightarrow> bool" where
  "sized w \<longleftrightarrow> 0 \<le> capacity w \<and> max_buffers (capacity w) (piece_length w) (piece_count w) = Inr (buffer_size w)"

definition safe :: "('b, 't) ext \<Rightarrow> ('b, 't) world \<Rightarrow> bool" where
  "safe X w \<longleftrightarrow> wf X w \<and> never_completed w \<and> sized w"

lemma safe_frame [simp]:
  "safe X (w\<lparr>torrent := t\<rparr>) = safe X w" "safe X (w\<lparr>ticks := n\<rparr>) = safe X w"
  "safe X (w\<lparr>m_handle := h\<rparr>) = safe X w" "safe X (w\<lparr>m_t := h\<rparr>) = safe X w"
  "safe X (w\<lparr>is_reading := f\<rparr>) = safe X w" "safe X (w\<lparr>is_logging := f\<rparr>) = safe X w"
  "safe X (w\<lparr>buffer_used := k\<rparr>) = safe X w" "safe X (w\<lparr>buffer_limit := k\<rparr>) = safe X w"
  "safe X (w\<lparr>buffer_reserved := k\<rparr>) = safe X w"
  by (simp_all add: safe_def never_completed_def sized_def)

lemma piece_reset_clear [simp]: "\<not> mp_is_completed (piece_reset p)" "\<not> mp_is_read (piece_reset p)"
  by (simp_all add: piece_reset_def)

lemma safe_assigned:
  assumes "safe X w" "k < length (pieces w)" "j < length (buffers w)"
    and "\<not> is_buffered (pieces w ! k)" "\<not> mb_is_used (buffers w ! j)"
  shows "safe X (assigned X k j w)"
proof -
  have "\<not> mp_is_completed (pieces w ! k)" "\<not> mp_is_read (pieces w ! k)"
    using assms(1,2) by (auto simp: safe_def never_completed_def)
  then show ?thesis
    using assms wf_assigned [of X w k j] never_completed_update [of w "assigned X k j w" k]
    by (simp add: safe_def is_buffered_def sized_def)
qed

lemma safe_remove_piece:
  assumes "safe X w" "j < length (buffers w)" "mb_is_used (buffers w ! j)"
    and "remove_piece X (int j) w = Inr w'"
  shows "safe X w'"
proof -
  have wf: "wf X w" using assms(1) by (simp add: safe_def)
  define k where "k = nat (mb_pi (buffers w ! j))"
  have k: "mb_pi (buffers w ! j) = int k" using wf_buffer_piece(1) [OF wf assms(2,3)] by (simp add: k_def)
  obtain t where w': "w' = (freed j k w)\<lparr>torrent := t\<rparr>"
    using remove_piece_InrE [OF wf assms(2-4)] unfolding k_def by blast
  have "wf X (freed j k w)" by (rule wf_freed [OF wf assms(2,3) k])
  moreover have "never_completed (freed j k w)"
    using never_completed_update [of w "freed j k w" k "piece_reset (pieces w ! k)"] assms(1)
    by (simp add: safe_def)
  ultimately show ?thesis using assms(1) by (simp add: w' safe_def never_completed_def sized_def)
qed

lemma safe_trim_step:
  assumes "safe X w" "trim_step X pi w = Inr w'"
  shows "safe X w'"
proof -
  have rm: "safe X v'" if h: "safe X v" "find_last_buffer X pi chk v = Inr (i, v1)" "i \<noteq> -1"
    "remove_piece X i v1 = Inr v'" for v v1 v' i chk
  proof -
    have "wf X v" using h(1) by (simp add: safe_def)
    from find_last_buffer_InrD [OF this h(2)] h(3) obtain j where "j < length (buffers v)" "i = int j" "mb_is_used (buffers v ! j)"
      "v1 = v\<lparr>ticks := Suc (ticks v)\<rparr>"
      by auto
    then show ?thesis using h(1,4) safe_remove_piece [of X v1 j v'] by simp
  qed
  have tick: "safe X v1" if "safe X v" "find_last_buffer X pi chk v = Inr (i, v1)" for v v1 i chk
    using that find_last_buffer_InrD [of X v pi chk i v1]
    by (simp add: safe_def never_completed_def sized_def)
  obtain i v where first: "(if bs_size X (reader_pieces w) \<noteq> 0 then find_last_buffer X pi True w
      else Inr (-1, w)) = Inr (i, v)"
    and rest: "(if i \<noteq> -1 then remove_piece X i v
       else bindE (find_last_buffer X pi False v) (\<lambda>(bi, w).
         if bi \<noteq> -1 then remove_piece X bi w else Inr w)) = Inr w'"
    using assms(2) by (auto simp: trim_step_def bindE_eq_Inr)
  have v: "safe X v" using first tick assms(1) by (auto split: if_splits)
  show ?thesis
  proof (cases "i = -1")
    case False
    then have "find_last_buffer X pi True w = Inr (i, v)" using first by (auto split: if_splits)
    then show ?thesis using rm [OF assms(1)] False rest by simp
  next
    case True
    then obtain i2 u where "find_last_buffer X pi False v = Inr (i2, u)"
      "(if i2 \<noteq> -1 then remove_piece X i2 u else Inr u) = Inr w'"
      using rest by (auto simp: bindE_eq_Inr)
    then show ?thesis using rm [OF v] tick [OF v] by (auto split: if_splits)
  qed
qed

lemma safe_trim:
  fixes w :: "('b, 't) world"
  assumes "safe X w" "trim X pi w = Some (Inr w')"
  shows "safe X w'"
proof (cases "capacity w < 0 \<or> buffer_used w < buffer_limit w")
  case True
  then show ?thesis using assms by (simp add: trim_def)
next
  case False
  then have run: "while_option over_limit (\<lambda>r. bindE r (trim_step X pi)) (Inr w) = Some (Inr w')"
    using assms(2) by (simp add: trim_def trim_loop_def)
  let ?P = "\<lambda>r :: ub + ('b, 't) world. \<forall>v. r = Inr v \<longrightarrow> safe X v"
  have "?P (Inr w')"
  proof (rule while_option_rule [OF _ run, where P = ?P])
    show "?P (Inr w)" using assms(1) by simp
  next
    fix q :: "ub + ('b, 't) world"
    assume "?P q"
    then show "?P (bindE q (trim_step X pi))"
      by (auto simp: bindE_eq_Inr intro: safe_trim_step)
  qed
  then show ?thesis by blast
qed

lemma safe_restore_piece: "safe X w \<Longrightarrow> restore_piece X pi w = Inr w' \<Longrightarrow> safe X w'"
  by (auto elim: restore_piece_InrE)

lemma safe_get_buffer:
  assumes "safe X w" "k < length (pieces w)" "get_buffer X (int k) wr w = Inr (ok, w')"
  shows "safe X w' \<and> (ok \<longrightarrow> is_buffered (pieces w' ! k)) \<and> length (pieces w') = length (pieces w)"
proof -
  have wf: "wf X w" using assms(1) by (simp add: safe_def)
  show ?thesis
    using wf assms(2,3)
  proof (cases rule: get_buffer_InrE)
    case (lent j)
    then show ?thesis using assms safe_assigned [of X w k j] by (simp add: is_buffered_def)
  qed (use assms(1) in auto)
qed

lemma safe_touch:
  assumes "safe X w" "k < length (pieces w)" "is_buffered (pieces w ! k)" "touch (int k) w = Inr w'"
  shows "safe X w'"
proof -
  have "wf X w" using assms(1) by (simp add: safe_def)
  then have "w' = touched k w" "wf X (touched k w)"
    using touch_eq [of X w k] touched_wf [of X w k] assms by auto
  then show ?thesis using assms(1) by (auto simp: safe_def sized_def intro: never_completed_pieces)
qed

lemma mark_read_never: "never_completed w \<Longrightarrow> k < length (pieces w) \<Longrightarrow> mark_read (int k) e w = Inr w"
  by (simp add: mark_read_def never_completed_def)

section \<open>Reading\<close>

lemma get_buffer_range:
  "get_buffer X pz wr w = Inr r \<Longrightarrow> \<exists>k < length (pieces w). pz = int k"
  by (auto simp: get_buffer_def bindE_eq_Inr vec_at_eq_Inr intro!: exI [of _ "nat pz"])

lemma get_read_buffer_eq:
  "k < length (pieces w) \<Longrightarrow> get_read_buffer X (int k) w = Inr (is_buffered (pieces w ! k), w)"
  by (simp add: get_read_buffer_def get_buffer_def)

text \<open>A read of a piece that is not there, or not all there, gives it back to the picker.\<close>

lemma read_refused:
  assumes "safe X w" "k < length (pieces w)"
    and "\<not> (is_buffered (pieces w ! k) \<and> mp_length (pieces w ! k) \<le> mp_size (pieces w ! k))"
  shows "read X buf sz (int k) off w =
    bindE (restore_piece X (int k) (w\<lparr>is_reading := True\<rparr>)) (\<lambda>w. Inr (-1, buf, w))"
proof -
  have "is_initialized w" using assms(1) wf_shape(1) by (auto simp: safe_def)
  then show ?thesis
    using assms(2,3) by (auto simp: read_def get_read_buffer_eq Let_def)
qed

lemma read_complete:
  assumes s: "safe X w" and k: "k < length (pieces w)" "is_buffered (pieces w ! k)"
    and c: "mp_length (pieces w ! k) \<le> mp_size (pieces w ! k)"
    and off: "0 \<le> off" "off < piece_length w" and sz: "0 \<le> sz"
    and fit: "min sz (piece_length w - off) \<le> int (length buf)"
  shows "read X buf sz (int k) off w =
    Inr (sz, patch buf 0 (take (nat sz) (drop (nat off) (piece_data w k))),
         touched k (w\<lparr>is_reading := True\<rparr>))"
proof -
  let ?w = "w\<lparr>is_reading := True\<rparr>" and ?d = "piece_data w k"
  have wf: "wf X ?w" "never_completed ?w" using s by (simp_all add: safe_def never_completed_def)
  have k': "k < length (pieces ?w)" "is_buffered (pieces ?w ! k)" using k by simp_all
  have len: "int (length ?d) = piece_length w" "piece_length w \<le> INT_MAX"
    using length_piece_data [of X w k] s k wf_shape(6) [of X w] by (auto simp: safe_def)
  let ?a = "if piece_length w - off > sz then sz else piece_length w - off"
  have av: "to_int32 (of_nat (length ?d) - to_size_t off) = piece_length w - off"
    using to_int32_diff [of "piece_length w" off] len off
    by (simp add: of_nat_size INT_MIN_def INT_MAX_def)
  have bytes: "mem_load ?d off ?a = Inr (take (nat sz) (drop (nat off) ?d))"
    using len off sz by (auto simp: mem_load_def)
  have st: "mem_store buf 0 (take (nat sz) (drop (nat off) ?d)) =
      Inr (patch buf 0 (take (nat sz) (drop (nat off) ?d)))"
    using fit len off sz by (auto simp: mem_store_def)
  have init: "is_initialized w" using s wf_shape(1) by (auto simp: safe_def)
  show ?thesis
    using k c off bytes st init av touch_eq [OF wf(1) k'] mark_read_never [OF wf(2) k'(1)]
      piece_buffer_eq [OF wf(1) k']
    by (simp add: read_def get_read_buffer_eq piece_data_def)
qed

text \<open>At or past the end of the buffer a read returns zero.\<close>

lemma read_past_end:
  assumes s: "safe X w" and k: "k < length (pieces w)" "is_buffered (pieces w ! k)"
    and c: "mp_length (pieces w ! k) \<le> mp_size (pieces w ! k)"
    and off: "piece_length w \<le> off" "off \<le> INT_MAX"
  shows "read X buf sz (int k) off w = Inr (0, buf, w\<lparr>is_reading := True\<rparr>)"
proof -
  let ?w = "w\<lparr>is_reading := True\<rparr>" and ?d = "piece_data w k"
  have wf: "wf X ?w" using s by (simp add: safe_def)
  have k': "k < length (pieces ?w)" "is_buffered (pieces ?w ! k)" using k by simp_all
  have len: "int (length ?d) = piece_length w" "0 < piece_length w"
    using length_piece_data [of X w k] s k wf_shape(5) [of X w] by (auto simp: safe_def)
  have av: "to_int32 (of_nat (length ?d) - to_size_t off) = piece_length w - off"
    using to_int32_diff [of "piece_length w" off] len off
    by (simp add: of_nat_size INT_MIN_def INT_MAX_def)
  have init: "is_initialized w" using s wf_shape(1) by (auto simp: safe_def)
  show ?thesis
    using k c off init av piece_buffer_eq [OF wf k']
    by (simp add: read_def get_read_buffer_eq piece_data_def)
qed

lemma safe_read:
  assumes s: "safe X w" and r: "read X buf sz piece off w = Inr (n, buf', w')"
  shows "safe X w'"
proof -
  let ?w = "w\<lparr>is_reading := True\<rparr>"
  have init: "is_initialized w" using s wf_shape(1) by (auto simp: safe_def)
  obtain k where k: "k < length (pieces w)" "piece = int k"
    using r init get_buffer_range [of X piece False ?w]
    by (auto simp: read_def bindE_eq_Inr get_read_buffer_def Let_def)
  show ?thesis
  proof (cases "is_buffered (pieces w ! k) \<and> mp_length (pieces w ! k) \<le> mp_size (pieces w ! k)")
    case False
    then show ?thesis
      using r k read_refused [OF s k(1) False] safe_restore_piece [of X ?w] s
      by (auto simp: bindE_eq_Inr)
  next
    case True
    have sw: "safe X ?w" "never_completed ?w"
      using s by (simp, simp add: safe_def never_completed_def)
    from True r init k have "w' = ?w \<or> touch (int k) ?w = Inr w'"
      by (auto simp: read_def get_read_buffer_eq Let_def bindE_eq_Inr
          mark_read_never [OF sw(2)] split: if_splits)
    then show ?thesis using sw(1) safe_touch [of X ?w k w'] True k by auto
  qed
qed

lemma readv_unbuffered:
  assumes "safe X w" "k < length (pieces w)" "\<not> is_buffered (pieces w ! k)"
  shows "readv X bufs (int k) off w = Inr (0, bufs, w)"
proof -
  have "is_initialized w" using assms(1) wf_shape(1) by (auto simp: safe_def)
  then show ?thesis using assms(2,3) by (simp add: readv_def get_read_buffer_eq)
qed

lemma readv_eq:
  assumes s: "safe X w" and k: "k < length (pieces w)" "is_buffered (pieces w ! k)"
    and ok: "list_all iov_ok bufs" and off: "0 \<le> off" "off \<le> piece_length w"
    and log: "is_logging w \<longrightarrow> bufs \<noteq> []"
  defines "bs \<equiv> take (length (gathered bufs)) (drop (nat off) (piece_data w k))"
  shows "\<exists>bufs'. readv X bufs (int k) off w = Inr (int (length bs), bufs', touched k w) \<and>
    list_all iov_ok bufs' \<and> map iov_len bufs' = map iov_len bufs \<and>
    gathered bufs' = patch (gathered bufs) 0 bs"
proof -
  let ?d = "piece_data w k"
  have wf: "wf X w" "never_completed w" using s by (simp_all add: safe_def)
  have len: "int (length ?d) = piece_length w" "piece_length w \<le> INT_MAX"
    using length_piece_data [OF wf(1) k] wf_shape(6) [OF wf(1)] by auto
  obtain bufs' where b: "readv_loop ?d bufs off 0 = Inr (int (length bs), bufs')"
    "list_all iov_ok bufs'" "map iov_len bufs' = map iov_len bufs"
    "gathered bufs' = patch (gathered bufs) 0 bs"
    using readv_loop_eq [OF ok off(1), of ?d 0] len off unfolding bs_def by auto
  have "i32 (off + int (length bs)) = Inr (off + int (length bs))"
    using len off by (intro i32_nonneg) (auto simp: bs_def)
  moreover have "log_first_iov bufs w = Inr ()" using log by (simp add: log_first_iov_def)
  ultimately have "readv X bufs (int k) off w = Inr (int (length bs), bufs', touched k w)"
    using k b(1) wf_shape(1) [OF wf(1)] piece_buffer_eq [OF wf(1) k] touch_eq [OF wf(1) k]
      mark_read_never [OF wf(2) k(1)]
    by (simp add: readv_def get_read_buffer_eq piece_data_def)
  then show ?thesis using b by blast
qed

lemma safe_readv:
  assumes s: "safe X w" and r: "readv X bufs piece off w = Inr (n, bufs', w')"
  shows "safe X w'"
proof -
  have init: "is_initialized w" using s wf_shape(1) by (auto simp: safe_def)
  obtain k where k: "k < length (pieces w)" "piece = int k"
    using r init get_buffer_range [of X piece False w]
    by (auto simp: readv_def bindE_eq_Inr get_read_buffer_def)
  show ?thesis
  proof (cases "is_buffered (pieces w ! k)")
    case False
    then show ?thesis using r k readv_unbuffered [OF s k(1)] s by simp
  next
    case True
    have "never_completed w" using s by (simp add: safe_def)
    then have "touch (int k) w = Inr w'"
      using r k init True
      by (auto simp: readv_def get_read_buffer_eq bindE_eq_Inr mark_read_never)
    then show ?thesis using safe_touch [OF s k(1) True] by blast
  qed
qed

section \<open>Writing\<close>

lemma safe_writev_store:
  assumes "safe X w" "k < length (pieces w)" "is_buffered (pieces w ! k)"
    and "writev_store X bufs (int k) off w = Inr (n, w')"
  shows "safe X w'"
proof -
  have wf: "wf X w" and nc: "never_completed w" and sized: "sized w" using assms(1) by (auto simp: safe_def)
  have wf': "wf X w'" using writev_store_InrD [OF wf assms(2-4)] by blast
  obtain j where "mp_bi (pieces w ! k) = int j" "j < length (buffers w)"
    by (rule buffered_index [OF wf assms(2,3)])
  then have "pieces w' = (pieces w)[k := (pieces w ! k)\<lparr>mp_size := mp_size (pieces w ! k) + n\<rparr>]"
    using assms(2,4)
    by (auto simp: writev_store_def touch_def now_def Let_def bindE_eq_Inr i32_eq_Inr)
  then have "never_completed w'"
    by (rule never_completed_update [OF nc]) (use nc assms(2) in \<open>auto simp: never_completed_def\<close>)
  moreover have "sized w'"
    using sized assms(2,4) by (auto simp: writev_store_def touch_def now_def Let_def bindE_eq_Inr sized_def)
  ultimately show ?thesis using wf' by (simp add: safe_def)
qed

lemma safe_writev:
  assumes s: "safe X w" and r: "writev X bufs piece off w = Some (Inr (n, w'))"
  shows "safe X w'"
proof -
  have init: "is_initialized w" using s wf_shape(1) by (auto simp: safe_def)
  obtain ok w1 where g: "get_buffer X piece True w = Inr (ok, w1)"
    using r init by (auto simp: writev_def get_write_buffer_def split: sum.splits)
  obtain k where k: "k < length (pieces w)" "piece = int k" using get_buffer_range [OF g] by blast
  have w1: "safe X w1" "ok \<longrightarrow> is_buffered (pieces w1 ! k)" "k < length (pieces w1)"
    using safe_get_buffer [OF s k(1)] g k by auto
  show ?thesis
  proof (cases ok)
    case False
    then show ?thesis using r init g w1(1) by (auto simp: writev_def get_write_buffer_def)
  next
    case True
    obtain m w2 where st: "writev_store X bufs piece off w1 = Inr (m, w2)"
      using r init g True by (auto simp: writev_def get_write_buffer_def split: sum.splits)
    have w2: "safe X w2" using safe_writev_store [OF w1(1,3)] w1(2) True st k(2) by blast
    show ?thesis
      using r init g True st w2 safe_trim [OF w2]
      by (auto simp: writev_def get_write_buffer_def bindE_eq_Inr split: if_splits)
  qed
qed

end
