(* ===== verification/Write_Path.thy ===== *)
theory Write_Path
  imports Safety
begin

text \<open>
  The whole of \<open>writev\<close>: obtaining a buffer, storing the bytes, trimming. It is split at the
  point where the bytes are in the buffer; from there on only the trim can fail to return.
\<close>

section \<open>Up to the trim\<close>

lemma handle_ok_assigned [simp]: "handle_ok (assigned X k j w) = handle_ok w"
  by (simp add: handle_ok_def)

lemma handle_ok_stored [simp]: "handle_ok (stored k off bs w) = handle_ok w"
  by (simp add: handle_ok_def)

lemma trim_inv_get_buffer:
  assumes "trim_inv X w" "k < length (pieces w)" "get_buffer X (int k) wr w = Inr (ok, w1)"
  shows "trim_inv X w1"
proof -
  have w: "wf X w" "acct X w" "handle_ok w" using assms(1) by (auto simp: trim_inv_def)
  have "handle_ok w1"
    using w(1) assms(2,3) by (cases rule: get_buffer_InrE) (use w(3) in auto)
  then show ?thesis using get_buffer_wf [OF w(1) assms(2,3)] w(2) by (simp add: trim_inv_def)
qed

text \<open>The bytes a write takes from its entries: what fits between the offset and the piece's end.\<close>

definition accepted_bytes :: "('b, 't) world \<Rightarrow> nat \<Rightarrow> int \<Rightarrow> iovec_t list \<Rightarrow> byte list" where
  "accepted_bytes w k off bufs = take (nat (mp_length (pieces w ! k) - off)) (gathered bufs)"

text \<open>The conditions under which a caller may write: the offset lies in the piece.\<close>

definition write_ok :: "('b, 't) world \<Rightarrow> nat \<Rightarrow> int \<Rightarrow> iovec_t list \<Rightarrow> bool" where
  "write_ok w k off bufs \<longleftrightarrow>
     k < length (pieces w) \<and> list_all iov_ok bufs \<and> 0 \<le> off \<and> off \<le> mp_length (pieces w ! k) \<and>
     (is_logging w \<longrightarrow> bufs \<noteq> []) \<and>
     mp_size (pieces w ! k) + int (length (accepted_bytes w k off bufs)) \<le> INT_MAX"

text \<open>The piece is in a buffer of \<open>w1\<close>: it was there, or a free buffer was lent to it.\<close>

definition admitted :: "('b, 't) ext \<Rightarrow> nat \<Rightarrow> ('b, 't) world \<Rightarrow> ('b, 't) world \<Rightarrow> bool" where
  "admitted X k w w1 \<longleftrightarrow>
     (is_buffered (pieces w ! k) \<and> w1 = w) \<or>
     (\<not> is_buffered (pieces w ! k) \<and>
      (\<exists>j < length (buffers w). \<not> mb_is_used (buffers w ! j) \<and> w1 = assigned X k j w))"

lemma get_buffer_admitted:
  assumes "wf X w" "k < length (pieces w)" "get_buffer X (int k) wr w = Inr (True, w1)"
  shows "admitted X k w w1"
  using assms by (cases rule: get_buffer_InrE) (auto simp: admitted_def)

lemma admitted_facts:
  assumes "wf X w" "k < length (pieces w)" "admitted X k w w1"
  shows "is_buffered (pieces w1 ! k)" "mp_length (pieces w1 ! k) = mp_length (pieces w ! k)"
    "mp_size (pieces w1 ! k) = mp_size (pieces w ! k)" "length (pieces w1) = length (pieces w)"
    "is_logging w1 = is_logging w" "capacity w1 = capacity w" "clock w1 = clock w"
    "reserved_pieces w1 = reserved_pieces w" "\<And>i. i \<noteq> k \<Longrightarrow> pieces w1 ! i = pieces w ! i"
  using assms by (auto simp: admitted_def is_buffered_def)

text \<open>The data of the piece before the write: its own, or a clean buffer.\<close>

lemma admitted_data:
  assumes "wf X w" "k < length (pieces w)" "admitted X k w w1"
  shows "piece_data w1 k =
    (if is_buffered (pieces w ! k) then piece_data w k else replicate (nat (piece_length w)) 0)"
proof (cases "is_buffered (pieces w ! k)")
  case True
  then show ?thesis using assms(3) by (simp add: admitted_def)
next
  case False
  then obtain j where "j < length (buffers w)" "\<not> mb_is_used (buffers w ! j)" "w1 = assigned X k j w"
    using assms(3) by (auto simp: admitted_def)
  then show ?thesis
    using False assms(2) wf_buffer [OF assms(1), of j]
    by (simp add: piece_data_def lent_buffer_def buffer_ok_def)
qed

lemma admitted_data_other:
  assumes "wf X w" "k < length (pieces w)" "admitted X k w w1"
    and "i < length (pieces w)" "is_buffered (pieces w ! i)" "i \<noteq> k"
  shows "piece_data w1 i = piece_data w i"
proof (cases "is_buffered (pieces w ! k)")
  case True
  then show ?thesis using assms(3) by (simp add: admitted_def)
next
  case False
  then obtain j where j: "\<not> mb_is_used (buffers w ! j)" "w1 = assigned X k j w"
    using assms(3) by (auto simp: admitted_def)
  obtain l where l: "mp_bi (pieces w ! i) = int l" "mb_is_used (buffers w ! l)"
    by (rule buffered_index [OF assms(1,4,5)])
  then have "l \<noteq> j" using j by auto
  then show ?thesis using j l assms(6) by (simp add: piece_data_def)
qed

lemma writev_refused:
  assumes "wf X w" "get_buffer X (int k) True w = Inr (False, w1)"
  shows "writev X bufs (int k) off w = Some (Inr (0, w1))"
  using assms wf_shape(1) [OF assms(1)] by (simp add: writev_def get_write_buffer_def)

lemma writev_admitted:
  assumes inv: "trim_inv X w" and ok: "write_ok w k off bufs"
    and g: "get_buffer X (int k) True w = Inr (True, w1)"
  defines "bs \<equiv> accepted_bytes w k off bufs"
  defines "w2 \<equiv> stored k (nat off) bs w1"
  shows "trim_inv X w2" "admitted X k w w1"
    and "writev X bufs (int k) off w =
      (if buffer_limit w2 \<le> buffer_used w2
       then map_option (\<lambda>r. bindE r (\<lambda>w. Inr (int (length bs), w))) (trim X (int k) w2)
       else Some (Inr (int (length bs), w2)))"
proof -
  have w: "wf X w" and k: "k < length (pieces w)" using inv ok by (auto simp: trim_inv_def write_ok_def)
  show adm: "admitted X k w w1" by (rule get_buffer_admitted [OF w k g])
  note f = admitted_facts [OF w k adm]
  have i1: "trim_inv X w1" by (rule trim_inv_get_buffer [OF inv k g])
  then have w1: "wf X w1" "acct X w1" "handle_ok w1" by (auto simp: trim_inv_def)
  have k1: "k < length (pieces w1)" using k f(4) by simp
  have bs: "bs = take (nat (mp_length (pieces w1 ! k) - off)) (gathered bufs)"
    by (simp add: bs_def accepted_bytes_def f(2))
  have st: "writev_store X bufs (int k) off w1 = Inr (int (length bs), w2)"
    using writev_store_eq [OF w1(1) k1 f(1), of bufs off] ok f bs
    by (simp add: write_ok_def w2_def bs_def)
  show "trim_inv X w2"
    using writev_store_InrD [OF w1(1) k1 f(1) st] w1 by (simp add: trim_inv_def w2_def)
  show "writev X bufs (int k) off w =
      (if buffer_limit w2 \<le> buffer_used w2
       then map_option (\<lambda>r. bindE r (\<lambda>w. Inr (int (length bs), w))) (trim X (int k) w2)
       else Some (Inr (int (length bs), w2)))"
    using g st wf_shape(1) [OF w] by (simp add: writev_def get_write_buffer_def)
qed

section \<open>The result of a write\<close>

lemma writev_result:
  assumes inv: "trim_inv X w" and ok: "write_ok w k off bufs"
    and g: "get_buffer X (int k) True w = Inr (True, w1)"
    and r: "writev X bufs (int k) off w = Some r"
  defines "bs \<equiv> accepted_bytes w k off bufs"
  shows "\<exists>w'. r = Inr (int (length bs), w') \<and> trim_inv X w' \<and>
    evicted_from X (int k) (stored k (nat off) bs w1) w' \<and>
    (0 \<le> capacity w \<longrightarrow> buffer_used w' < buffer_limit w')"
proof -
  let ?w2 = "stored k (nat off) bs w1"
  note a = writev_admitted [OF inv ok g, folded bs_def]
  have w: "wf X w" and k: "k < length (pieces w)" using inv ok by (auto simp: trim_inv_def write_ok_def)
  have cap: "capacity ?w2 = capacity w" using admitted_facts(6) [OF w k a(2)] by simp
  show ?thesis
  proof (cases "buffer_limit ?w2 \<le> buffer_used ?w2")
    case False
    then show ?thesis using a r evicted_from_refl [of X "int k" ?w2] by auto
  next
    case True
    then obtain t where t: "trim X (int k) ?w2 = Some t"
      and r': "r = bindE t (\<lambda>w. Inr (int (length bs), w))"
      using a(3) r by (cases "trim X (int k) ?w2") auto
    from trim_returns [OF a(1) t] r' cap show ?thesis by auto
  qed
qed

text \<open>After an accepted write the piece is in a buffer and holds the new bytes.\<close>

lemma writev_data:
  assumes inv: "trim_inv X w" and ok: "write_ok w k off bufs"
    and g: "get_buffer X (int k) True w = Inr (True, w1)"
    and r: "writev X bufs (int k) off w = Some (Inr (n, w'))"
  defines "bs \<equiv> accepted_bytes w k off bufs"
  shows "n = int (length bs)" "is_buffered (pieces w' ! k)"
    "mp_size (pieces w' ! k) = mp_size (pieces w ! k) + int (length bs)"
    "mp_length (pieces w' ! k) = mp_length (pieces w ! k)"
    "piece_data w' k = patch (if is_buffered (pieces w ! k) then piece_data w k
        else replicate (nat (piece_length w)) 0) (nat off) bs"
proof -
  let ?w2 = "stored k (nat off) bs w1"
  have w: "wf X w" and k: "k < length (pieces w)" using inv ok by (auto simp: trim_inv_def write_ok_def)
  note adm = writev_admitted(2) [OF inv ok g]
  note f = admitted_facts [OF w k adm]
  have w1: "wf X w1" using trim_inv_get_buffer [OF inv k g] by (simp add: trim_inv_def)
  have k1: "k < length (pieces w1)" using k f(4) by simp
  from writev_result [OF inv ok g r] have n: "n = int (length bs)"
    and ev: "evicted_from X (int k) ?w2 w'" by (auto simp: bs_def)
  show "n = int (length bs)" by (rule n)
  have b2: "is_buffered (pieces ?w2 ! k)" using f(1) k1 by (simp add: is_buffered_def)
  have same: "pieces w' ! k = pieces ?w2 ! k"
    "buffers w' ! nat (mp_bi (pieces ?w2 ! k)) = buffers ?w2 ! nat (mp_bi (pieces ?w2 ! k))"
    using ev b2 k1 unfolding evicted_from_def by auto
  then show "is_buffered (pieces w' ! k)"
    "mp_size (pieces w' ! k) = mp_size (pieces w ! k) + int (length bs)"
    "mp_length (pieces w' ! k) = mp_length (pieces w ! k)"
    using b2 k1 f(2,3) by simp_all
  have "piece_data w' k = piece_data ?w2 k" using same by (simp add: piece_data_def)
  then show "piece_data w' k = patch (if is_buffered (pieces w ! k) then piece_data w k
        else replicate (nat (piece_length w)) 0) (nat off) bs"
    using piece_data_stored [OF w1 k1 f(1)] admitted_data [OF w k adm] by simp
qed

text \<open>Every other piece is either untouched or was evicted, and a reserved one is untouched.\<close>

lemma writev_others:
  assumes inv: "trim_inv X w" and ok: "write_ok w k off bufs"
    and g: "get_buffer X (int k) True w = Inr (True, w1)"
    and r: "writev X bufs (int k) off w = Some (Inr (n, w'))"
    and i: "i < length (pieces w)" "i \<noteq> k" "is_buffered (pieces w ! i)"
  shows "(pieces w' ! i = pieces w ! i \<and> piece_data w' i = piece_data w i) \<or>
    (\<not> is_buffered (pieces w' ! i) \<and> \<not> bs_test X (reserved_pieces w) i)"
proof -
  let ?bs = "accepted_bytes w k off bufs"
  let ?w2 = "stored k (nat off) ?bs w1"
  have w: "wf X w" and k: "k < length (pieces w)" using inv ok by (auto simp: trim_inv_def write_ok_def)
  note adm = writev_admitted(2) [OF inv ok g]
  note f = admitted_facts [OF w k adm]
  have w1: "wf X w1" using trim_inv_get_buffer [OF inv k g] by (simp add: trim_inv_def)
  have k1: "k < length (pieces w1)" using k f(4) by simp
  have i1: "i < length (pieces w1)" "is_buffered (pieces w1 ! i)" using i f(4,9) by simp_all
  from writev_result [OF inv ok g r] have ev: "evicted_from X (int k) ?w2 w'" by auto
  have p2: "pieces ?w2 ! i = pieces w ! i" using f(9) i(2) by simp
  have d2: "piece_data ?w2 i = piece_data w i"
    using piece_data_stored_other [OF w1 k1 f(1) i1 i(2)] admitted_data_other [OF w k adm i(1,3,2)]
    by simp
  have i2: "i < length (pieces ?w2)" using i1 by simp
  have "(pieces w' ! i = pieces ?w2 ! i \<and>
         (is_buffered (pieces ?w2 ! i) \<longrightarrow>
            buffers w' ! nat (mp_bi (pieces ?w2 ! i)) = buffers ?w2 ! nat (mp_bi (pieces ?w2 ! i)))) \<or>
        (\<not> bs_test X (reserved_pieces ?w2) i \<and> pieces w' ! i = piece_reset (pieces ?w2 ! i))"
    using ev i2 unfolding evicted_from_def by blast
  then show ?thesis using p2 d2 i(3) f(8) by (auto simp: piece_data_def)
qed

section \<open>When a write returns\<close>

definition clock_advances :: "('b, 't) world \<Rightarrow> bool" where
  "clock_advances w \<longleftrightarrow> (\<forall>t. \<exists>m. \<forall>n \<ge> m. t < clock w n)"

lemma clock_past_ex:
  assumes "clock_advances w"
  shows "\<exists>m. clock_past m w"
proof -
  have "\<exists>m. \<forall>b\<in>set bs. \<forall>n \<ge> m. stamp b < clock w n" for bs
  proof (induction bs)
    case Nil
    then show ?case by simp
  next
    case (Cons b bs)
    then obtain m where m: "\<forall>b\<in>set bs. \<forall>n \<ge> m. stamp b < clock w n" by blast
    obtain m' where "\<forall>n \<ge> m'. stamp b < clock w n" using assms by (auto simp: clock_advances_def)
    with m show ?case by (intro exI [of _ "max m m'"]) auto
  qed
  then show ?thesis unfolding clock_past_def by blast
qed

lemma evictable_stored:
  assumes inv: "trim_inv X w2" and k: "k < length (pieces w2)" "is_buffered (pieces w2 ! k)"
  shows "evictable X (int k) w2 =
    buffer_used w2 - (if bs_test X (reserved_pieces w2) k then 0 else 1)"
  using evictable_count [of X w2 k] inv k by (simp add: trim_inv_def)

lemma writev_returns:
  assumes inv: "trim_inv X w" and ok: "write_ok w k off bufs"
    and g: "get_buffer X (int k) True w = Inr (True, w1)"
    and clk: "clock_advances w" and lim: "2 \<le> buffer_limit w"
  shows "\<exists>w'. writev X bufs (int k) off w = Some (Inr (int (length (accepted_bytes w k off bufs)), w'))"
proof -
  let ?bs = "accepted_bytes w k off bufs"
  let ?w2 = "stored k (nat off) ?bs w1"
  have w: "wf X w" and k: "k < length (pieces w)" using inv ok by (auto simp: trim_inv_def write_ok_def)
  note a = writev_admitted [OF inv ok g]
  note f = admitted_facts [OF w k a(2)]
  have k2: "k < length (pieces ?w2)" "is_buffered (pieces ?w2 ! k)"
    using k f(1,4) by (simp_all add: is_buffered_def)
  have "buffer_limit ?w2 \<ge> (if bs_test X (reserved_pieces ?w2) k then 1 else 2)"
    using a(2) lim by (auto simp: admitted_def)
  then have stock: "buffer_used ?w2 - buffer_limit ?w2 < evictable X (int k) ?w2"
    using evictable_stored [OF a(1) k2] by (auto split: if_splits)
  have "clock_advances ?w2" using clk f(7) by (simp add: clock_advances_def)
  then obtain m where "clock_past m ?w2" using clock_past_ex by blast
  from trim_terminates [OF a(1) this stock] a(3) show ?thesis by auto
qed

text \<open>With a limit of one, the buffer of the piece being written is all there is to evict.\<close>

lemma writev_hangs:
  assumes inv: "trim_inv X w" and ok: "write_ok w k off bufs"
    and g: "get_buffer X (int k) True w = Inr (True, w1)"
    and cap: "0 \<le> capacity w" and lim: "buffer_limit w \<le> 1"
    and res: "\<not> bs_test X (reserved_pieces w) k"
  shows "writev X bufs (int k) off w = None"
proof -
  let ?bs = "accepted_bytes w k off bufs"
  let ?w2 = "stored k (nat off) ?bs w1"
  have w: "wf X w" and k: "k < length (pieces w)" using inv ok by (auto simp: trim_inv_def write_ok_def)
  note a = writev_admitted [OF inv ok g]
  note f = admitted_facts [OF w k a(2)]
  have k2: "k < length (pieces ?w2)" "is_buffered (pieces ?w2 ! k)"
    using k f(1,4) by (simp_all add: is_buffered_def)
  have lim2: "buffer_limit ?w2 \<le> 1" using a(2) lim by (auto simp: admitted_def)
  have ev: "evictable X (int k) ?w2 = buffer_used ?w2 - 1"
    using evictable_stored [OF a(1) k2] res f(8) by simp
  have "0 \<le> evictable X (int k) ?w2" by (simp add: evictable_def)
  then have over: "buffer_limit ?w2 \<le> buffer_used ?w2" using ev lim2 by linarith
  have "trim X (int k) ?w2 = None"
    using ev lim2 cap f(6) over by (intro trim_hangs [OF a(1)]) simp_all
  then show ?thesis using a(3) over by simp
qed

end
