(* ===== verification/Admin.thy ===== *)
theory Admin
  imports IO_Facts
begin

text \<open>
  The control operations of the storage: its memory size, the reader and reserved ranges,
  logging, the textual buffer table, and the file operations of \<open>storage_interface\<close> that a
  storage in memory answers without doing anything (memory_storage.hpp).
\<close>

section \<open>Memory size\<close>

definition get_memory_size :: "('b, 't) world \<Rightarrow> int" where
  "get_memory_size w = capacity w"

text \<open>The part of \<open>set_memory_size\<close> inside \<open>m_mutex\<close>, and the whole.\<close>

definition resize_pool :: "int \<Rightarrow> ('b, 't) world \<Rightarrow> ub + ('b, 't) world" where
  "resize_pool s w =
     (let w = w\<lparr>capacity := s\<rparr>; prev_buffer_size = buffer_size w in
      bindE (max_buffers (capacity w) (piece_length w) (piece_count w)) (\<lambda>n.
      let w = w\<lparr>buffer_size := n, buffer_limit := n\<rparr> in
      if prev_buffer_size = buffer_size w then Inr w
      else bindE (push_buffers prev_buffer_size (buffer_size w) (piece_length w) (buffers w)) (\<lambda>bs.
        Inr (w\<lparr>buffers := bs\<rparr>))))"

definition set_memory_size :: "int \<Rightarrow> ('b, 't) world \<Rightarrow> ub + ('b, 't) world" where
  "set_memory_size s w = (if s \<le> capacity w then Inr w else resize_pool s w)"

section \<open>Reader and reserved pieces\<close>

fun set_bits :: "('b, 't) ext \<Rightarrow> 'b \<Rightarrow> int list \<Rightarrow> ub + 'b" where
  "set_bits X b [] = Inr b"
| "set_bits X b (p # ps) = bindE (bit_set X b p) (\<lambda>b. set_bits X b ps)"

definition update_reader_pieces :: "('b, 't) ext \<Rightarrow> int list \<Rightarrow> ('b, 't) world \<Rightarrow> ub + ('b, 't) world" where
  "update_reader_pieces X ps w =
     (if \<not> is_initialized w then Inr w
      else bindE (set_bits X (bs_reset X (reader_pieces w)) ps) (\<lambda>b.
        Inr (w\<lparr>reader_pieces := b\<rparr>)))"

text \<open>This loop also counts the pieces it is given.\<close>

fun reserve_bits :: "('b, 't) ext \<Rightarrow> 'b \<Rightarrow> int \<Rightarrow> int list \<Rightarrow> ub + 'b \<times> int" where
  "reserve_bits X b n [] = Inr (b, n)"
| "reserve_bits X b n (p # ps) =
     bindE (bit_set X b p) (\<lambda>b. bindE (i32 (n + 1)) (\<lambda>n. reserve_bits X b n ps))"

definition update_reserved_pieces :: "('b, 't) ext \<Rightarrow> int list \<Rightarrow> ('b, 't) world \<Rightarrow> ub + ('b, 't) world" where
  "update_reserved_pieces X ps w =
     (if \<not> is_initialized w then Inr w
      else bindE (reserve_bits X (bs_reset X (reserved_pieces w)) 0 ps) (\<lambda>(b, n).
        Inr (w\<lparr>reserved_pieces := b, buffer_reserved := n\<rparr>)))"

section \<open>Logging\<close>

definition enable_logging :: "('b, 't) world \<Rightarrow> ('b, 't) world" where
  "enable_logging w = w\<lparr>is_logging := True\<rparr>"

definition disable_logging :: "('b, 't) world \<Rightarrow> ('b, 't) world" where
  "disable_logging w = w\<lparr>is_logging := False\<rparr>"

text \<open>
  The buffer table as text; \<open>lexical_cast\<close> is Boost's rendering of an \<open>int\<close>, an argument.
\<close>

fun buffer_info_loop :: "(int \<Rightarrow> string) \<Rightarrow> memory_buffer list \<Rightarrow> string \<Rightarrow> string" where
  "buffer_info_loop lexical_cast [] result = result"
| "buffer_info_loop lexical_cast (b # bs) result =
     (let result = (if result \<noteq> [] then result @ '' '' else result)
      in buffer_info_loop lexical_cast bs
           (result @ (lexical_cast (mb_index b) @ '':'' @ lexical_cast (mb_pi b))))"

definition get_buffer_info :: "(int \<Rightarrow> string) \<Rightarrow> ('b, 't) world \<Rightarrow> string" where
  "get_buffer_info lexical_cast w = buffer_info_loop lexical_cast (buffers w) ''''"

section \<open>File operations without a file\<close>

definition initialize :: "('b, 't) world \<Rightarrow> ('b, 't) world" where
  "initialize w = w"

definition rename_file :: "int \<Rightarrow> string \<Rightarrow> ('b, 't) world \<Rightarrow> ('b, 't) world" where
  "rename_file index new_filename w = w"

definition move_storage :: "string \<Rightarrow> ('b, 't) world \<Rightarrow> bool \<times> ('b, 't) world" where
  "move_storage save_path w = (False, w)"

definition verify_resume_data :: "('b, 't) world \<Rightarrow> bool \<times> ('b, 't) world" where
  "verify_resume_data w = (False, w)"

definition write_resume_data :: "('b, 't) world \<Rightarrow> bool \<times> ('b, 't) world" where
  "write_resume_data w = (False, w)"

definition write_resume_data_ec :: "('b, 't) world \<Rightarrow> ('b, 't) world" where
  "write_resume_data_ec w = w"

definition write_resume_data_const :: "('b, 't) world \<Rightarrow> ('b, 't) world" where
  "write_resume_data_const w = w"

definition release_files :: "('b, 't) world \<Rightarrow> ('b, 't) world" where
  "release_files w = w"

definition delete_files :: "('b, 't) world \<Rightarrow> bool \<times> ('b, 't) world" where
  "delete_files w = (False, w)"

definition delete_files_options :: "int \<Rightarrow> ('b, 't) world \<Rightarrow> ('b, 't) world" where
  "delete_files_options options w = w"

definition has_any_file :: "('b, 't) world \<Rightarrow> bool \<times> ('b, 't) world" where
  "has_any_file w = (False, w)"

definition set_file_priority :: "8 word list \<Rightarrow> ('b, 't) world \<Rightarrow> ('b, 't) world" where
  "set_file_priority prio w = w"

definition move_storage_flags :: "string \<Rightarrow> int \<Rightarrow> ('b, 't) world \<Rightarrow> int \<times> ('b, 't) world" where
  "move_storage_flags save_path flags w = (0, w)"

section \<open>How many buffers a capacity asks for\<close>

lemma trunc_div_mono:
  assumes "a \<le> a'" "0 < b"
  shows "trunc_div a b \<le> trunc_div a' b"
proof -
  have pos: "trunc_div x b = x div b" if "0 \<le> x" for x using that assms(2) by (rule trunc_div_nonneg)
  have neg: "trunc_div x b = - ((- x) div b)" if "x < 0" for x
    using that assms(2) by (simp add: trunc_div_def sgn_if)
  have sgn: "trunc_div x b \<le> 0" if "x < 0" for x
    using that assms(2) by (simp add: neg pos_imp_zdiv_nonneg_iff)
  have sgn': "0 \<le> trunc_div x b" if "0 \<le> x" for x
    using that assms(2) by (simp add: pos pos_imp_zdiv_nonneg_iff)
  consider "0 \<le> a" | "a < 0" "0 \<le> a'" | "a' < 0" "a < 0" using assms(1) by linarith
  then show ?thesis
  proof cases
    case 1
    then show ?thesis using assms by (simp add: pos zdiv_mono1)
  next
    case 2
    then show ?thesis using sgn [of a] sgn' [of a'] by linarith
  next
    case 3
    then show ?thesis using assms by (simp add: neg zdiv_mono1)
  qed
qed

lemma max_buffers_mono:
  assumes "max_buffers c pl pc = Inr n" "max_buffers c' pl pc = Inr n'" "c \<le> c'" "0 < pl"
  shows "n \<le> n'"
  using assms trunc_div_mono [OF assms(3,4)]
  by (auto simp: max_buffers_def bindE_eq_Inr i32_eq_Inr split: if_splits)

lemma max_buffers_le: "max_buffers c pl pc = Inr n \<Longrightarrow> n \<le> pc"
  by (auto simp: max_buffers_def bindE_eq_Inr split: if_splits)

text \<open>The memory the buffers take is at most the capacity and two pieces more.\<close>

lemma max_buffers_memory:
  assumes "max_buffers c pl pc = Inr n" "0 \<le> c" "0 < pl"
  shows "n * pl \<le> c + 2 * pl"
proof -
  have "n \<le> c div pl + 2"
    using assms by (auto simp: max_buffers_def bindE_eq_Inr i32_eq_Inr trunc_div_nonneg split: if_splits)
  then have "n * pl \<le> (c div pl + 2) * pl" using assms(3) by (simp add: mult_right_mono)
  also have "\<dots> = c div pl * pl + 2 * pl" by (simp add: algebra_simps)
  also have "\<dots> \<le> c + 2 * pl"
    using assms(3) by (simp add: minus_mod_eq_div_mult [symmetric])
  finally show ?thesis .
qed

section \<open>Growing the pool\<close>

text \<open>The state after a successful \<open>set_memory_size\<close>.\<close>

definition grown :: "int \<Rightarrow> int \<Rightarrow> ('b, 't) world \<Rightarrow> ('b, 't) world" where
  "grown s n w =
     w\<lparr>capacity := s, buffer_size := n, buffer_limit := n,
       buffers := buffers w @ map (\<lambda>k. empty_buffer (piece_length w) (int k)) [length (buffers w)..<nat n]\<rparr>"

lemma set_memory_size_grown:
  assumes "wf X w" "capacity w < s"
    "max_buffers s (piece_length w) (piece_count w) = Inr n" "buffer_size w \<le> n"
  shows "set_memory_size s w = Inr (grown s n w)"
proof -
  have len: "int (length (buffers w)) = buffer_size w" "0 < piece_length w"
    using wf_shape(5,8) [OF assms(1)] by auto
  then have "nat (buffer_size w) = length (buffers w)" "0 \<le> buffer_size w" by linarith+
  moreover have "[length (buffers w)..<nat n] = []" if "n = buffer_size w" using that len by auto
  ultimately show ?thesis
    using assms len by (auto simp: set_memory_size_def resize_pool_def grown_def push_buffers_eq Let_def)
qed

lemma wf_grown:
  assumes "wf X w" "buffer_size w \<le> n" "n \<le> piece_count w"
  shows "wf X (grown s n w)"
proof -
  let ?new = "map (\<lambda>k. empty_buffer (piece_length w) (int k)) [length (buffers w)..<nat n]"
  have len: "int (length (buffers w)) = buffer_size w" "0 < piece_length w"
    using wf_shape(5,8) [OF assms(1)] by auto
  then have n: "length (buffers w) \<le> nat n" "int (nat n) = n" using assms(2) by linarith+
  have "shape_ok X (grown s n w)"
    using assms n by (simp add: wf_def shape_ok_def grown_def)
  moreover have "buffer_ok (piece_length w) (int j) ((buffers w @ ?new) ! j)" if "j < nat n" for j
    using that wf_buffer [OF assms(1)] len(2) by (auto simp: nth_append)
  moreover have "link_ok (pieces w) (buffers w @ ?new)"
  proof (rule link_okI)
    fix i assume "i < length (pieces w)" "mp_bi (pieces w ! i) \<noteq> -1"
    then have "0 \<le> mp_bi (pieces w ! i) \<and> mp_bi (pieces w ! i) < int (length (buffers w)) \<and>
        mb_pi (buffers w ! nat (mp_bi (pieces w ! i))) = int i"
      by (rule link_okD1 [OF wf_link [OF assms(1)]])
    then show "0 \<le> mp_bi (pieces w ! i) \<and> mp_bi (pieces w ! i) < int (length (buffers w @ ?new)) \<and>
        mb_pi ((buffers w @ ?new) ! nat (mp_bi (pieces w ! i))) = int i"
      by (auto simp: nth_append nat_less_iff)
  next
    fix j assume j: "j < length (buffers w @ ?new)" "mb_pi ((buffers w @ ?new) ! j) \<noteq> -1"
    then have "j < length (buffers w)"
      by (rule_tac ccontr) (simp add: nth_append empty_buffer_def)
    then show "0 \<le> mb_pi ((buffers w @ ?new) ! j) \<and>
        mb_pi ((buffers w @ ?new) ! j) < int (length (pieces w)) \<and>
        mp_bi (pieces w ! nat (mb_pi ((buffers w @ ?new) ! j))) = int j"
      using j link_okD2 [OF wf_link [OF assms(1)], of j] by (simp add: nth_append)
  qed
  ultimately show ?thesis
    using assms(1) n by (simp add: wf_def grown_def)
qed

lemma lent_grown:
  "count_if (lent X r v) (buffers (grown s n w)) = count_if (lent X r v) (buffers w)"
proof -
  have "count_if (lent X r v) (map (\<lambda>k. empty_buffer (piece_length w) (int k)) ks) = 0" for ks
    by (rule count_if_none) (simp add: empty_buffer_def lent_def)
  then show ?thesis by (simp add: grown_def)
qed

section \<open>Marking pieces\<close>

lemma set_bits_size:
  assumes "bitset_laws X" "set_bits X b ps = Inr b'"
  shows "bs_size X b' = bs_size X b"
  using assms(2)
proof (induction ps arbitrary: b)
  case Nil
  then show ?case by simp
next
  case (Cons p ps)
  then obtain "0 \<le> p" "nat p < bs_size X b" "set_bits X (bs_set X b (nat p)) ps = Inr b'"
    by (auto simp: bindE_eq_Inr bit_set_def split: if_splits)
  then show ?case using Cons.IH assms(1) by (simp add: bitset_laws_def)
qed

lemma reserve_bits_spec:
  assumes "bitset_laws X" "reserve_bits X b n ps = Inr (b', n')"
  shows "bs_size X b' = bs_size X b \<and> n' = n + int (length ps) \<and>
    (\<forall>p\<in>set ps. 0 \<le> p \<and> p < int (bs_size X b)) \<and>
    (\<forall>i < bs_size X b. bs_test X b' i = (int i \<in> set ps \<or> bs_test X b i))"
  using assms(2)
proof (induction ps arbitrary: b n)
  case Nil
  then show ?case by simp
next
  case (Cons p ps)
  then obtain p: "0 \<le> p" "nat p < bs_size X b"
    and r: "reserve_bits X (bs_set X b (nat p)) (n + 1) ps = Inr (b', n')"
    by (auto simp: bindE_eq_Inr bit_set_def i32_eq_Inr split: if_splits)
  have sz: "bs_size X (bs_set X b (nat p)) = bs_size X b"
    and tst: "\<And>i. i < bs_size X b \<Longrightarrow> bs_test X (bs_set X b (nat p)) i = (i = nat p \<or> bs_test X b i)"
    using assms(1) p by (simp_all add: bitset_laws_def)
  show ?case using Cons.IH [OF r] sz tst p by auto
qed

lemma reserve_bits_total:
  assumes X: "bitset_laws X" and ps: "\<forall>p\<in>set ps. 0 \<le> p \<and> p < int (bs_size X b)"
    and n: "0 \<le> n" "n + int (length ps) \<le> INT_MAX"
  shows "\<exists>r. reserve_bits X b n ps = Inr r"
  using ps n
proof (induction ps arbitrary: b n)
  case Nil
  then show ?case by simp
next
  case (Cons p ps)
  have "bs_size X (bs_set X b (nat p)) = bs_size X b"
    using X Cons.prems by (simp add: bitset_laws_def nat_less_iff)
  then have "\<exists>r. reserve_bits X (bs_set X b (nat p)) (n + 1) ps = Inr r"
    using Cons.IH [of "bs_set X b (nat p)" "n + 1"] Cons.prems by auto
  moreover have "i32 (n + 1) = Inr (n + 1)" using Cons.prems by (intro i32_nonneg) auto
  ultimately show ?case using Cons.prems by (simp add: bit_set_def nat_less_iff)
qed

end
