(* ===== verification/Client.thy ===== *)
theory Client
  imports Runs Write_Path Admin
begin

text \<open>
  Everything a client can do with a storage, as one step function over calls, and the two
  invariants over runs of calls: \<open>safe\<close>, which no call can break, and \<open>trim_inv\<close>, which
  holds as long as calls respect the accounting of lent buffers.
\<close>

section \<open>The calls\<close>

datatype 't call =
    Set_torrent_handle ptr
  | Set_memory_size int
  | Read "byte list" int int int
  | Readv "iovec_t list" int int
  | Writev "iovec_t list" int int
  | Update_reader_pieces "int list"
  | Update_reserved_pieces "int list"
  | Remove_piece int
  | Trim int
  | Enable_logging
  | Disable_logging
  | Torrent_moves 't
  | Handle_deleted
  | Torrent_removed

definition drop_result :: "ub + 'r \<times> 'b \<times> 'w \<Rightarrow> ub + 'w" where
  "drop_result m = bindE m (\<lambda>(_, _, w). Inr w)"

text \<open>
  \<open>Torrent_moves\<close> is libtorrent changing the state of the torrent between two calls, priorities
  included; \<open>Handle_deleted\<close> and \<open>Torrent_removed\<close> are the client deleting the handle object it
  gave to \<open>set_torrent_handle\<close> and libtorrent destroying the torrent: the storage owns neither and
  keeps both pointers.
\<close>

fun exec :: "('b, 't) ext \<Rightarrow> 't call \<Rightarrow> ('b, 't) world \<Rightarrow> (ub + ('b, 't) world) option" where
  "exec X (Set_torrent_handle h) w = Some (set_torrent_handle X h w)"
| "exec X (Set_memory_size s) w = Some (set_memory_size s w)"
| "exec X (Read buf sz piece offset) w = Some (drop_result (read X buf sz piece offset w))"
| "exec X (Readv bufs piece offset) w = Some (drop_result (readv X bufs piece offset w))"
| "exec X (Writev bufs piece offset) w =
     map_option (\<lambda>m. bindE m (\<lambda>(_, w). Inr w)) (writev X bufs piece offset w)"
| "exec X (Update_reader_pieces ps) w = Some (update_reader_pieces X ps w)"
| "exec X (Update_reserved_pieces ps) w = Some (update_reserved_pieces X ps w)"
| "exec X (Remove_piece bi) w = Some (remove_piece X bi w)"
| "exec X (Trim pi) w = trim X pi w"
| "exec X Enable_logging w = Some (Inr (enable_logging w))"
| "exec X Disable_logging w = Some (Inr (disable_logging w))"
| "exec X (Torrent_moves t) w = Some (Inr (w\<lparr>torrent := t\<rparr>))"
| "exec X Handle_deleted w = Some (Inr (w\<lparr>m_handle := gone (m_handle w)\<rparr>))"
| "exec X Torrent_removed w = Some (Inr (w\<lparr>m_t := gone (m_t w)\<rparr>))"

section \<open>No call breaks the safe invariant\<close>

lemma set_torrent_handle_InrD:
  "set_torrent_handle X h w = Inr w' \<Longrightarrow>
     h = Valid \<and> (\<exists>p. p \<in> {Null, Valid} \<and> w' = w\<lparr>m_handle := Valid, m_t := p\<rparr>)"
  by (auto simp: set_torrent_handle_def follow_def Let_def bindE_eq_Inr split: ptr.splits if_splits)

lemma safe_set_torrent_handle: "safe X w \<Longrightarrow> set_torrent_handle X h w = Inr w' \<Longrightarrow> safe X w'"
  using set_torrent_handle_InrD [of X h w w'] by auto

text \<open>A successful change of the memory size keeps the state or grows the pool.\<close>

lemma set_memory_size_InrD:
  assumes "safe X w" "set_memory_size s w = Inr w'"
  shows "(s \<le> capacity w \<and> w' = w) \<or>
    (\<exists>n. capacity w < s \<and> max_buffers s (piece_length w) (piece_count w) = Inr n \<and>
       buffer_size w \<le> n \<and> n \<le> piece_count w \<and> w' = grown s n w)"
proof (cases "s \<le> capacity w")
  case True
  then show ?thesis using assms(2) by (simp add: set_memory_size_def)
next
  case False
  have w: "wf X w" "sized w" using assms(1) by (auto simp: safe_def)
  obtain n where n: "max_buffers s (piece_length w) (piece_count w) = Inr n"
    using assms(2) False by (auto simp: set_memory_size_def resize_pool_def bindE_eq_Inr Let_def)
  have "buffer_size w \<le> n"
    using max_buffers_mono [OF _ n, of "capacity w" "buffer_size w"] w False wf_shape(5) [OF w(1)]
    by (simp add: sized_def)
  moreover have "set_memory_size s w = Inr (grown s n w)"
    using set_memory_size_grown [OF w(1) _ n] False calculation by simp
  ultimately show ?thesis using False n max_buffers_le [OF n] assms(2) by auto
qed

lemma safe_set_memory_size:
  assumes "safe X w" "set_memory_size s w = Inr w'"
  shows "safe X w'"
  using set_memory_size_InrD [OF assms] assms(1) wf_grown [of X w]
  by (auto simp: safe_def grown_def sized_def never_completed_def)

lemma safe_update_reader:
  assumes "bitset_laws X" "safe X w" "update_reader_pieces X ps w = Inr w'"
  shows "safe X w'"
proof -
  obtain b where b: "set_bits X (bs_reset X (reader_pieces w)) ps = Inr b" "w' = w\<lparr>reader_pieces := b\<rparr>"
    using assms(2,3) wf_shape(1) [of X w] by (auto simp: update_reader_pieces_def bindE_eq_Inr safe_def)
  have "bs_size X b = bs_size X (reader_pieces w)"
    using set_bits_size [OF assms(1) b(1)] assms(1) by (simp add: bitset_laws_def)
  then show ?thesis
    using assms(2) b(2) by (simp add: safe_def wf_def shape_ok_def never_completed_def sized_def)
qed

lemma update_reserved_InrD:
  assumes "bitset_laws X" "safe X w" "update_reserved_pieces X ps w = Inr w'"
  shows "\<exists>b. w' = w\<lparr>reserved_pieces := b, buffer_reserved := int (length ps)\<rparr> \<and>
    bs_size X b = bs_size X (reserved_pieces w) \<and>
    (\<forall>i < bs_size X b. bs_test X b i = (int i \<in> set ps))"
proof -
  let ?r = "bs_reset X (reserved_pieces w)"
  obtain b n where b: "reserve_bits X ?r 0 ps = Inr (b, n)"
    "w' = w\<lparr>reserved_pieces := b, buffer_reserved := n\<rparr>"
    using assms(2,3) wf_shape(1) [of X w] by (auto simp: update_reserved_pieces_def bindE_eq_Inr safe_def)
  have "bs_size X ?r = bs_size X (reserved_pieces w)"
    "\<And>i. i < bs_size X ?r \<Longrightarrow> \<not> bs_test X ?r i"
    using assms(1) by (simp_all add: bitset_laws_def)
  then show ?thesis using reserve_bits_spec [OF assms(1) b(1)] b(2) by auto
qed

lemma safe_update_reserved:
  assumes "bitset_laws X" "safe X w" "update_reserved_pieces X ps w = Inr w'"
  shows "safe X w'"
  using update_reserved_InrD [OF assms] assms(2)
  by (auto simp: safe_def wf_def shape_ok_def never_completed_def sized_def)

lemma remove_piece_range: "remove_piece X bi w = Inr w' \<Longrightarrow> \<exists>j < length (buffers w). bi = int j"
  by (auto simp: remove_piece_def bindE_eq_Inr vec_at_eq_Inr intro!: exI [of _ "nat bi"])

lemma safe_remove_any:
  assumes "safe X w" "remove_piece X bi w = Inr w'"
  shows "safe X w'"
proof -
  obtain j where j: "j < length (buffers w)" "bi = int j" using remove_piece_range [OF assms(2)] by blast
  have wf: "wf X w" using assms(1) by (simp add: safe_def)
  show ?thesis
  proof (cases "mb_is_used (buffers w ! j)")
    case True
    then show ?thesis using safe_remove_piece [OF assms(1) j(1)] assms(2) j(2) by blast
  next
    case False
    let ?v = "w\<lparr>ticks := Suc (ticks w)\<rparr>"
    let ?b = "buffer_reset (Some (clock w (ticks w))) (buffers w ! j)"
    have bj: "buffer_ok (piece_length w) (int j) (buffers w ! j)" by (rule wf_buffer [OF wf j(1)])
    then have pi: "mb_pi (buffers w ! j) = -1" using False by (simp add: buffer_ok_def)
    have "buffer_ok (piece_length w) (int j) ?b" using bj by (auto simp: buffer_ok_def buffer_reset_def)
    then have "wf X (?v\<lparr>buffers := (buffers ?v)[j := ?b]\<rparr>)"
      using wf pi by (intro wf_upd_buffer) (simp_all add: buffer_reset_def)
    moreover have "w' = (?v\<lparr>buffers := (buffers ?v)[j := ?b]\<rparr>)\<lparr>buffer_used := buffer_used w - 1\<rparr>"
      using assms(2) j pi by (auto simp: remove_piece_def now_def Let_def bindE_eq_Inr i32_eq_Inr)
    ultimately show ?thesis using assms(1) by (simp add: safe_def never_completed_def sized_def)
  qed
qed

lemma exec_safe:
  assumes "bitset_laws X" "safe X w" "exec X c w = Some (Inr w')"
  shows "safe X w'"
  using assms
  by (cases c)
    (auto simp: drop_result_def bindE_eq_Inr enable_logging_def disable_logging_def
      dest: safe_set_torrent_handle safe_set_memory_size safe_read safe_readv safe_writev
        safe_update_reader safe_update_reserved safe_remove_any safe_trim)

interpretation exec_any: keeps_invariant "\<lambda>w. bitset_laws X \<and> safe X w" "\<lambda>_ _. True" "exec X" for X
  by unfold_locales (auto intro: exec_safe)

inductive reachable :: "('b, 't) ext \<Rightarrow> ('b, 't) world \<Rightarrow> bool" for X where
  created: "new_memory_storage X mem ti = Inr s \<Longrightarrow> info_ok ti \<Longrightarrow> 0 \<le> mem \<Longrightarrow>
     reachable X (in_world s t c)"
| called: "reachable X w \<Longrightarrow> exec X call w = Some (Inr w') \<Longrightarrow> reachable X w'"

lemma created_safe:
  assumes "bitset_laws X" "new_memory_storage X mem ti = Inr s" "info_ok ti" "0 \<le> mem"
  shows "safe X (in_world s t c)" "acct X (in_world s t c)"
proof -
  have p: "0 < ti_piece_length ti" "0 \<le> ti_num_pieces ti" using assms(3) by (auto simp: info_ok_def)
  note b = constructed_bound [OF assms(2-4)]
  have "0 \<le> mem div ti_piece_length ti" using p assms(4) by (simp add: pos_imp_zdiv_nonneg_iff)
  then have mb: "max_buffers mem (ti_piece_length ti) (ti_num_pieces ti) =
      Inr (min (ti_num_pieces ti) (mem div ti_piece_length ti + 2))"
    using p b assms(4) by (simp add: max_buffers_def trunc_div_nonneg i32_nonneg min_def)
  note eq = new_memory_storage_eq [OF assms(3,4) b, of X]
  have "wf X (in_world s t c) \<and> acct X (in_world s t c)"
    using constructor_wf [OF assms(1,3,4) b] assms(2) by auto
  moreover have "never_completed (in_world s t c)"
    using eq assms(2) by (auto simp: never_completed_def new_memory_piece_def)
  moreover have "sized (in_world s t c)" using eq assms(2,4) mb by (auto simp: sized_def)
  ultimately show "safe X (in_world s t c)" "acct X (in_world s t c)" by (simp_all add: safe_def)
qed

lemma reachable_safe:
  assumes "bitset_laws X" "reachable X w"
  shows "safe X w"
  using assms(2)
  by (induction rule: reachable.induct) (auto intro: created_safe exec_safe assms(1))

section \<open>Calls that respect the accounting\<close>

definition reserved_lent :: "('b, 't) ext \<Rightarrow> ('b, 't) world \<Rightarrow> int" where
  "reserved_lent X w = count_if (lent X (reserved_pieces w) True) (buffers w)"

text \<open>
  The memory size may change while no buffer is lent to a reserved piece; the reserved range
  may change as long as no piece in a buffer gains or loses its reservation; a buffer removed
  by hand must hold an ordinary piece.
\<close>

fun benign :: "('b, 't) ext \<Rightarrow> 't call \<Rightarrow> ('b, 't) world \<Rightarrow> bool" where
  "benign X (Set_memory_size s) w = (s \<le> capacity w \<or> reserved_lent X w = 0)"
| "benign X (Update_reserved_pieces ps) w =
     (\<forall>b\<in>set (buffers w). mb_is_used b \<longrightarrow>
        (mb_pi b \<in> set ps) = bs_test X (reserved_pieces w) (nat (mb_pi b)))"
| "benign X (Remove_piece bi) w =
     (\<forall>j < length (buffers w). bi = int j \<longrightarrow> mb_is_used (buffers w ! j) \<and>
        \<not> bs_test X (reserved_pieces w) (nat (mb_pi (buffers w ! j))))"
| "benign X Handle_deleted w = False"
| "benign X Torrent_removed w = False"
| "benign X _ w = True"

definition orderly :: "('b, 't) ext \<Rightarrow> ('b, 't) world \<Rightarrow> bool" where
  "orderly X w \<longleftrightarrow> bitset_laws X \<and> safe X w \<and> trim_inv X w"

lemma orderlyD:
  "orderly X w \<Longrightarrow> wf X w" "orderly X w \<Longrightarrow> acct X w" "orderly X w \<Longrightarrow> handle_ok w"
  "orderly X w \<Longrightarrow> safe X w" "orderly X w \<Longrightarrow> trim_inv X w" "orderly X w \<Longrightarrow> bitset_laws X"
  by (auto simp: orderly_def trim_inv_def)

lemma constructed_orderly:
  assumes X: "bitset_laws X" and s: "new_memory_storage X mem ti = Inr s" and ti: "info_ok ti" and mem: "0 \<le> mem"
    and h: "set_torrent_handle X Valid (in_world s t c) = Inr w"
  shows "orderly X w"
proof -
  note v = created_safe [OF X s ti mem, of t c]
  obtain p where w: "w = (in_world s t c)\<lparr>m_handle := Valid, m_t := p\<rparr>" "p \<in> {Null, Valid}"
    using set_torrent_handle_InrD [OF h] by auto
  have "safe X w" using v unfolding w(1) by (auto intro: safe_frame)
  moreover have "handle_ok w" using w(2) by (simp add: w(1) handle_ok_def)
  ultimately show ?thesis using X v by (simp add: orderly_def trim_inv_def safe_def w(1))
qed

lemma grown_acct:
  "acct X w \<Longrightarrow> reserved_lent X w = 0 \<Longrightarrow> acct X (grown s n w)"
  using lent_grown [of X "reserved_pieces w" _ s n w]
  by (simp add: acct_def reserved_lent_def grown_def)

lemma trim_inv_touch:
  assumes "trim_inv X w" "k < length (pieces w)" "is_buffered (pieces w ! k)" "touch (int k) w = Inr w'"
  shows "trim_inv X w'"
  using assms touch_eq [of X w k] touched_wf [of X w k] by (auto simp: trim_inv_def handle_ok_def)

lemma trim_inv_frame [simp]:
  "trim_inv X (w\<lparr>torrent := t\<rparr>) = trim_inv X w"
  "trim_inv X (w\<lparr>is_reading := f\<rparr>) = trim_inv X w" "trim_inv X (w\<lparr>is_logging := f\<rparr>) = trim_inv X w"
  by (simp_all add: trim_inv_def handle_ok_def)

lemma trim_inv_read:
  assumes s: "safe X w" and inv: "trim_inv X w" and r: "read X buf sz piece off w = Inr (n, buf', w')"
  shows "trim_inv X w'"
proof -
  let ?w = "w\<lparr>is_reading := True\<rparr>"
  have init: "is_initialized w" using s wf_shape(1) by (auto simp: safe_def)
  obtain k where k: "k < length (pieces w)" "piece = int k"
    using r init get_buffer_range [of X piece False ?w]
    by (auto simp: read_def bindE_eq_Inr get_read_buffer_def Let_def)
  show ?thesis
  proof (cases "is_buffered (pieces w ! k) \<and> mp_length (pieces w ! k) \<le> mp_size (pieces w ! k)")
    case False
    then obtain v where "restore_piece X (int k) ?w = Inr v" "w' = v"
      using r k read_refused [OF s k(1) False] by (auto simp: bindE_eq_Inr)
    then show ?thesis using inv by (auto elim!: restore_piece_InrE)
  next
    case True
    have nc: "never_completed ?w" using s by (simp add: safe_def never_completed_def)
    from True r init k have "w' = ?w \<or> touch (int k) ?w = Inr w'"
      by (auto simp: read_def get_read_buffer_eq Let_def bindE_eq_Inr
          mark_read_never [OF nc] split: if_splits)
    then show ?thesis using inv trim_inv_touch [of X ?w k w'] True k by auto
  qed
qed

lemma trim_inv_readv:
  assumes s: "safe X w" and inv: "trim_inv X w" and r: "readv X bufs piece off w = Inr (n, bufs', w')"
  shows "trim_inv X w'"
proof -
  have init: "is_initialized w" and nc: "never_completed w" using s wf_shape(1) by (auto simp: safe_def)
  obtain k where k: "k < length (pieces w)" "piece = int k"
    using r init get_buffer_range [of X piece False w]
    by (auto simp: readv_def bindE_eq_Inr get_read_buffer_def)
  show ?thesis
  proof (cases "is_buffered (pieces w ! k)")
    case False
    then show ?thesis using r k readv_unbuffered [OF s k(1)] inv by simp
  next
    case True
    then have "touch (int k) w = Inr w'"
      using r k init nc by (auto simp: readv_def get_read_buffer_eq bindE_eq_Inr mark_read_never)
    then show ?thesis using trim_inv_touch [OF inv k(1) True] by blast
  qed
qed

lemma trim_inv_writev:
  assumes inv: "trim_inv X w" and r: "writev X bufs piece off w = Some (Inr (n, w'))"
  shows "trim_inv X w'"
proof -
  have wf: "wf X w" using inv by (simp add: trim_inv_def)
  have init: "is_initialized w" using wf_shape(1) [OF wf] .
  obtain ok w1 where g: "get_buffer X piece True w = Inr (ok, w1)"
    using r init by (auto simp: writev_def get_write_buffer_def split: sum.splits)
  obtain k where k: "k < length (pieces w)" "piece = int k" using get_buffer_range [OF g] by blast
  have i1: "trim_inv X w1" using trim_inv_get_buffer [OF inv k(1)] g k(2) by blast
  show ?thesis
  proof (cases ok)
    case False
    then show ?thesis using r init g i1 by (auto simp: writev_def get_write_buffer_def)
  next
    case True
    have adm: "admitted X k w w1" using get_buffer_admitted [OF wf k(1), of True w1] g True k(2) by simp
    note f = admitted_facts [OF wf k(1) adm]
    have k1: "k < length (pieces w1)" using k(1) f(4) by simp
    have w1: "wf X w1" "acct X w1" "handle_ok w1" using i1 by (auto simp: trim_inv_def)
    obtain m w2 where st: "writev_store X bufs piece off w1 = Inr (m, w2)"
      using r init g True by (auto simp: writev_def get_write_buffer_def split: sum.splits)
    have "handle_ok w2"
      using st w1(3) by (auto simp: writev_store_def touch_def now_def Let_def bindE_eq_Inr handle_ok_def)
    then have i2: "trim_inv X w2"
      using writev_store_InrD [OF w1(1) k1 f(1)] st k(2) w1(2) by (auto simp: trim_inv_def)
    show ?thesis
      using r init g True st i2 trim_returns [OF i2]
      by (auto simp: writev_def get_write_buffer_def bindE_eq_Inr split: if_splits)
  qed
qed

text \<open>A range that agrees with the old one on every piece in a buffer counts the same.\<close>

lemma lent_same_range:
  assumes wf: "wf X w" and g: "benign X (Update_reserved_pieces ps) w"
    and b: "bs_size X b = bs_size X (reserved_pieces w)" "\<forall>i < bs_size X b. bs_test X b i = (int i \<in> set ps)"
    and x: "x \<in> set (buffers w)"
  shows "lent X b v x = lent X (reserved_pieces w) v x"
proof (cases "mb_is_used x")
  case False
  then show ?thesis by simp
next
  case True
  obtain j where j: "j < length (buffers w)" "x = buffers w ! j" using x by (auto simp: in_set_conv_nth)
  have pi: "0 \<le> mb_pi x" "mb_pi x < piece_count w" using wf_buffer_piece [OF wf j(1)] True j(2) by auto
  then have "nat (mb_pi x) < bs_size X b" using b(1) wf_shape(10) [OF wf] by simp
  then have "bs_test X b (nat (mb_pi x)) = (mb_pi x \<in> set ps)" using b(2) pi(1) by simp
  then show ?thesis using g x True by (simp add: lent_def)
qed

lemma trim_inv_update_reserved:
  assumes o: "orderly X w" and g: "benign X (Update_reserved_pieces ps) w"
    and r: "update_reserved_pieces X ps w = Inr w'"
  shows "trim_inv X w'"
proof -
  note w = orderlyD [OF o]
  obtain b where b: "w' = w\<lparr>reserved_pieces := b, buffer_reserved := int (length ps)\<rparr>"
    "bs_size X b = bs_size X (reserved_pieces w)"
    "\<forall>i < bs_size X b. bs_test X b i = (int i \<in> set ps)"
    using update_reserved_InrD [OF w(6,4) r] by blast
  have "count_if (lent X b v) (buffers w) = count_if (lent X (reserved_pieces w) v) (buffers w)" for v
    by (rule count_if_cong) (rule lent_same_range [OF w(1) g b(2,3)])
  then have "acct X w'" using w(2) b(1) by (simp add: acct_def)
  moreover have "wf X w'" using safe_update_reserved [OF w(6,4) r] by (simp add: safe_def)
  ultimately show ?thesis using w(3) b(1) by (simp add: trim_inv_def handle_ok_def)
qed

lemma trim_inv_remove:
  assumes o: "orderly X w" and g: "benign X (Remove_piece bi) w" and r: "remove_piece X bi w = Inr w'"
  shows "trim_inv X w'"
proof -
  note w = orderlyD [OF o]
  obtain j where j: "j < length (buffers w)" "bi = int j" using remove_piece_range [OF r] by blast
  then have u: "mb_is_used (buffers w ! j)"
    "\<not> bs_test X (reserved_pieces w) (nat (mb_pi (buffers w ! j)))" using g by auto
  define k where "k = nat (mb_pi (buffers w ! j))"
  have k: "mb_pi (buffers w ! j) = int k" using wf_buffer_piece(1) [OF w(1) j(1) u(1)] by (simp add: k_def)
  obtain t where w': "w' = (freed j k w)\<lparr>torrent := t\<rparr>"
    using remove_piece_InrE [OF w(1) j(1) u(1)] r j(2) unfolding k_def by blast
  show ?thesis
    using wf_freed [OF w(1) j(1) u(1) k] acct_freed [OF w(2) j(1) u, of k] w(3)
    by (simp add: w' trim_inv_def handle_ok_def)
qed

lemma trim_inv_set_memory_size:
  assumes o: "orderly X w" and g: "benign X (Set_memory_size s) w" and r: "set_memory_size s w = Inr w'"
  shows "trim_inv X w'"
proof -
  note w = orderlyD [OF o]
  from set_memory_size_InrD [OF w(4) r] consider "w' = w"
    | n where "capacity w < s" "buffer_size w \<le> n" "n \<le> piece_count w" "w' = grown s n w" by auto
  then show ?thesis
  proof cases
    case 1
    then show ?thesis using w(5) by simp
  next
    case 2
    then have "acct X w'" using g w(2) grown_acct by auto
    then show ?thesis using wf_grown [OF w(1) 2(2,3)] 2(4) w(3)
      by (simp add: trim_inv_def handle_ok_def grown_def)
  qed
qed

lemma trim_inv_set_handle:
  assumes o: "orderly X w" and r: "set_torrent_handle X h w = Inr w'"
  shows "trim_inv X w'"
  using set_torrent_handle_InrD [OF r] orderlyD [OF o] by (auto simp: trim_inv_def handle_ok_def)

lemma trim_inv_update_reader:
  assumes o: "orderly X w" and r: "update_reader_pieces X ps w = Inr w'"
  shows "trim_inv X w'"
proof -
  note w = orderlyD [OF o]
  obtain b where "w' = w\<lparr>reader_pieces := b\<rparr>"
    using r wf_shape(1) [OF w(1)] by (auto simp: update_reader_pieces_def bindE_eq_Inr)
  then show ?thesis
    using safe_update_reader [OF w(6,4) r] w(2,3)
    by (simp add: trim_inv_def safe_def acct_def handle_ok_def)
qed

lemma trim_inv_trim: "orderly X w \<Longrightarrow> trim X pi w = Some (Inr w') \<Longrightarrow> trim_inv X w'"
  using trim_returns [of X w pi "Inr w'"] orderlyD(5) [of X w] by auto

lemma exec_orderly:
  assumes "orderly X w" "benign X c w" "exec X c w = Some (Inr w')"
  shows "orderly X w'"
proof -
  note w = orderlyD [OF assms(1)]
  have "safe X w'" by (rule exec_safe [OF w(6,4) assms(3)])
  moreover have "trim_inv X w'"
  proof (cases c)
    case (Set_torrent_handle h)
    then show ?thesis using trim_inv_set_handle [OF assms(1)] assms(3) by simp
  next
    case (Set_memory_size s)
    then show ?thesis using trim_inv_set_memory_size [OF assms(1)] assms(2,3) by simp
  next
    case (Read buf sz piece off)
    then show ?thesis using trim_inv_read [OF w(4,5)] assms(3) by (auto simp: drop_result_def bindE_eq_Inr)
  next
    case (Readv bufs piece off)
    then show ?thesis using trim_inv_readv [OF w(4,5)] assms(3) by (auto simp: drop_result_def bindE_eq_Inr)
  next
    case (Writev bufs piece off)
    then show ?thesis using trim_inv_writev [OF w(5)] assms(3) by (auto simp: bindE_eq_Inr)
  next
    case (Update_reader_pieces ps)
    then show ?thesis using trim_inv_update_reader [OF assms(1)] assms(3) by simp
  next
    case (Update_reserved_pieces ps)
    then show ?thesis using trim_inv_update_reserved [OF assms(1)] assms(2,3) by simp
  next
    case (Remove_piece bi)
    then show ?thesis using trim_inv_remove [OF assms(1)] assms(2,3) by simp
  next
    case (Trim pi)
    then show ?thesis using trim_inv_trim [OF assms(1)] assms(3) by simp
  qed (use w(5) assms(2,3) in \<open>auto simp: enable_logging_def disable_logging_def\<close>)
  ultimately show ?thesis using w(6) by (simp add: orderly_def)
qed

interpretation exec_benign: keeps_invariant "orderly X" "benign X" "exec X" for X
  by unfold_locales (rule exec_orderly)

end
