(* ===== verification/Cache_Spec.thy ===== *)
theory Cache_Spec
  imports Client
begin

text \<open>
  What the storage promises, without buffers: a cache from pieces to their bytes. A write
  stores bytes into one piece and may drop ordinary pieces other than that one; a read returns
  bytes and drops nothing. The operations of the model refine these.
\<close>

section \<open>The abstract cache\<close>

type_synonym cache = "nat \<rightharpoonup> byte list"

definition cached :: "('b, 't) world \<Rightarrow> cache" where
  "cached w = (\<lambda>k. if k < length (pieces w) \<and> is_buffered (pieces w ! k)
                   then Some (piece_data w k) else None)"

text \<open>Storing bytes into a piece: into what the cache has of it, or into zeros.\<close>

definition cache_put :: "nat \<Rightarrow> nat \<Rightarrow> nat \<Rightarrow> byte list \<Rightarrow> cache \<Rightarrow> cache" where
  "cache_put plen k off bs c =
     c(k \<mapsto> patch (case c k of Some d \<Rightarrow> d | None \<Rightarrow> replicate plen 0) off bs)"

definition cache_drops :: "nat set \<Rightarrow> nat \<Rightarrow> cache \<Rightarrow> cache \<Rightarrow> bool" where
  "cache_drops keep k c c' \<longleftrightarrow> (\<exists>E. k \<notin> E \<and> E \<inter> keep = {} \<and> c' = c |` (- E))"

definition reserved_set :: "('b, 't) ext \<Rightarrow> ('b, 't) world \<Rightarrow> nat set" where
  "reserved_set X w = {i. i < length (pieces w) \<and> bs_test X (reserved_pieces w) i}"

lemma cached_Some: "cached w k = Some d \<longleftrightarrow> k < length (pieces w) \<and> is_buffered (pieces w ! k) \<and> d = piece_data w k"
  by (auto simp: cached_def)

section \<open>Evicting refines dropping\<close>

lemma evicted_drops:
  assumes "evicted_from X (int k) w w'"
  shows "cache_drops (reserved_set X w) k (cached w) (cached w')"
proof -
  have len: "length (pieces w') = length (pieces w)"
    using assms by (simp add: evicted_from_def same_frame_def)
  define E where "E = {i. i < length (pieces w) \<and> is_buffered (pieces w ! i) \<and> \<not> is_buffered (pieces w' ! i)}"
  have c: "(pieces w' ! i = pieces w ! i \<and>
         (is_buffered (pieces w ! i) \<longrightarrow>
            buffers w' ! nat (mp_bi (pieces w ! i)) = buffers w ! nat (mp_bi (pieces w ! i)))) \<or>
        (int i \<noteq> int k \<and> \<not> bs_test X (reserved_pieces w) i \<and> is_buffered (pieces w ! i) \<and>
         pieces w' ! i = piece_reset (pieces w ! i))" if "i < length (pieces w)" for i
    using assms that unfolding evicted_from_def by blast
  have kE: "k \<notin> E" using c [of k] by (auto simp: E_def)
  have rE: "E \<inter> reserved_set X w = {}"
  proof (rule equals0I)
    fix i assume i: "i \<in> E \<inter> reserved_set X w"
    then show False using c [of i] by (auto simp: E_def reserved_set_def)
  qed
  have "cached w' i = (cached w |` (- E)) i" for i
  proof (cases "i < length (pieces w)")
    case False
    then show ?thesis using len by (simp add: cached_def restrict_map_def)
  next
    case True
    then show ?thesis
      using c [OF True] len by (auto simp: cached_def restrict_map_def E_def piece_data_def)
  qed
  then have "cached w' = cached w |` (- E)" by (rule ext)
  then show ?thesis using kE rE unfolding cache_drops_def by blast
qed

lemma cached_stored:
  assumes "wf X w" "k < length (pieces w)" "admitted X k w w1"
  shows "cached (stored k off bs w1) = cache_put (nat (piece_length w)) k off bs (cached w)"
proof
  fix i
  note f = admitted_facts [OF assms]
  have w1: "wf X w1"
  proof (cases "is_buffered (pieces w ! k)")
    case True
    then show ?thesis using assms by (simp add: admitted_def)
  next
    case False
    then show ?thesis
      using assms wf_assigned [of X w k] by (auto simp: admitted_def is_buffered_def)
  qed
  have k1: "k < length (pieces w1)" using assms(2) f(4) by simp
  show "cached (stored k off bs w1) i = cache_put (nat (piece_length w)) k off bs (cached w) i"
  proof (cases "i = k")
    case True
    have "is_buffered (pieces (stored k off bs w1) ! k)" using f(1) k1 by (simp add: is_buffered_def)
    then have "cached (stored k off bs w1) k = Some (patch (piece_data w1 k) off bs)"
      using k1 piece_data_stored [OF w1 k1 f(1)] by (simp add: cached_def)
    moreover have "piece_data w1 k =
        (case cached w k of Some d \<Rightarrow> d | None \<Rightarrow> replicate (nat (piece_length w)) 0)"
      using admitted_data [OF assms] assms(2) by (simp add: cached_def)
    ultimately show ?thesis using True by (simp add: cache_put_def)
  next
    case False
    have p: "pieces (stored k off bs w1) ! i = pieces w ! i" using f(9) False by simp
    show ?thesis
    proof (cases "i < length (pieces w) \<and> is_buffered (pieces w ! i)")
      case True
      then have "piece_data (stored k off bs w1) i = piece_data w i"
        using piece_data_stored_other [OF w1 k1 f(1)] admitted_data_other [OF assms] False f(4,9)
        by simp
      then show ?thesis using True p False f(4) by (simp add: cached_def cache_put_def)
    next
      case no: False
      then show ?thesis using p False f(4) by (auto simp: cached_def cache_put_def)
    qed
  qed
qed

lemma cached_touched [simp]: "cached (touched k w) = cached w"
  by (rule ext) (simp add: cached_def)

lemma cached_frame [simp]:
  "cached (w\<lparr>is_reading := f\<rparr>) = cached w" "cached (w\<lparr>torrent := t\<rparr>) = cached w"
  by (simp_all add: cached_def piece_data_def fun_eq_iff)

section \<open>A buffer for every write\<close>

lemma get_buffer_granted:
  assumes inv: "trim_inv X w" and k: "k < length (pieces w)"
    and spare: "buffer_used w < buffer_limit w"
    and want: "is_reading w \<longrightarrow> readered X w (int k)"
  shows "\<exists>w1. get_buffer X (int k) True w = Inr (True, w1)"
proof (cases "is_buffered (pieces w ! k)")
  case True
  then show ?thesis using k by (simp add: get_buffer_def)
next
  case False
  have w: "wf X w" "acct X w" "handle_ok w" using inv by (auto simp: trim_inv_def)
  have ix: "mp_index (pieces w ! k) = int k" using wf_piece [OF w(1) k] by (simp add: piece_ok_def)
  obtain j where j: "j < length (buffers w)" "\<not> mb_is_used (buffers w ! j)"
    using spare_buffer [OF w(1,2) spare] by blast
  note b = acct_bounds [OF w(1,2)]
  obtain i where i: "i < length (buffers w)"
    "get_buffer_loop X (int k) 0 w = assign_buffer X (int k) (int i) w"
    using get_buffer_loop_cases [OF w(1), of 0 "int k"] j by auto
  have "assign_buffer X (int k) (int i) w = Inr (assigned X k i w)"
    using b by (intro assign_buffer_eq [OF w(1) k i(1) refl]) (auto simp: INT_MAX_def INT_MIN_def)
  then have loop: "get_buffer_loop X (int k) 0 w = Inr (assigned X k i w)" using i(2) by simp
  have "is_buffered (pieces (assigned X k i w) ! k)" using k by (simp add: is_buffered_def)
  then show ?thesis
    using k False loop ix want is_readered_eq [OF w(1,3)]
    by (cases "is_reading w") (simp_all add: get_buffer_def)
qed

text \<open>A piece that the reader no longer wants is turned away while reading.\<close>

lemma get_buffer_unwanted:
  assumes inv: "trim_inv X w" and k: "k < length (pieces w)" "\<not> is_buffered (pieces w ! k)"
    and unwanted: "is_reading w" "\<not> readered X w (int k)"
  shows "\<exists>t. restore_piece X (int k) w = Inr (w\<lparr>torrent := t\<rparr>) \<and>
    get_buffer X (int k) True w = Inr (False, w\<lparr>torrent := t\<rparr>)"
proof -
  have w: "wf X w" "handle_ok w" using inv by (auto simp: trim_inv_def)
  have ix: "mp_index (pieces w ! k) = int k" using wf_piece [OF w(1) k(1)] by (simp add: piece_ok_def)
  obtain t where "restore_piece X (int k) w = Inr (w\<lparr>torrent := t\<rparr>)"
    using restore_piece_total [OF w(2)] by blast
  then show ?thesis
    using k unwanted ix is_readered_eq [OF w] by (intro exI [of _ t]) (simp add: get_buffer_def)
qed

end
