(* ===== verification/Survival.thy ===== *)
theory Survival
  imports Cache_Spec
begin

text \<open>
  Which calls leave a reserved piece in the cache: the effect of each call on one reserved
  piece, and the invariant of runs that never write it.
\<close>

section \<open>What each call leaves of a reserved piece\<close>

lemma evicted_reserved:
  assumes "evicted_from X pi w w'" "i \<in> reserved_set X w"
  shows "cached w' i = cached w i \<and> i \<in> reserved_set X w' \<and> pieces w' ! i = pieces w ! i"
proof -
  have i: "i < length (pieces w)" "bs_test X (reserved_pieces w) i"
    using assms(2) by (auto simp: reserved_set_def)
  have "pieces w' ! i = pieces w ! i" "is_buffered (pieces w ! i) \<longrightarrow>
      buffers w' ! nat (mp_bi (pieces w ! i)) = buffers w ! nat (mp_bi (pieces w ! i))"
    using assms(1) i unfolding evicted_from_def by auto
  then show ?thesis
    using assms(1) i by (auto simp: cached_def piece_data_def reserved_set_def evicted_from_def same_frame_def)
qed

lemma reserved_set_frame [simp]:
  "reserved_set X (w\<lparr>is_reading := f\<rparr>) = reserved_set X w"
  "reserved_set X (w\<lparr>torrent := t\<rparr>) = reserved_set X w"
  "reserved_set X (touched k w) = reserved_set X w"
  by (simp_all add: reserved_set_def)

lemma read_keeps_cache:
  assumes s: "safe X w" and r: "read X buf sz piece off w = Inr (n, buf', w')"
  shows "cached w' = cached w \<and> reserved_set X w' = reserved_set X w \<and> pieces w' = pieces w \<and>
    piece_length w' = piece_length w"
proof -
  let ?w = "w\<lparr>is_reading := True\<rparr>"
  have init: "is_initialized w" using s wf_shape(1) by (auto simp: safe_def)
  obtain k where k: "k < length (pieces w)" "piece = int k"
    using r init get_buffer_range [of X piece False ?w]
    by (auto simp: read_def bindE_eq_Inr get_read_buffer_def Let_def)
  show ?thesis
  proof (cases "is_buffered (pieces w ! k) \<and> mp_length (pieces w ! k) \<le> mp_size (pieces w ! k)")
    case False
    then have "restore_piece X (int k) ?w = Inr w'"
      using r k read_refused [OF s k(1) False] by (auto simp: bindE_eq_Inr)
    then show ?thesis by (auto elim!: restore_piece_InrE)
  next
    case True
    have nc: "never_completed ?w" and wf: "wf X ?w" using s by (simp_all add: safe_def never_completed_def)
    from True r init k have "w' = ?w \<or> touch (int k) ?w = Inr w'"
      by (auto simp: read_def get_read_buffer_eq Let_def bindE_eq_Inr
          mark_read_never [OF nc] split: if_splits)
    then show ?thesis using touch_eq [OF wf, of k] True k by auto
  qed
qed

lemma readv_keeps_cache:
  assumes s: "safe X w" and r: "readv X bufs piece off w = Inr (n, bufs', w')"
  shows "cached w' = cached w \<and> reserved_set X w' = reserved_set X w \<and> pieces w' = pieces w \<and>
    piece_length w' = piece_length w"
proof -
  have init: "is_initialized w" and nc: "never_completed w" and wf: "wf X w"
    using s wf_shape(1) by (auto simp: safe_def)
  obtain k where k: "k < length (pieces w)" "piece = int k"
    using r init get_buffer_range [of X piece False w]
    by (auto simp: readv_def bindE_eq_Inr get_read_buffer_def)
  show ?thesis
  proof (cases "is_buffered (pieces w ! k)")
    case False
    then show ?thesis using r k readv_unbuffered [OF s k(1)] by simp
  next
    case True
    then have "touch (int k) w = Inr w'"
      using r k init nc by (auto simp: readv_def get_read_buffer_eq bindE_eq_Inr mark_read_never)
    then show ?thesis using touch_eq [OF wf k(1) True] by auto
  qed
qed

lemma writev_keeps_reserved:
  assumes o: "orderly X w" and ok: "write_ok w i off bufs" and i: "i \<noteq> k"
    and k: "k \<in> reserved_set X w" "cached w k = Some d"
    and r: "writev X bufs (int i) off w = Some (Inr (n, w'))"
  shows "cached w' k = Some d \<and> k \<in> reserved_set X w' \<and> pieces w' ! k = pieces w ! k"
proof -
  note w = orderlyD [OF o]
  have len: "i < length (pieces w)" using ok by (simp add: write_ok_def)
  obtain ok1 w1 where g: "get_buffer X (int i) True w = Inr (ok1, w1)"
    using get_buffer_total [OF w(1,2,3) len] by blast
  show ?thesis
  proof (cases ok1)
    case False
    then have e: "w' = w1" using writev_refused [OF w(1), of i w1 bufs off] g r by simp
    show ?thesis
      using w(1) len g [unfolded e [symmetric]]
    proof (cases rule: get_buffer_InrE)
      case (lent j)
      then show ?thesis using False by simp
    qed (use k in simp_all)
  next
    case True
    then have g: "get_buffer X (int i) True w = Inr (True, w1)" using g by simp
    let ?bs = "accepted_bytes w i off bufs"
    let ?w2 = "stored i (nat off) ?bs w1"
    have ev: "evicted_from X (int i) ?w2 w'"
      using writev_result [OF w(5) ok g r] by auto
    note adm = writev_admitted(2) [OF w(5) ok g]
    have "k \<in> reserved_set X ?w2"
      using admitted_facts(4,8) [OF w(1) len adm] k(1) by (simp add: reserved_set_def)
    moreover have "cached ?w2 k = Some d"
      using cached_stored [OF w(1) len adm] i k(2) by (simp add: cache_put_def)
    moreover have "pieces ?w2 ! k = pieces w ! k" using admitted_facts(9) [OF w(1) len adm] i by simp
    ultimately show ?thesis using evicted_reserved [OF ev] by simp
  qed
qed

section \<open>Runs that leave a piece alone\<close>

text \<open>
  Calls that neither write the piece, nor change the reserved range, nor remove pieces by hand.
\<close>

fun leaves_alone :: "nat \<Rightarrow> ('b, 't) ext \<Rightarrow> 't call \<Rightarrow> ('b, 't) world \<Rightarrow> bool" where
  "leaves_alone k X (Writev bufs piece off) w =
     (0 \<le> piece \<and> nat piece \<noteq> k \<and> write_ok w (nat piece) off bufs)"
| "leaves_alone k X (Update_reserved_pieces ps) w = False"
| "leaves_alone k X (Remove_piece bi) w = False"
| "leaves_alone k X (Set_memory_size s) w = benign X (Set_memory_size s) w"
| "leaves_alone k X Handle_deleted w = False"
| "leaves_alone k X Torrent_removed w = False"
| "leaves_alone k X _ w = True"

definition pinned ::
  "nat \<Rightarrow> memory_piece \<Rightarrow> byte list \<Rightarrow> ('b, 't) ext \<Rightarrow> ('b, 't) world \<Rightarrow> bool" where
  "pinned k p d X w \<longleftrightarrow>
     orderly X w \<and> k \<in> reserved_set X w \<and> cached w k = Some d \<and> pieces w ! k = p"

lemma grown_keeps_cache:
  assumes "wf X w"
  shows "cached (grown s n w) = cached w" "reserved_set X (grown s n w) = reserved_set X w"
proof -
  have "piece_data (grown s n w) i = piece_data w i"
    if i: "i < length (pieces w)" "is_buffered (pieces w ! i)" for i
  proof -
    obtain j where "mp_bi (pieces w ! i) = int j" "j < length (buffers w)"
      by (rule buffered_index [OF assms i])
    then show ?thesis by (simp add: piece_data_def grown_def nth_append)
  qed
  then show "cached (grown s n w) = cached w" by (auto simp: cached_def grown_def fun_eq_iff)
  show "reserved_set X (grown s n w) = reserved_set X w" by (simp add: reserved_set_def grown_def)
qed

lemma exec_pinned:
  assumes p: "pinned k p d X w" and g: "leaves_alone k X c w" and r: "exec X c w = Some (Inr w')"
  shows "pinned k p d X w'"
proof -
  have o: "orderly X w" and k: "k \<in> reserved_set X w" "cached w k = Some d" and e: "pieces w ! k = p"
    using p by (auto simp: pinned_def)
  note w = orderlyD [OF o]
  have "benign X c w" using g by (cases c) simp_all
  then have o': "orderly X w'" using exec_orderly [OF o _ r] by blast
  have "k \<in> reserved_set X w' \<and> cached w' k = Some d \<and> pieces w' ! k = pieces w ! k"
  proof (cases c)
    case (Set_torrent_handle h)
    then obtain h' where "w' = w\<lparr>m_handle := Valid, m_t := h'\<rparr>"
      using r set_torrent_handle_InrD [of X h w w'] by auto
    then show ?thesis using k by (auto simp: reserved_set_def cached_Some piece_data_def)
  next
    case (Set_memory_size s)
    then have "set_memory_size s w = Inr w'" using r by simp
    from set_memory_size_InrD [OF w(4) this] k show ?thesis
      using grown_keeps_cache [OF w(1)] by (auto simp: grown_def [of _ _ w])
  next
    case (Read buf sz piece off)
    then show ?thesis
      using r read_keeps_cache [OF w(4)] k by (fastforce simp: drop_result_def bindE_eq_Inr)
  next
    case (Readv bufs piece off)
    then show ?thesis
      using r readv_keeps_cache [OF w(4)] k by (fastforce simp: drop_result_def bindE_eq_Inr)
  next
    case (Writev bufs piece off)
    then obtain n where n: "writev X bufs (int (nat piece)) off w = Some (Inr (n, w'))"
      using r g by (auto simp: bindE_eq_Inr)
    have "write_ok w (nat piece) off bufs" "nat piece \<noteq> k" using g Writev by auto
    then show ?thesis using writev_keeps_reserved [OF o _ _ k n] by blast
  next
    case (Update_reader_pieces ps)
    then obtain b where "w' = w\<lparr>reader_pieces := b\<rparr>"
      using r wf_shape(1) [OF w(1)] by (auto simp: update_reader_pieces_def bindE_eq_Inr)
    then show ?thesis using k by (auto simp: reserved_set_def cached_Some piece_data_def)
  next
    case (Trim pi)
    then have "trim X pi w = Some (Inr w')" using r by simp
    from trim_returns [OF w(5) this] have "evicted_from X pi w w'" by auto
    then show ?thesis using evicted_reserved [of X pi w w' k] k by simp
  qed (use r g k in \<open>auto simp: enable_logging_def disable_logging_def reserved_set_def
      cached_Some piece_data_def\<close>)
  then show ?thesis using o' e by (simp add: pinned_def)
qed

interpretation exec_pinning: keeps_invariant "pinned k p d X" "leaves_alone k X" "exec X" for k p d X
  by unfold_locales (rule exec_pinned)

end
