(* ===== verification/Sample.thy ===== *)
theory Sample
  imports Cache_Spec
begin

text \<open>
  A concrete environment and concrete storages for the closed examples: bitsets as lists of
  booleans, a torrent that only knows its piece priorities, a clock that ticks once per
  reading, and torrents of one and of four pieces.
\<close>

definition demo_ext :: "(bool list, int \<Rightarrow> int) ext" where
  "demo_ext =
     \<lparr>piece_priority = (\<lambda>t i. t i), reset_piece_deadline = (\<lambda>t i. t),
      set_piece_priority = (\<lambda>t i p. t(i := p)), we_dont_have = (\<lambda>t i. t), has_native = (\<lambda>t. True),
      bs_new = [], bs_size = length, bs_test = (\<lambda>b i. b ! i), bs_set = (\<lambda>b i. b[i := True]),
      bs_reset = (\<lambda>b. map (\<lambda>_. False) b),
      bs_resize = (\<lambda>b n. take n b @ replicate (n - length b) False)\<rparr>"

lemma demo_bitset_laws: "bitset_laws demo_ext"
  by (auto simp: bitset_laws_def demo_ext_def nth_append nth_list_update)

definition demo_info :: "int \<Rightarrow> torrent_info" where
  "demo_info n = \<lparr>ti_num_pieces = n, ti_piece_length = 4,
     ti_piece_size = (\<lambda>i. if i = 3 then 2 else 4)\<rparr>"

lemma demo_info_pieces: "ti_num_pieces (demo_info n) = n"
  by (simp add: demo_info_def)

lemma demo_info_ok: "0 \<le> n \<Longrightarrow> n \<le> 100 \<Longrightarrow> info_ok (demo_info n)"
  by (simp add: info_ok_def demo_info_def INT_MAX_def)

definition demo_prio :: "int \<Rightarrow> int" where
  "demo_prio = (\<lambda>i. if i = 2 then 0 else 4)"

definition demo_clock :: "nat \<Rightarrow> int" where
  "demo_clock n = int n + 100"

text \<open>A storage as it is after the constructor and \<open>set_torrent_handle\<close>.\<close>

definition demo_pieces :: "int \<Rightarrow> memory_piece list" where
  "demo_pieces n = map (\<lambda>k. new_memory_piece (int k) (ti_piece_size (demo_info n) (int k))) [0..<nat n]"

definition demo_storage :: "int \<Rightarrow> int \<Rightarrow> bool list memory_storage" where
  "demo_storage n mem =
     \<lparr>reader_pieces = replicate (nat n + 10) False, reserved_pieces = replicate (nat n + 10) False,
      capacity = mem, piece_count = n, piece_length = 4, pieces = demo_pieces n,
      buffer_size = min n (mem div 4 + 2), buffer_limit = min n (mem div 4 + 2), buffer_used = 0,
      buffer_reserved = 0,
      buffers = map (\<lambda>k. empty_buffer 4 (int k)) [0..<nat (min n (mem div 4 + 2))],
      m_info = demo_info n, m_handle = Indeterminate, m_t = Indeterminate,
      is_logging = False, is_initialized = True, is_reading = False\<rparr>"

lemma demo_constructed:
  assumes "0 \<le> n" "n \<le> 100" "0 \<le> mem" "mem \<le> 1000"
  shows "new_memory_storage demo_ext mem (demo_info n) = Inr (demo_storage n mem)"
proof -
  have "mem div 4 \<le> 1000 div 4" by (rule zdiv_mono1) (use assms in simp_all)
  then have b: "mem div ti_piece_length (demo_info n) + 2 \<le> INT_MAX"
    by (simp add: demo_info_def INT_MAX_def)
  have "nat (n + 10) = nat n + 10" using assms by simp
  then show ?thesis
    using new_memory_storage_eq [OF demo_info_ok [OF assms(1,2)] assms(3) b, of demo_ext]
    by (simp add: demo_storage_def demo_info_def demo_pieces_def demo_ext_def)
qed

definition demo_created :: "int \<Rightarrow> int \<Rightarrow> (bool list, int \<Rightarrow> int) world" where
  "demo_created n mem = in_world (demo_storage n mem) demo_prio demo_clock"

definition demo_world :: "int \<Rightarrow> int \<Rightarrow> (bool list, int \<Rightarrow> int) world" where
  "demo_world n mem = (demo_created n mem)\<lparr>m_handle := Valid, m_t := Valid\<rparr>"

lemma demo_handle_set:
  "exec demo_ext (Set_torrent_handle Valid) (demo_created n mem) = Some (Inr (demo_world n mem))"
  by (simp add: set_torrent_handle_def demo_world_def demo_ext_def)

lemma demo_created_reachable:
  "0 \<le> n \<Longrightarrow> n \<le> 100 \<Longrightarrow> 0 \<le> mem \<Longrightarrow> mem \<le> 1000 \<Longrightarrow> reachable demo_ext (demo_created n mem)"
  unfolding demo_created_def by (rule reachable.created [OF demo_constructed demo_info_ok])

lemma demo_world_reachable:
  "0 \<le> n \<Longrightarrow> n \<le> 100 \<Longrightarrow> 0 \<le> mem \<Longrightarrow> mem \<le> 1000 \<Longrightarrow> reachable demo_ext (demo_world n mem)"
  using reachable.called [OF demo_created_reachable demo_handle_set] .

lemma demo_world_orderly:
  assumes "0 \<le> n" "n \<le> 100" "0 \<le> mem" "mem \<le> 1000"
  shows "orderly demo_ext (demo_world n mem)"
proof -
  note c = created_safe [OF demo_bitset_laws demo_constructed [OF assms] demo_info_ok [OF assms(1,2)] assms(3)]
  have "safe demo_ext (demo_world n mem)" "acct demo_ext (demo_world n mem)"
    using c by (simp_all add: demo_world_def demo_created_def)
  then show ?thesis
    by (simp add: orderly_def trim_inv_def safe_def demo_bitset_laws handle_ok_def demo_world_def)
qed

lemma demo_clock_advances: "clock_advances (demo_world n mem)"
  unfolding clock_advances_def
proof (intro allI)
  fix t
  show "\<exists>m. \<forall>n' \<ge> m. t < clock (demo_world n mem) n'"
    by (rule exI [of _ "nat (t - 99)"]) (auto simp: demo_world_def demo_created_def demo_clock_def)
qed

text \<open>An entry of a scatter or gather array over a given block of memory.\<close>

definition iov :: "byte list \<Rightarrow> iovec_t" where
  "iov bs = \<lparr>iov_base = bs, iov_len = of_nat (length bs)\<rparr>"

lemmas demo_defs = demo_world_def demo_created_def demo_storage_def demo_pieces_def demo_info_def
  demo_ext_def demo_prio_def demo_clock_def in_world_def memory_storage.extend_def world.fields_def
  new_memory_piece_def empty_buffer_def

section \<open>Two runs\<close>


lemma iov_ok_iov: "length bs \<le> 1000 \<Longrightarrow> iov_ok (iov bs)"
  by (simp add: iov_ok_def iov_def unsigned_of_nat take_bit_nat_eq_self)

lemma iov_base_iov [simp]: "iov_base (iov bs) = bs"
  by (simp add: iov_def)

text \<open>The storage of four pieces after its reserved range was set, with nothing in it.\<close>

definition demo_base :: "int list \<Rightarrow> (bool list, int \<Rightarrow> int) world" where
  "demo_base rs =
     (demo_world 4 8)\<lparr>reserved_pieces := map (\<lambda>i. int i \<in> set rs) [0..<14],
        buffer_reserved := int (length rs)\<rparr>"

lemma demo_base_set:
  assumes "rs = [] \<or> rs = [1]"
  shows "exec demo_ext (Update_reserved_pieces rs) (demo_world 4 8) = Some (Inr (demo_base rs))"
  using assms
  by (auto simp: update_reserved_pieces_def demo_defs demo_base_def bit_set_def i32_def INT_MAX_def INT_MIN_def
    eval_nat_numeral)

lemma demo_base_reachable: "rs = [] \<or> rs = [1] \<Longrightarrow> reachable demo_ext (demo_base rs)"
  using reachable.called [OF demo_world_reachable demo_base_set] by simp

lemma demo_base_orderly: 
  assumes "rs = [] \<or> rs = [1]" shows "orderly demo_ext (demo_base rs)"
proof (rule exec_orderly [OF demo_world_orderly _ demo_base_set [OF assms]])
  show "benign demo_ext (Update_reserved_pieces rs) (demo_world 4 8)"
    by (auto simp: demo_defs)
qed simp_all

text \<open>The same storage with piece 1 written in full.\<close>

definition demo_filled :: "int list \<Rightarrow> (bool list, int \<Rightarrow> int) world" where
  "demo_filled rs = stored 1 0 [1, 2, 3, 4] (assigned demo_ext 1 0 (demo_base rs))"

lemma demo_write_ok: "write_ok (demo_base rs) 1 0 [iov [1, 2, 3, 4]]"
  by (simp add: write_ok_def accepted_bytes_def demo_defs demo_base_def iov_ok_iov
      INT_MAX_def  eval_nat_numeral)

lemma demo_granted:
  assumes "rs = [] \<or> rs = [1]"
  shows "get_buffer demo_ext (int 1) True (demo_base rs) = Inr (True, assigned demo_ext 1 0 (demo_base rs))"
  using assms
  by (auto simp: get_buffer_def get_buffer_loop.simps assign_buffer_def demo_defs demo_base_def
      is_buffered_def eval_nat_numeral Let_def now_def bit_test_def i32_def INT_MAX_def INT_MIN_def
      assigned_def lent_buffer_def)

lemma demo_accepted: "accepted_bytes (demo_base rs) 1 0 [iov [1, 2, 3, 4]] = [1, 2, 3, 4]"
  by (simp add: accepted_bytes_def demo_base_def demo_defs eval_nat_numeral)

lemma demo_filled_written:
  assumes "rs = [] \<or> rs = [1]"
  shows "writev demo_ext [iov [1, 2, 3, 4]] (int 1) 0 (demo_base rs) = Some (Inr (4, demo_filled rs))"
proof -
  have "trim_inv demo_ext (demo_base rs)" using demo_base_orderly [OF assms] by (rule orderlyD)
  note a = writev_admitted [OF this demo_write_ok demo_granted [OF assms]]
  then show ?thesis using assms demo_accepted
    by (auto simp: demo_filled_def demo_base_def demo_defs)
qed

lemma demo_filled_exec:
  "rs = [] \<or> rs = [1] \<Longrightarrow>
   exec demo_ext (Writev [iov [1, 2, 3, 4]] 1 0) (demo_base rs) = Some (Inr (demo_filled rs))"
  using demo_filled_written [of rs] by simp

lemma demo_filled_reachable: "rs = [] \<or> rs = [1] \<Longrightarrow> reachable demo_ext (demo_filled rs)"
  using reachable.called [OF demo_base_reachable demo_filled_exec] .

lemma demo_filled_orderly: "rs = [] \<or> rs = [1] \<Longrightarrow> orderly demo_ext (demo_filled rs)"
  using exec_orderly [OF demo_base_orderly _ demo_filled_exec] by simp

lemma demo_filled_sel:
  "length (pieces (demo_filled rs)) = 4" "is_buffered (pieces (demo_filled rs) ! 1)"
  "mp_size (pieces (demo_filled rs) ! 1) = 4" "mp_length (pieces (demo_filled rs) ! 1) = 4"
  "piece_data (demo_filled rs) 1 = [1, 2, 3, 4]" "piece_length (demo_filled rs) = 4"
  "\<not> is_logging (demo_filled rs)" "\<not> is_reading (demo_filled rs)"
  "capacity (demo_filled rs) = 8" "buffer_size (demo_filled rs) = 4"
  "reserved_pieces (demo_filled rs) = map (\<lambda>i. int i \<in> set rs) [0..<14]"
  "\<not> is_buffered (pieces (demo_filled rs) ! 0)" "\<not> is_buffered (pieces (demo_filled rs) ! 2)"
  by (simp_all add: demo_filled_def demo_base_def demo_defs is_buffered_def piece_data_stored
   stored_def touched_def piece_data_def assigned_def Let_def lent_buffer_def patch_def)

lemma demo_base_sel:
  "reserved_set demo_ext (demo_base [1]) = {1}" "piece_length (demo_base rs) = 4"
  "length (pieces (demo_base rs)) = 4" "k < 4 \<Longrightarrow> \<not> is_buffered (pieces (demo_base rs) ! k)"
  "\<not> is_logging (demo_base rs)" "\<not> is_reading (demo_base rs)"
  by (auto simp: reserved_set_def demo_base_def demo_defs is_buffered_def)

lemma demo_filled_cached: "cached (demo_filled rs) 1 = Some [1, 2, 3, 4]"
  by (simp add: cached_Some demo_filled_sel del: One_nat_def)

lemma demo_base_cached: "k < 4 \<Longrightarrow> cached (demo_base rs) k = None"
  by (simp add: cached_def demo_base_sel)

lemma demo_base_length: "mp_length (pieces (demo_base rs) ! 1) = 4"
  by (simp add: demo_base_def demo_defs)

lemma demo_filled_reserved: "reserved_set demo_ext (demo_filled [1]) = {1}"
  by (auto simp: reserved_set_def demo_filled_sel demo_ext_def)

lemma demo_filled_read:
  assumes "rs = [] \<or> rs = [1]"
  shows "\<exists>w'. exec demo_ext (Read [0, 0] 2 1 1) (demo_filled rs) = Some (Inr w')"
  using read_complete [OF orderlyD(4) [OF demo_filled_orderly [OF assms]], of 1 1 2 "[0, 0]"]
  by (simp add: demo_filled_sel drop_result_def del: One_nat_def)

text \<open>A block of half a piece, stored once and stored twice at the same offset.\<close>

definition demo_half :: "(bool list, int \<Rightarrow> int) world" where
  "demo_half = stored 1 0 [1, 2] (assigned demo_ext 1 0 (demo_base []))"

definition demo_twice :: "(bool list, int \<Rightarrow> int) world" where
  "demo_twice = stored 1 0 [1, 2] demo_half"

lemma demo_half_ok: "write_ok (demo_base []) 1 0 [iov [1, 2]]"
  by (simp add: write_ok_def accepted_bytes_def demo_defs demo_base_def iov_ok_iov
      INT_MAX_def eval_nat_numeral)

lemma demo_half_written:
  "writev demo_ext [iov [1, 2]] (int 1) 0 (demo_base []) = Some (Inr (2, demo_half))"
proof -
  have "trim_inv demo_ext (demo_base [])" using demo_base_orderly [of "[]"] by (simp add: orderlyD)
  note a = writev_admitted [OF this demo_half_ok demo_granted]
  have "accepted_bytes (demo_base []) 1 0 [iov [1, 2]] = [1, 2]"
    by (simp add: accepted_bytes_def demo_base_def demo_defs eval_nat_numeral)
  then show ?thesis using a(3) by (auto simp: demo_half_def demo_base_def demo_defs)
qed

lemma demo_half_orderly: "orderly demo_ext demo_half"
  using exec_orderly [OF demo_base_orderly, of "[]" "Writev [iov [1, 2]] 1 0" demo_half] demo_half_written
  by simp

lemma demo_half_sel:
  "length (pieces demo_half) = 4" "is_buffered (pieces demo_half ! 1)"
  "mp_size (pieces demo_half ! 1) = 2" "mp_length (pieces demo_half ! 1) = 4"
  "\<not> is_logging demo_half" "buffer_used demo_half = 1" "buffer_limit demo_half = 4"
  by (simp_all add: demo_half_def demo_base_def demo_defs is_buffered_def assigned_def Let_def)

lemma demo_twice_ok: "write_ok demo_half 1 0 [iov [1, 2]]"
  by (simp add: write_ok_def demo_half_sel accepted_bytes_def iov_ok_iov INT_MAX_def del: One_nat_def)

lemma demo_twice_written:
  "writev demo_ext [iov [1, 2]] (int 1) 0 demo_half = Some (Inr (2, demo_twice))"
proof -
  have "get_buffer demo_ext (int 1) True demo_half = Inr (True, demo_half)"
    using demo_half_sel by (simp add: get_buffer_def)
  note a = writev_admitted [OF orderlyD(5) [OF demo_half_orderly] demo_twice_ok this]
  have "accepted_bytes demo_half 1 0 [iov [1, 2]] = [1, 2]"
    by (simp add: accepted_bytes_def demo_half_sel del: One_nat_def)
  then show ?thesis using a(3) demo_half_sel by (auto simp: demo_twice_def)
qed

section \<open>Counters and small facts\<close>

lemma demo_world_counts:
  "buffer_used (demo_world n mem) = 0" "buffer_limit (demo_world n mem) = min n (mem div 4 + 2)"
  by (simp_all add: demo_world_def demo_created_def demo_storage_def)

lemma demo_base_clock: "clock_advances (demo_base rs)"
  using demo_clock_advances [of 4 8] by (simp add: clock_advances_def demo_base_def)

lemma demo_base_limit: "buffer_limit (demo_base rs) = 4"
  by (simp add: demo_base_def demo_world_counts)

lemma demo_trim:
  assumes "rs = [] \<or> rs = [1]"
  shows "trim demo_ext (int 0) (demo_filled rs) = Some (Inr (demo_filled rs))"
  using assms by (auto simp: trim_def demo_filled_def demo_base_def demo_defs)

text \<open>The torrent of one piece.\<close>

lemma demo_single_ok: "off \<in> {0, 1} \<Longrightarrow> 0 \<le> mem \<Longrightarrow> write_ok (demo_world 1 mem) 0 off [iov [1, 2]]"
  by (auto simp: write_ok_def accepted_bytes_def demo_defs iov_ok_iov INT_MAX_def)

lemma demo_single_granted: "\<exists>w1. get_buffer demo_ext (int 0) True (demo_world 1 8) = Inr (True, w1)"
  using get_buffer_granted [OF orderlyD(5) [OF demo_world_orderly], of 1 8 0]
  by (simp add: demo_defs)

lemma demo_single_facts:
  "buffer_limit (demo_world 1 8) = 1" "0 \<notin> reserved_set demo_ext (demo_world 1 8)"
  by (auto simp: reserved_set_def demo_defs)

lemma demo_single_set:
  "set_torrent_handle demo_ext Valid (in_world (demo_storage n mem) demo_prio demo_clock) =
     Inr (demo_world n mem)"
  by (simp add: set_torrent_handle_def demo_world_def demo_created_def demo_ext_def)

text \<open>Two pieces in the cache.\<close>

definition demo_pair :: "(bool list, int \<Rightarrow> int) world" where
  "demo_pair = stored 0 0 [5, 6] (assigned demo_ext 0 1 (demo_filled []))"

lemma demo_pair_ok: "write_ok (demo_filled []) 0 0 [iov [5, 6]]"
  by (simp add: write_ok_def accepted_bytes_def demo_defs demo_filled_def demo_base_def iov_ok_iov INT_MAX_def)

lemma demo_pair_granted:
  "get_buffer demo_ext (int 0) True (demo_filled []) = Inr (True, assigned demo_ext 0 1 (demo_filled []))"
  by (simp add: get_buffer_def get_buffer_loop.simps assign_buffer_def demo_defs demo_filled_def demo_base_def
      is_buffered_def eval_nat_numeral Let_def now_def bit_test_def i32_def INT_MAX_def INT_MIN_def
      assigned_def lent_buffer_def stored_def touched_def)

lemma demo_pair_written:
  "writev demo_ext [iov [5, 6]] (int 0) 0 (demo_filled []) = Some (Inr (2, demo_pair))"
proof -
  have "trim_inv demo_ext (demo_filled [])" using demo_filled_orderly [of "[]"] by (simp add: orderlyD)
  note a = writev_admitted [OF this demo_pair_ok demo_pair_granted]
  have "accepted_bytes (demo_filled []) 0 0 [iov [5, 6]] = [5, 6]"
    by (simp add: accepted_bytes_def demo_filled_def demo_base_def demo_defs eval_nat_numeral)
  then show ?thesis using a(3) by (auto simp: demo_pair_def demo_filled_def demo_base_def demo_defs)
qed

lemma demo_pair_reachable: "reachable demo_ext demo_pair"
  using reachable.called [OF demo_filled_reachable, of "[]" "Writev [iov [5, 6]] 0 0" demo_pair]
    demo_pair_written by simp

lemma demo_pair_sel:
  "length (pieces demo_pair) = 4" "is_buffered (pieces demo_pair ! 0)" "is_buffered (pieces demo_pair ! 1)"
  by (simp_all add: demo_pair_def demo_filled_def demo_base_def demo_defs is_buffered_def)

text \<open>Counting the buffers lent to reserved pieces, and changes of the two limits.\<close>

lemma demo_filled_lent:
  "reserved_lent demo_ext (demo_filled []) = 0" "reserved_lent demo_ext (demo_filled [1]) = 1"
  "buffer_limit (demo_filled []) = 4" 
  by (simp_all add: reserved_lent_def demo_filled_def demo_base_def demo_defs eval_nat_numeral lent_def
    stored_def touched_def assigned_def lent_buffer_def Let_def)

lemma demo_filled_free: "length (buffers (demo_filled rs)) = 4" "\<not> mb_is_used (buffers (demo_filled rs) ! 2)"
  by (simp_all add: demo_filled_def demo_base_def demo_defs stored_def touched_def assigned_def lent_buffer_def Let_def)

lemma demo_filled_grow: "\<exists>w'. set_memory_size 100 (demo_filled [1]) = Inr w'"
  by (simp add: set_memory_size_def resize_pool_def demo_filled_def demo_base_def demo_defs max_buffers_def trunc_div_def 
   i32_def INT_MAX_def INT_MIN_def)

lemma demo_filled_reserve:
  "\<exists>w'. update_reserved_pieces demo_ext [1] (demo_filled []) = Inr w' \<and> reserved_lent demo_ext w' = 1"
  by (simp add: update_reserved_pieces_def demo_filled_def demo_base_def demo_defs bit_set_def i32_def INT_MAX_def INT_MIN_def
    eval_nat_numeral reserved_lent_def lent_def stored_def touched_def assigned_def lent_buffer_def Let_def)

lemma demo_filled_count: "piece_count (demo_filled rs) = 4"
  by (simp add: demo_filled_def demo_base_def demo_defs)

lemma demo_filled_handle:
  "m_handle (demo_filled rs) = Valid" "m_t (demo_filled rs) = Valid"
  "piece_priority demo_ext (torrent (demo_filled rs)) 2 = 0"
  by (simp_all add: demo_filled_def demo_base_def demo_defs)

lemma demo_reading_orderly: "orderly demo_ext ((demo_filled [])\<lparr>is_reading := True\<rparr>)"
  using demo_filled_orderly [of "[]"] by (simp add: orderly_def)

end
