(* ===== verification/Cache_Properties.thy ===== *)
theory Cache_Properties
  imports Survival Sample
begin

text \<open>
  The properties of reads and writes: they refine the abstract cache, a read gives back what a
  write stored, and reserved pieces survive.
\<close>

section \<open>Facts about accepted writes\<close>

lemma written_granted:
  assumes o: "orderly X w" and ok: "write_ok w k off bufs"
    and r: "writev X bufs (int k) off w = Some (Inr (n, w'))" and n: "0 < n"
  obtains w1 where "get_buffer X (int k) True w = Inr (True, w1)"
proof -
  note w = orderlyD [OF o]
  have k: "k < length (pieces w)" using ok by (simp add: write_ok_def)
  obtain ok1 w1 where g: "get_buffer X (int k) True w = Inr (ok1, w1)"
    using get_buffer_total [OF w(1,2,3) k] by blast
  moreover have ok1 using writev_refused [OF w(1), of k w1 bufs off] g r n by (cases ok1) auto
  ultimately show thesis using that by simp
qed

lemma writev_same_shape:
  assumes o: "orderly X w" and ok: "write_ok w k off bufs"
    and g: "get_buffer X (int k) True w = Inr (True, w1)"
    and r: "writev X bufs (int k) off w = Some (Inr (n, w'))"
  shows "piece_length w' = piece_length w" "length (pieces w') = length (pieces w)"
    "reserved_pieces w' = reserved_pieces w" "capacity w' = capacity w"
proof -
  note inv = orderlyD(5) [OF o]
  have "evicted_from X (int k) (stored k (nat off) (accepted_bytes w k off bufs) w1) w'"
    using writev_result [OF inv ok g r] by blast
  then have late: "piece_length w' = piece_length w1" "length (pieces w') = length (pieces w1)"
    "reserved_pieces w' = reserved_pieces w1" "capacity w' = capacity w1"
    by (simp_all add: evicted_from_def same_frame_def)
  have "w1 = w \<or> (\<exists>j. w1 = assigned X k j w)"
    using writev_admitted(2) [OF inv ok g] by (auto simp only: admitted_def)
  then have "piece_length w1 = piece_length w \<and> length (pieces w1) = length (pieces w) \<and>
      reserved_pieces w1 = reserved_pieces w \<and> capacity w1 = capacity w"
    by (elim disjE exE) simp_all
  then show "piece_length w' = piece_length w" "length (pieces w') = length (pieces w)"
    "reserved_pieces w' = reserved_pieces w" "capacity w' = capacity w"
    using late by simp_all
qed

text \<open>The block a write stores lies inside the buffer of the piece.\<close>

lemma accepted_fits:
  assumes "wf X w" "write_ok w k off bufs"
  shows "nat off + length (accepted_bytes w k off bufs) \<le> nat (piece_length w)"
    "int (length (accepted_bytes w k off bufs)) \<le> mp_length (pieces w ! k) - off"
    "mp_length (pieces w ! k) \<le> piece_length w"
  using wf_piece [OF assms(1), of k] assms(2)
  by (auto simp: accepted_bytes_def write_ok_def piece_ok_def)

section \<open>Writes refine the cache\<close>

lemma get_buffer_False_cached:
  assumes "wf X w" "k < length (pieces w)" "get_buffer X (int k) True w = Inr (False, w1)"
  shows "cached w1 = cached w \<and> k \<notin> dom (cached w)"
  using assms
proof (cases rule: get_buffer_InrE)
qed (auto simp: cached_Some)

text \<open>C2 A write under the accounting invariant refines the abstract cache. It never runs into
  undefined behaviour; either it accepts the bytes that fit between the offset and the end of
  the piece and returns their number, and the cache afterwards is the old one with those bytes
  stored (over what the cache had of the piece, or over zeros), less some ordinary pieces other
  than the written one; or it returns 0, the piece was not in the cache and the cache is as it
  was. Reserved pieces are never dropped.\<close>

theorem writev_refines_cache:
  assumes o: "orderly X w" and ok: "write_ok w k off bufs"
    and r: "writev X bufs (int k) off w = Some r"
  defines "bs \<equiv> accepted_bytes w k off bufs"
  shows "\<exists>n w'. r = Inr (n, w') \<and> orderly X w' \<and>
    ((n = int (length bs) \<and>
      cache_drops (reserved_set X w) k
        (cache_put (nat (piece_length w)) k (nat off) bs (cached w)) (cached w')) \<or>
     (n = 0 \<and> k \<notin> dom (cached w) \<and> cached w' = cached w))"
proof -
  note w = orderlyD [OF o]
  have k: "k < length (pieces w)" using ok by (simp add: write_ok_def)
  obtain ok1 w1 where g: "get_buffer X (int k) True w = Inr (ok1, w1)"
    using get_buffer_total [OF w(1,2,3) k] by blast
  have ord: "orderly X w'" if "r = Inr (n, w')" for n w'
    using exec_orderly [OF o, of "Writev bufs (int k) off" w'] r that by simp
  show ?thesis
  proof (cases ok1)
    case False
    then have "r = Inr (0, w1)" using writev_refused [OF w(1)] g r by simp
    then show ?thesis using get_buffer_False_cached [OF w(1) k] g False ord by auto
  next
    case True
    then have g: "get_buffer X (int k) True w = Inr (True, w1)" using g by simp
    obtain w' where w': "r = Inr (int (length bs), w')"
      and ev: "evicted_from X (int k) (stored k (nat off) bs w1) w'"
      using writev_result [OF w(5) ok g r] unfolding bs_def by blast
    note adm = writev_admitted(2) [OF w(5) ok g]
    have "reserved_set X (stored k (nat off) bs w1) = reserved_set X w"
      using admitted_facts(4,8) [OF w(1) k adm] by (simp add: reserved_set_def)
    then have "cache_drops (reserved_set X w) k
        (cache_put (nat (piece_length w)) k (nat off) bs (cached w)) (cached w')"
      using evicted_drops [OF ev] cached_stored [OF w(1) k adm] by simp
    then show ?thesis using w' ord by blast
  qed
qed

lemma writev_refines_cache_witness:
  "\<exists>w'. writev demo_ext [iov [1, 2, 3, 4]] 1 0 (demo_base [1]) = Some (Inr (4, w')) \<and>
     orderly demo_ext w' \<and>
     cache_drops {1} 1 (cache_put 4 1 0 [1, 2, 3, 4] (cached (demo_base [1]))) (cached w')"
  using writev_refines_cache [OF demo_base_orderly demo_write_ok demo_filled_written, of "[1]"]
    demo_filled_written [of "[1]"]
  by (auto simp: demo_accepted demo_base_sel simp del: One_nat_def)

section \<open>Reads refine the cache\<close>

text \<open>C24 A scattered read returns what the cache has. For a piece that is not in the cache it
  copies nothing and returns 0; otherwise it fills the entries, in order, with the bytes from
  the offset on, as many as the entries hold and the piece has, returns their number and
  changes nothing in the cache.\<close>

theorem readv_refines_cache:
  assumes s: "safe X w" and k: "k < length (pieces w)" and v: "list_all iov_ok bufs"
    and off: "0 \<le> off" "off \<le> piece_length w" and log: "is_logging w \<longrightarrow> bufs \<noteq> []"
  shows "case cached w k of
      None \<Rightarrow> readv X bufs (int k) off w = Inr (0, bufs, w)
    | Some d \<Rightarrow>
        (\<exists>bufs' w'. readv X bufs (int k) off w =
             Inr (int (length (take (length (gathered bufs)) (drop (nat off) d))), bufs', w') \<and>
           map iov_len bufs' = map iov_len bufs \<and>
           gathered bufs' = patch (gathered bufs) 0 (take (length (gathered bufs)) (drop (nat off) d)) \<and>
           cached w' = cached w)"
proof (cases "is_buffered (pieces w ! k)")
  case False
  then show ?thesis using readv_unbuffered [OF s k] by (simp add: cached_def)
next
  case True
  have "cached w k = Some (piece_data w k)" using True k by (simp add: cached_def)
  then show ?thesis using readv_eq [OF s k True v off log] by auto
qed

lemma readv_refines_cache_witness:
  "\<exists>bufs' w'. readv demo_ext [iov [9, 9, 9]] 1 2 (demo_filled []) = Inr (2, bufs', w') \<and>
     gathered bufs' = [3, 4, 9]"
  using readv_refines_cache [of demo_ext "demo_filled []" 1 "[iov [9, 9, 9]]" 2]
    orderlyD(4) [OF demo_filled_orderly, of "[]"]
  by (auto simp: demo_filled_sel demo_filled_cached iov_ok_iov patch_def simp del: One_nat_def)

text \<open>C25 A read of a complete piece returns the requested size and copies the bytes from the
  offset on, as many as were asked for and the buffer still has; what is in the cache does not
  change. The return value is the requested size even when fewer bytes were copied.\<close>

theorem read_refines_cache:
  assumes s: "safe X w" and d: "cached w k = Some d"
    and c: "mp_length (pieces w ! k) \<le> mp_size (pieces w ! k)"
    and off: "0 \<le> off" "off < piece_length w" and sz: "0 \<le> sz"
    and fit: "min sz (piece_length w - off) \<le> int (length buf)"
  shows "\<exists>w'. read X buf sz (int k) off w =
      Inr (sz, patch buf 0 (take (nat sz) (drop (nat off) d)), w') \<and>
    cached w' = cached w \<and> is_reading w'"
proof -
  have k: "k < length (pieces w)" "is_buffered (pieces w ! k)" and e: "d = piece_data w k"
    using d by (auto simp: cached_Some)
  show ?thesis using read_complete [OF s k c off sz fit] unfolding e by simp
qed

lemma read_refines_cache_witness:
  "\<exists>w'. read demo_ext [7, 7, 7, 7] 4 1 2 (demo_filled []) = Inr (4, [3, 4, 7, 7], w')"
  using read_refines_cache [of demo_ext "demo_filled []" 1 "[1, 2, 3, 4]" 2 4 "[7, 7, 7, 7]"]
    orderlyD(4) [OF demo_filled_orderly, of "[]"]
  by (auto simp: demo_filled_sel demo_filled_cached patch_def simp del: One_nat_def)

section \<open>What was written is read\<close>

text \<open>C3 Round trip: right after a write that stored at least one byte, a scattered read at the
  same offset into entries that hold that many bytes returns exactly the bytes written.\<close>

theorem write_then_readv:
  assumes o: "orderly X w" and ok: "write_ok w k off bufs"
    and r: "writev X bufs (int k) off w = Some (Inr (n, w'))" and n: "0 < n"
    and v: "list_all iov_ok dst" "length (gathered dst) = nat n" and log: "is_logging w' \<longrightarrow> dst \<noteq> []"
  shows "\<exists>dst' w''. readv X dst (int k) off w' = Inr (n, dst', w'') \<and>
    gathered dst' = accepted_bytes w k off bufs"
proof -
  note w = orderlyD [OF o]
  let ?bs = "accepted_bytes w k off bufs"
  let ?old = "if is_buffered (pieces w ! k) then piece_data w k else replicate (nat (piece_length w)) 0"
  have k: "k < length (pieces w)" and off: "0 \<le> off" "off \<le> mp_length (pieces w ! k)"
    using ok by (auto simp: write_ok_def)
  obtain w1 where g: "get_buffer X (int k) True w = Inr (True, w1)"
    by (rule written_granted [OF o ok r n])
  note d = writev_data [OF w(5) ok g r] and shape = writev_same_shape [OF o ok g r]
  have "length ?old = nat (piece_length w)" using length_piece_data [OF w(1) k] by auto
  then have fit: "nat off + length ?bs \<le> length ?old" using accepted_fits [OF w(1) ok] by simp
  have "off \<le> piece_length w'" using off accepted_fits(3) [OF w(1) ok] shape by simp
  then obtain dst' where r': "readv X dst (int k) off w' =
      Inr (int (length (take (nat n) (drop (nat off) (piece_data w' k)))), dst', touched k w')"
    "gathered dst' = patch (gathered dst) 0 (take (nat n) (drop (nat off) (piece_data w' k)))"
    using readv_eq [OF safe_writev [OF w(4) r], of k dst off] v log off d(2) k shape by auto
  have "take (nat n) (drop (nat off) (piece_data w' k)) = ?bs"
    using slice_patch [OF fit] d(1,5) by simp
  moreover have "patch (gathered dst) 0 ?bs = ?bs" using v(2) d(1) by (simp add: patch_def)
  ultimately show ?thesis using r' d(1) by auto
qed

lemma write_then_readv_witness:
  "\<exists>dst' w''. readv demo_ext [iov [0, 0, 0, 0]] 1 0 (demo_filled []) = Inr (4, dst', w'') \<and>
     gathered dst' = [1, 2, 3, 4]"
  using write_then_readv [OF demo_base_orderly demo_write_ok demo_filled_written, of "[]" "[iov [0, 0, 0, 0]]"]
  by (simp add: iov_ok_iov demo_filled_sel demo_accepted del: One_nat_def)

text \<open>Round trip through \<open>read\<close>: once a write at offset 0 has stored a whole piece, a read
  of any range inside the piece returns the requested size and exactly the bytes of that range
  of what was written.\<close>

theorem write_piece_then_read:
  assumes o: "orderly X w" and ok: "write_ok w k 0 bufs"
    and whole: "mp_length (pieces w ! k) \<le> int (length (gathered bufs))"
    and r: "writev X bufs (int k) 0 w = Some (Inr (n, w'))" and n: "0 < n"
    and range: "0 \<le> from" "0 < sz" "from + sz \<le> mp_length (pieces w ! k)" "sz \<le> int (length buf)"
  shows "\<exists>w''. read X buf sz (int k) from w' =
    Inr (sz, patch buf 0 (take (nat sz) (drop (nat from) (gathered bufs))), w'')"
proof -
  note w = orderlyD [OF o]
  let ?bs = "accepted_bytes w k 0 bufs" and ?p = "pieces w ! k"
  let ?old = "if is_buffered ?p then piece_data w k else replicate (nat (piece_length w)) 0"
  obtain w1 where g: "get_buffer X (int k) True w = Inr (True, w1)"
    by (rule written_granted [OF o ok r n])
  note d = writev_data [OF w(5) ok g r] and shape = writev_same_shape [OF o ok g r]
  have k: "k < length (pieces w)" using ok by (simp add: write_ok_def)
  have size: "0 \<le> mp_size ?p" using wf_piece [OF w(1) k] by (simp add: piece_ok_def)
  have len: "int (length ?bs) = mp_length ?p" using whole ok by (simp add: accepted_bytes_def write_ok_def)
  have "take (nat sz) (drop (nat from) (patch ?old 0 ?bs)) = take (nat sz) (drop (nat from) ?bs)"
    using range len by (simp add: patch_def)
  also have "\<dots> = take (nat sz) (drop (nat from) (gathered bufs))"
  proof -
    have "nat sz \<le> nat (mp_length ?p) - nat from" using range by linarith
    then show ?thesis by (simp add: accepted_bytes_def drop_take min_def)
  qed
  finally have bytes: "take (nat sz) (drop (nat from) (piece_data w' k)) =
      take (nat sz) (drop (nat from) (gathered bufs))" using d(5) by simp
  have "read X buf sz (int k) from w' =
      Inr (sz, patch buf 0 (take (nat sz) (drop (nat from) (piece_data w' k))), touched k (w'\<lparr>is_reading := True\<rparr>))"
    by (rule read_complete [OF safe_writev [OF w(4) r]])
      (use k shape d range size len accepted_fits(3) [OF w(1) ok] in auto)
  then show ?thesis using bytes by simp
qed

lemma write_piece_then_read_witness:
  "\<exists>w''. read demo_ext [0, 0] 2 1 1 (demo_filled []) = Inr (2, [2, 3], w'')"
  using write_piece_then_read [OF demo_base_orderly demo_write_ok _ demo_filled_written, of "[]" 1 2 "[0, 0]"]
  by (simp add: demo_base_length patch_def del: One_nat_def)

section \<open>No stale data\<close>



section \<open>Reserved pieces\<close>

text \<open>A reserved piece that is in the cache stays there with the same bytes through any run
  of calls that do not write that piece, do not change the reserved range and do not remove
  pieces by hand: reads, writes of other pieces with all their evictions, trims, priority
  changes, and memory size changes that ask for no more.\<close>

theorem reserved_piece_survives:
  assumes o: "orderly X w" and k: "k \<in> reserved_set X w" "cached w k = Some d"
    and run: "calls_to (leaves_alone k X) (exec X) w w'"
  shows "orderly X w' \<and> cached w' k = Some d"
  using exec_pinning.kept_by_runs [OF run, of "pieces w ! k" d] o k by (simp add: pinned_def)

lemma reserved_piece_survives_witness:
  "\<exists>w'. exec demo_ext (Read [0, 0] 2 1 1) (demo_filled [1]) = Some (Inr w') \<and>
     cached w' 1 = Some [1, 2, 3, 4]"
proof -
  obtain w' where w': "exec demo_ext (Read [0, 0] 2 1 1) (demo_filled [1]) = Some (Inr w')"
    using demo_filled_read [of "[1]"] by blast
  then have "calls_to (leaves_alone 1 demo_ext) (exec demo_ext) (demo_filled [1]) w'"
    by (intro calls_to.one_more [OF calls_to.no_call, of _ "Read [0, 0] 2 1 1"]) simp_all
  then show ?thesis
    using reserved_piece_survives [OF demo_filled_orderly _ demo_filled_cached, of "[1]"] w'
    by (simp add: demo_filled_reserved del: One_nat_def)
qed

section \<open>Accounting of bytes\<close>

text \<open>C28 The size of a piece counts written bytes, not distinct ones: writing the same block
  twice at offset 0, when the block covers at least half of the piece, makes the piece pass as
  complete. A read of the range that was never written then succeeds, returns the requested
  size and delivers zeros.\<close>

theorem rewritten_block_counts_twice:
  assumes o: "orderly X w" and new: "cached w k = None"
    and ok: "write_ok w k 0 bufs" and r: "writev X bufs (int k) 0 w = Some (Inr (n, w1))" and n: "0 < n"
    and ok': "write_ok w1 k 0 bufs" and r': "writev X bufs (int k) 0 w1 = Some (Inr (n, w2))"
    and half: "mp_length (pieces w ! k) \<le> 2 * n"
    and range: "n \<le> from" "0 < sz" "from + sz \<le> mp_length (pieces w ! k)" "sz \<le> int (length buf)"
  shows "\<exists>w3. read X buf sz (int k) from w2 = Inr (sz, patch buf 0 (replicate (nat sz) 0), w3)"
proof -
  note w = orderlyD [OF o]
  let ?p = "pieces w ! k" and ?z = "replicate (nat (piece_length w)) (0 :: byte)"
  let ?bs = "accepted_bytes w k 0 bufs"
  have k: "k < length (pieces w)" using ok by (simp add: write_ok_def)
  then have nb: "\<not> is_buffered ?p" using new by (auto simp: cached_def split: if_splits)
  obtain v where g: "get_buffer X (int k) True w = Inr (True, v)"
    by (rule written_granted [OF o ok r n])
  note d = writev_data [OF w(5) ok g r] and shape = writev_same_shape [OF o ok g r]
  have o1: "orderly X w1" using exec_orderly [OF o, of "Writev bufs (int k) 0" w1] r by simp
  have g1: "get_buffer X (int k) True w1 = Inr (True, w1)" using d(2) shape(2) k by (simp add: get_buffer_def)
  note d1 = writev_data [OF orderlyD(5) [OF o1] ok' g1 r'] and shape1 = writev_same_shape [OF o1 ok' g1 r']
  have bs1: "accepted_bytes w1 k 0 bufs = ?bs" using d(4) by (simp add: accepted_bytes_def)
  have size: "mp_size ?p = 0" using wf_piece [OF w(1) k] nb by (simp add: piece_ok_def is_buffered_def)
  have data: "piece_data w2 k = ?bs @ drop (length ?bs) ?z"
    using d(2,5) d1(5) nb by (simp add: bs1 patch_def)
  have "take (nat sz) (drop (nat from) (piece_data w2 k)) = replicate (nat sz) 0"
    using range n d(1) accepted_fits(3) [OF w(1) ok] unfolding data by (simp add: min_def nat_le_iff; linarith)
  moreover have p2: "mp_length (pieces w2 ! k) = mp_length ?p" "mp_size (pieces w2 ! k) = 2 * n"
    "length (pieces w2) = length (pieces w)" "piece_length w2 = piece_length w"
    using d(1,3,4) d1(3,4) size shape shape1 by (simp_all add: bs1)
  have "read X buf sz (int k) from w2 =
      Inr (sz, patch buf 0 (take (nat sz) (drop (nat from) (piece_data w2 k))), touched k (w2\<lparr>is_reading := True\<rparr>))"
    by (rule read_complete [OF safe_writev [OF orderlyD(4) [OF o1] r']])
      (use k n p2 d1(2) range half accepted_fits(3) [OF w(1) ok] in simp_all)
  ultimately show ?thesis by simp
qed

lemma rewritten_block_counts_twice_witness:
  "\<exists>w. read demo_ext [9, 9] 2 1 2 demo_twice = Inr (2, [0, 0], w)"
  using rewritten_block_counts_twice [OF demo_base_orderly _ demo_half_ok demo_half_written _
      demo_twice_ok demo_twice_written, of 2 2 "[9, 9]"]
  by (simp add: demo_base_cached demo_base_length patch_def numeral_2_eq_2 del: One_nat_def)

end
