(* ===== verification/Progress_Properties.thy ===== *)
theory Progress_Properties
  imports Cache_Properties
begin

text \<open>
  When writing and trimming return, what they evict, and which piece goes first.
\<close>

section \<open>The victim\<close>

text \<open>C26 The search for a victim is a least-recently-used scan. Under the accounting invariant it
  never faults and reads the clock once; it returns the position of the buffer with the oldest
  access among those that are in use, hold a piece other than the protected one, are not
  reserved and, when asked, are unwanted by the reader (the first such buffer on a tie), or -1
  when no such buffer was accessed before the clock reading.\<close>

theorem find_last_buffer_is_lru:
  fixes w :: "('b, 't) world" and pi :: int and check_read :: bool
  assumes "orderly X w"
  defines "E \<equiv> eligible X pi check_read w" and "t \<equiv> clock w (ticks w)"
  shows "\<exists>i. find_last_buffer X pi check_read w = Inr (i, w\<lparr>ticks := Suc (ticks w)\<rparr>) \<and>
    ((i = -1 \<and> none_before E (buffers w) t) \<or> (\<exists>j. i = int j \<and> is_lru E (buffers w) t j))"
  using orderlyD(1,3) [OF assms(1)]
  by (cases rule: find_last_buffer_cases [where pi = pi and chk = check_read])
    (auto simp: E_def t_def)

lemma find_last_buffer_is_lru_witness:
  "\<exists>i. find_last_buffer demo_ext 0 False (demo_filled []) =
     Inr (i, (demo_filled [])\<lparr>ticks := Suc (ticks (demo_filled []))\<rparr>)"
  using find_last_buffer_is_lru [OF demo_filled_orderly, of "[]" 0 False] by blast

text \<open>A turn of the trimming loop never faults. It evicts the least recently used piece that
  the reader does not want; only when no such piece was accessed before the clock reading it
  evicts the least recently used one of all that may go; and when there is none of those
  either it only reads the clock. Reserved pieces and the protected piece never go.\<close>

theorem trim_prefers_unread:
  fixes w :: "('b, 't) world" and pi :: int
  assumes o: "orderly X w"
  defines "unread \<equiv> eligible X pi True w" and "any \<equiv> eligible X pi False w"
    and "t1 \<equiv> clock w (ticks w)" and "t2 \<equiv> clock w (ticks w + 1)"
  shows "\<exists>w'. trim_step X pi w = Inr w' \<and>
    (if none_before unread (buffers w) t1
     then (if none_before any (buffers w) t2 then w' = w\<lparr>ticks := ticks w + 2\<rparr>
           else \<exists>j. is_lru any (buffers w) t2 j \<and> \<not> mb_is_used (buffers w' ! j) \<and>
             buffer_used w' = buffer_used w - 1)
     else \<exists>j. is_lru unread (buffers w) t1 j \<and> \<not> mb_is_used (buffers w' ! j) \<and>
       buffer_used w' = buffer_used w - 1)"
proof -
  have excl: "\<not> none_before F bs t" if "is_lru F bs t j" for F bs t j
    using that by (force simp: is_lru_def none_before_def)
  have gone: "\<not> mb_is_used (buffers ((freed j k (w\<lparr>ticks := n\<rparr>))\<lparr>torrent := tr\<rparr>) ! j)"
    if "is_lru F (buffers w) t j" for F t j k n tr
    using that by (simp add: is_lru_def buffer_reset_def)
  show ?thesis
    using orderlyD(5) [OF o]
  proof (cases rule: trim_step_cases [where pi = pi])
    case (unread j k tr)
    then show ?thesis using excl [OF unread(1)] gone [OF unread(1)] by (auto simp: assms(2-5))
  next
    case (lru j k tr)
    then show ?thesis using excl [OF lru(2)] gone [OF lru(2)] by (auto simp: assms(2-5))
  next
    case stall
    then show ?thesis by (simp add: assms(2-5))
  qed
qed

lemma trim_prefers_unread_witness: "\<exists>w'. trim_step demo_ext 0 (demo_filled []) = Inr w'"
  using trim_prefers_unread [OF demo_filled_orderly, of "[]" 0] by blast

section \<open>Trimming\<close>

text \<open>What a trim that returns has done: it ran into no undefined behaviour, fewer buffers are
  used than the limit allows, and every piece either kept its bytes or was dropped; a dropped
  piece was in the cache, is not reserved and is not the protected one.\<close>

lemma trim_postcondition:
  assumes o: "orderly X w" and ret: "trim X (int k) w = Some r"
  shows "\<exists>w'. r = Inr w' \<and> orderly X w' \<and> buffer_used w' < buffer_limit w' \<and>
    buffer_limit w' = buffer_limit w \<and>
    cache_drops (reserved_set X w) k (cached w) (cached w')"
proof -
  note w = orderlyD [OF o]
  obtain w' where w': "r = Inr w'" "evicted_from X (int k) w w'"
    "capacity w < 0 \<or> buffer_used w' < buffer_limit w'"
    using trim_returns [OF w(5) ret] by blast
  have "orderly X w'" using exec_orderly [OF o, of "Trim (int k)" w'] ret w'(1) by simp
  then show ?thesis
    using w' w(4) evicted_drops [OF w'(2)] by (auto simp: safe_def sized_def evicted_from_def)
qed

text \<open>C10 Exactly when a trim returns, and what it does then. With a clock that gets past every
  access time, trimming returns if and only if buffers are free already or the pieces that may
  go outnumber the excess of used buffers over the limit; it evicts exactly as many as needed to
  bring the usage one below the limit, all of them ordinary pieces other than the protected one,
  and leaves the rest of the cache as it was. Otherwise it loops for ever.\<close>

theorem trim_returns_iff:
  assumes o: "orderly X w" and clk: "clock_advances w"
  shows "if buffer_used w < buffer_limit w \<or> buffer_used w - buffer_limit w < evictable X (int k) w
    then \<exists>w'. trim X (int k) w = Some (Inr w') \<and> orderly X w' \<and>
      buffer_used w' = min (buffer_used w) (buffer_limit w - 1) \<and> buffer_limit w' = buffer_limit w \<and>
      cache_drops (reserved_set X w) k (cached w) (cached w')
    else trim X (int k) w = None"
proof -
  note w = orderlyD [OF o]
  have cap: "0 \<le> capacity w" using w(4) by (simp add: safe_def sized_def)
  show ?thesis
  proof (cases "buffer_used w < buffer_limit w \<or> buffer_used w - buffer_limit w < evictable X (int k) w")
    case True
    obtain m where "clock_past m w" using clock_past_ex [OF clk] by blast
    then obtain w' where "trim X (int k) w = Some (Inr w')" "buffer_used w' = min (buffer_used w) (buffer_limit w - 1)"
      using True trim_minimal [OF w(5) _ cap, of m "int k"] by auto
    then show ?thesis using True trim_postcondition [OF o, of k] by auto
  next
    case False
    then show ?thesis using trim_hangs [OF w(5) cap] by auto
  qed
qed

lemma trim_returns_iff_witness: "\<exists>w'. trim demo_ext 0 (demo_world 4 8) = Some (Inr w') \<and> buffer_used w' = 0"
  using trim_returns_iff [OF demo_world_orderly demo_clock_advances, of 4 8 0]
  by (auto simp: demo_world_counts split: if_splits)

section \<open>Writing\<close>

text \<open>C11 With a limit of at least two buffers and a clock that gets past every access time, a
  write whose offset lies in the piece always returns, and its result is the number of bytes
  that fit or, when no buffer could be had, zero.\<close>

theorem writev_always_returns:
  assumes o: "orderly X w" and ok: "write_ok w k off bufs"
    and clk: "clock_advances w" and lim: "2 \<le> buffer_limit w"
  shows "\<exists>n w'. writev X bufs (int k) off w = Some (Inr (n, w')) \<and>
    n \<in> {0, int (length (accepted_bytes w k off bufs))}"
proof -
  note w = orderlyD [OF o]
  have k: "k < length (pieces w)" using ok by (simp add: write_ok_def)
  obtain ok1 w1 where g: "get_buffer X (int k) True w = Inr (ok1, w1)"
    using get_buffer_total [OF w(1,2,3) k] by blast
  show ?thesis
  proof (cases ok1)
    case False
    then show ?thesis using writev_refused [OF w(1)] g by auto
  next
    case True
    then show ?thesis using writev_returns [OF w(5) ok _ clk lim] g by auto
  qed
qed

lemma writev_always_returns_witness:
  "\<exists>n w'. writev demo_ext [iov [1, 2, 3, 4]] 1 0 (demo_base []) = Some (Inr (n, w')) \<and> n \<in> {0, 4}"
  using writev_always_returns [OF demo_base_orderly demo_write_ok demo_base_clock, of "[]"]
  by (simp add: demo_accepted demo_base_limit del: One_nat_def)

text \<open>C18 Room for the next write: after a write that stored at least one byte, fewer buffers are
  used than the limit allows, and every piece that is wanted (or any, while nothing has been
  read) will get a buffer when it is written next.\<close>

theorem next_write_admitted:
  assumes o: "orderly X w" and ok: "write_ok w k off bufs"
    and r: "writev X bufs (int k) off w = Some (Inr (n, w'))" and n: "0 < n"
  shows "buffer_used w' < buffer_limit w' \<and>
    (\<forall>i < length (pieces w'). (is_reading w' \<longrightarrow> readered X w' (int i)) \<longrightarrow>
       (\<exists>w''. get_buffer X (int i) True w' = Inr (True, w'')))"
proof -
  note w = orderlyD [OF o]
  obtain w1 where g: "get_buffer X (int k) True w = Inr (True, w1)"
    by (rule written_granted [OF o ok r n])
  have "0 \<le> capacity w" using w(4) by (simp add: safe_def sized_def)
  then have room: "buffer_used w' < buffer_limit w'" and inv: "trim_inv X w'"
    using writev_result [OF w(5) ok g r] by auto
  then show ?thesis using get_buffer_granted [OF inv _ room] by blast
qed

lemma next_write_admitted_witness:
  "\<exists>w''. get_buffer demo_ext (int 0) True (demo_filled []) = Inr (True, w'')"
proof -
  have "\<forall>i < 4. \<exists>w''. get_buffer demo_ext (int i) True (demo_filled []) = Inr (True, w'')"
    using next_write_admitted [OF demo_base_orderly demo_write_ok demo_filled_written, of "[]"]
    by (simp add: demo_filled_sel)
  from this [rule_format, of 0] show ?thesis by simp
qed

text \<open>C20 When reserved pieces (or a small pool) leave a limit of one buffer or none, a write to an
  ordinary piece that is admitted never returns: the only piece it could evict is the one being
  written, which trimming protects, so the loop spins for ever while it holds the mutex.\<close>

theorem writev_spins_at_limit_one:
  assumes o: "orderly X w" and ok: "write_ok w k off bufs" and ord: "k \<notin> reserved_set X w"
    and g: "get_buffer X (int k) True w = Inr (True, w1)" and lim: "buffer_limit w \<le> 1"
  shows "writev X bufs (int k) off w = None"
proof -
  note w = orderlyD [OF o]
  have "0 \<le> capacity w" using w(4) by (simp add: safe_def sized_def)
  moreover have "\<not> bs_test X (reserved_pieces w) k" using ord ok by (simp add: reserved_set_def write_ok_def)
  ultimately show ?thesis using writev_hangs [OF w(5) ok g _ lim] by blast
qed

lemma writev_spins_at_limit_one_witness:
  "writev demo_ext [iov [1, 2]] 0 0 (demo_world 1 8) = None"
proof -
  obtain w1 where g: "get_buffer demo_ext (int 0) True (demo_world 1 8) = Inr (True, w1)"
    using demo_single_granted by blast
  show ?thesis
    using writev_spins_at_limit_one [OF demo_world_orderly demo_single_ok _ g, of 0]
    by (simp add: demo_single_facts)
qed

end
