(* ===== verification/Storage_Properties.thy ===== *)
theory Storage_Properties
  imports Cache_Properties
begin

text \<open>
  The properties of the storage as a whole: what holds in every state a client can reach, how
  the counters relate to the buffers, what the control operations do, and the branches on which
  an operation refuses or faults.
\<close>

section \<open>Every reachable state\<close>

text \<open>C8 No sequence of calls whatever breaks the data structure: in every reachable state the
  pieces and buffers have the numbers and sizes the torrent and the capacity ask for, \<open>bi\<close> and
  \<open>pi\<close> are mutually inverse, free buffers are clean and used ones carry an access time. Nothing
  in the program completes a piece either, so no piece is ever completed or marked read, and the
  branches of the two reads that would set the mark are dead.\<close>

theorem reachable_well_formed:
  assumes "bitset_laws X" "reachable X w"
  shows "wf X w \<and> sized w \<and> (\<forall>p\<in>set (pieces w). \<not> mp_is_completed p \<and> \<not> mp_is_read p)"
  using reachable_safe [OF assms] by (simp add: safe_def never_completed_def)

lemma reachable_well_formed_witness: "wf demo_ext (demo_filled [1])"
  using reachable_well_formed [OF demo_bitset_laws demo_filled_reachable] by simp

text \<open>No data of one piece shows in another, in any reachable state: the buffers of two
  different buffered pieces are different positions of the pool, and the bytes of a buffer that
  is not lent to a piece are all zero.\<close>

theorem buffers_not_shared:
  assumes "bitset_laws X" "reachable X w"
  shows "(\<forall>i < length (pieces w). \<forall>k < length (pieces w). i \<noteq> k \<longrightarrow>
      is_buffered (pieces w ! i) \<longrightarrow> is_buffered (pieces w ! k) \<longrightarrow>
      mp_bi (pieces w ! i) \<noteq> mp_bi (pieces w ! k) \<and>
      0 \<le> mp_bi (pieces w ! i) \<and> mp_bi (pieces w ! i) < int (length (buffers w))) \<and>
    (\<forall>b\<in>set (buffers w). \<not> mb_is_used b \<longrightarrow> mb_buffer b = replicate (nat (piece_length w)) 0)"
proof -
  have wf: "wf X w" using reachable_safe [OF assms] by (simp add: safe_def)
  have "mp_bi (pieces w ! i) \<noteq> mp_bi (pieces w ! k) \<and>
      0 \<le> mp_bi (pieces w ! i) \<and> mp_bi (pieces w ! i) < int (length (buffers w))"
    if i: "i < length (pieces w)" "is_buffered (pieces w ! i)"
      and k: "k < length (pieces w)" "is_buffered (pieces w ! k)" and "i \<noteq> k" for i k
  proof -
    obtain a where a: "mp_bi (pieces w ! i) = int a" "a < length (buffers w)" "mb_pi (buffers w ! a) = int i"
      by (rule buffered_index [OF wf i])
    obtain b where b: "mp_bi (pieces w ! k) = int b" "mb_pi (buffers w ! b) = int k"
      by (rule buffered_index [OF wf k])
    have "a \<noteq> b" using a b that(5) by auto
    then show ?thesis using a b by simp
  qed
  moreover have "mb_buffer b = replicate (nat (piece_length w)) 0"
    if "b \<in> set (buffers w)" "\<not> mb_is_used b" for b
    using that wf_buffer [OF wf] by (fastforce simp: in_set_conv_nth buffer_ok_def)
  ultimately show ?thesis by blast
qed

lemma buffers_not_shared_witness:
  "mp_bi (pieces (demo_pair) ! 0) \<noteq> mp_bi (pieces (demo_pair) ! 1) \<and>
   mb_buffer (buffers (demo_filled []) ! 2) = replicate 4 0"
  using buffers_not_shared [OF demo_bitset_laws demo_pair_reachable]
    buffers_not_shared [OF demo_bitset_laws demo_filled_reachable, of "[]"]
  by (simp add: demo_pair_sel demo_filled_sel demo_filled_free del: One_nat_def)

text \<open>The memory bound: in every reachable state all buffers together hold at most the capacity
  and two pieces more.\<close>

theorem memory_bound:
  assumes "bitset_laws X" "reachable X w"
  shows "int (sum_list (map (\<lambda>b. length (mb_buffer b)) (buffers w))) \<le> capacity w + 2 * piece_length w"
proof -
  have s: "wf X w" "sized w" using reachable_safe [OF assms] by (auto simp: safe_def)
  have "map (\<lambda>b. int (length (mb_buffer b))) (buffers w) = replicate (length (buffers w)) (piece_length w)"
    using wf_buffer [OF s(1)] by (intro nth_equalityI) (auto simp: buffer_ok_def)
  then have "(\<Sum>b\<leftarrow>buffers w. int (length (mb_buffer b))) = buffer_size w * piece_length w"
    using wf_shape(8) [OF s(1)] by (simp add: sum_list_replicate)
  moreover have "buffer_size w * piece_length w \<le> capacity w + 2 * piece_length w"
    using s(2) wf_shape(5) [OF s(1)] by (intro max_buffers_memory) (auto simp: sized_def)
  ultimately show ?thesis by (simp add: int_sum_list_map o_def)
qed

lemma memory_bound_witness:
  "int (sum_list (map (\<lambda>b. length (mb_buffer b)) (buffers (demo_filled [])))) \<le> 16"
  using memory_bound [OF demo_bitset_laws demo_filled_reachable, of "[]"] by (simp add: demo_filled_sel)

section \<open>The counters\<close>

text \<open>C9 The counters are right after any run of calls that respects the accounting (memory size
  grown only while no reserved piece is in the cache, reserved range changed only for pieces
  outside the cache, only ordinary pieces removed by hand): \<open>buffer_used\<close> is the number of
  buffers lent to ordinary pieces, \<open>buffer_limit\<close> the pool less the buffers lent to reserved
  pieces, and neither leaves the range from zero to the size of the pool.\<close>

theorem counters_exact:
  assumes "orderly X w" "calls_to (benign X) (exec X) w w'"
  shows "buffer_used w' = count_if (lent X (reserved_pieces w') False) (buffers w') \<and>
    buffer_limit w' = buffer_size w' - count_if (lent X (reserved_pieces w') True) (buffers w') \<and>
    0 \<le> buffer_used w' \<and> buffer_used w' \<le> buffer_size w' \<and>
    0 \<le> buffer_limit w' \<and> buffer_limit w' \<le> buffer_size w'"
proof -
  have "orderly X w'" using exec_benign.kept_by_runs [OF assms(2,1)] .
  then have "wf X w'" "acct X w'" by (rule orderlyD)+
  then show ?thesis using acct_bounds [of X w'] by (auto simp: acct_def)
qed

lemma counters_exact_witness:
  "buffer_used (demo_filled []) = count_if (lent demo_ext (reserved_pieces (demo_filled [])) False)
     (buffers (demo_filled []))"
proof -
  have "calls_to (benign demo_ext) (exec demo_ext) (demo_base []) (demo_filled [])"
    using demo_filled_exec [of "[]"]
    by (intro calls_to.one_more [OF calls_to.no_call, of _ "Writev [iov [1, 2, 3, 4]] 1 0"]) simp_all
  then show ?thesis using counters_exact [OF demo_base_orderly, of "[]"] by simp
qed

text \<open>Growing the memory forgets the reserved pieces: a call that raises the memory size sets
  the limit to the whole pool, so when a reserved piece is in the cache the counters no longer
  agree with the buffers, and the limit promises more buffers than are left for ordinary
  pieces.\<close>

lemma growing_forgets_reserved:
  assumes o: "orderly X w" and r: "reserved_lent X w > 0" and s: "capacity w < s"
    and g: "set_memory_size s w = Inr w'"
  shows "buffer_limit w' = buffer_size w' \<and>
    buffer_size w' - reserved_lent X w' < buffer_limit w' \<and> \<not> acct X w'"
proof -
  obtain n where "w' = grown s n w"
    using set_memory_size_InrD [OF orderlyD(4) [OF o] g] s by auto
  then have "reserved_lent X w' = reserved_lent X w" "buffer_limit w' = n" "buffer_size w' = n"
    using lent_grown [of X "reserved_pieces w" True s n w] by (simp_all add: reserved_lent_def grown_def)
  then show ?thesis using r by (simp add: acct_def reserved_lent_def)
qed

text \<open>Changing the reserved range leaves both counters as they were, so the accounting stays
  right exactly when the number of buffers lent to reserved pieces is the same before and
  after.\<close>

lemma reserving_keeps_counters:
  assumes o: "orderly X w" and r: "update_reserved_pieces X ps w = Inr w'"
  shows "buffer_used w' = buffer_used w \<and> buffer_limit w' = buffer_limit w \<and>
    (acct X w' \<longleftrightarrow> reserved_lent X w' = reserved_lent X w)"
proof -
  note w = orderlyD [OF o]
  obtain b where w': "w' = w\<lparr>reserved_pieces := b, buffer_reserved := int (length ps)\<rparr>"
    using update_reserved_InrD [OF w(6,4) r] by blast
  have "count_if (lent X b False) (buffers w) + count_if (lent X b True) (buffers w) =
      count_if (lent X (reserved_pieces w) False) (buffers w) +
      count_if (lent X (reserved_pieces w) True) (buffers w)"
    using used_split [of "buffers w" X b] used_split [of "buffers w" X "reserved_pieces w"] by simp
  then show ?thesis using w(2) by (auto simp: w' acct_def reserved_lent_def)
qed

text \<open>C30 Two calls leave the counters wrong. A call that raises the memory size while a reserved
  piece is in the cache sets the limit to the whole pool, more than is left for ordinary pieces.
  A call that changes the reserved range leaves both counters as they were, so they stay right
  exactly when as many lent buffers belong to reserved pieces after it as before.\<close>

theorem reserved_pieces_miscounted:
  assumes o: "orderly X w"
  shows "(0 < reserved_lent X w \<and> capacity w < s \<and> set_memory_size s w = Inr v \<longrightarrow>
      buffer_limit v = buffer_size v \<and> buffer_size v - reserved_lent X v < buffer_limit v \<and> \<not> acct X v) \<and>
    (update_reserved_pieces X ps w = Inr u \<longrightarrow>
      buffer_used u = buffer_used w \<and> buffer_limit u = buffer_limit w \<and>
      (acct X u \<longleftrightarrow> reserved_lent X u = reserved_lent X w))"
  using growing_forgets_reserved [OF o] reserving_keeps_counters [OF o] by blast

lemma reserved_pieces_miscounted_witness:
  "(\<exists>v. set_memory_size 100 (demo_filled [1]) = Inr v \<and> \<not> acct demo_ext v) \<and>
   (\<exists>u. update_reserved_pieces demo_ext [1] (demo_filled []) = Inr u \<and> buffer_limit u = 4 \<and> \<not> acct demo_ext u)"
proof
  obtain v where v: "set_memory_size 100 (demo_filled [1]) = Inr v" using demo_filled_grow by blast
  then show "\<exists>v. set_memory_size 100 (demo_filled [1]) = Inr v \<and> \<not> acct demo_ext v"
    using reserved_pieces_miscounted [OF demo_filled_orderly, of "[1]" 100 v] demo_filled_lent
    by (simp add: demo_filled_sel)
next
  obtain u where u: "update_reserved_pieces demo_ext [1] (demo_filled []) = Inr u"
    "reserved_lent demo_ext u = 1"
    using demo_filled_reserve by blast
  then show "\<exists>u. update_reserved_pieces demo_ext [1] (demo_filled []) = Inr u \<and> buffer_limit u = 4 \<and>
      \<not> acct demo_ext u"
    using reserved_pieces_miscounted [OF demo_filled_orderly, of "[]" _ _ "[1]" u] demo_filled_lent
    by simp
qed

end
