(* ===== verification/Branch_Properties.thy ===== *)
theory Branch_Properties
  imports Cache_Properties
begin

text \<open>
  Branch by branch: construction, the control operations, refusals and faults.
\<close>

section \<open>Construction\<close>

text \<open>The constructor. For a torrent and a memory size whose buffer count fits an \<open>int\<close>, it
  makes one piece per piece of the torrent and one clean buffer per piece length of memory
  plus two, capped by the number of pieces; every counter starts at its empty value and the
  result satisfies the well-formedness and the accounting invariant. Neither handle pointer is
  assigned.\<close>

theorem constructor_establishes:
  assumes X: "bitset_laws X" and ti: "info_ok ti" and mem: "0 \<le> mem" "mem div ti_piece_length ti + 2 \<le> INT_MAX"
  shows "\<exists>s. new_memory_storage X mem ti = Inr s \<and>
    wf X (in_world s t c) \<and> acct X (in_world s t c) \<and>
    buffer_size s = min (ti_num_pieces ti) (mem div ti_piece_length ti + 2) \<and>
    buffer_limit s = buffer_size s \<and> buffer_used s = 0 \<and> cached (in_world s t c) = Map.empty \<and>
    m_handle s = Indeterminate \<and> m_t s = Indeterminate"
proof -
  obtain s where s: "new_memory_storage X mem ti = Inr s" "wf X (in_world s t c)" "acct X (in_world s t c)"
    using constructor_wf [OF X ti mem] by blast
  show ?thesis
    using s new_memory_storage_eq [OF ti mem, of X]
    by (auto simp: cached_def is_buffered_def new_memory_piece_def fun_eq_iff)
qed

lemma constructor_establishes_witness:
  "\<exists>s. new_memory_storage demo_ext 8 (demo_info 4) = Inr s \<and> buffer_size s = 4"
  using constructor_establishes [OF demo_bitset_laws demo_info_ok, of 4 8]
  by (simp add: demo_info_def INT_MAX_def) blast

section \<open>Memory size\<close>

text \<open>Growing the memory. A request that is not larger changes nothing; a larger one whose
  buffer count fits an \<open>int\<close> sets the capacity, never shrinks the pool, appends only clean
  buffers up to the new count, and leaves the cache, the pieces and the used count alone.\<close>

theorem set_memory_size_grows:
  assumes "safe X w" "set_memory_size s w = Inr w'"
  shows "capacity w' = max (capacity w) s \<and> buffer_size w \<le> buffer_size w' \<and>
    (capacity w < s \<longrightarrow>
       max_buffers s (piece_length w) (piece_count w) = Inr (buffer_size w')) \<and>
    pieces w' = pieces w \<and> buffer_used w' = buffer_used w \<and> cached w' = cached w \<and>
    take (length (buffers w)) (buffers w') = buffers w \<and>
    (\<forall>b\<in>set (drop (length (buffers w)) (buffers w')).
       \<not> mb_is_used b \<and> mb_buffer b = replicate (nat (piece_length w)) 0)"
proof -
  have wf: "wf X w" using assms(1) by (simp add: safe_def)
  from set_memory_size_InrD [OF assms] consider (same) "s \<le> capacity w" "w' = w"
    | (grew) n where "capacity w < s" "max_buffers s (piece_length w) (piece_count w) = Inr n"
      "buffer_size w \<le> n" "w' = grown s n w" by blast
  then show ?thesis
  proof cases
    case grew
    have "cached w' = cached w" using grown_keeps_cache(1) [OF wf] grew(4) by simp
    moreover have "capacity w' = max (capacity w) s" "buffer_size w' = n" "pieces w' = pieces w"
      "buffer_used w' = buffer_used w" using grew by (simp_all add: grown_def)
    moreover have "take (length (buffers w)) (buffers w') = buffers w"
      "\<forall>b\<in>set (drop (length (buffers w)) (buffers w')).
         \<not> mb_is_used b \<and> mb_buffer b = replicate (nat (piece_length w)) 0"
      using grew(4) by (simp_all add: grown_def empty_buffer_def)
    ultimately show ?thesis using grew by blast
  qed simp
qed

lemma set_memory_size_grows_witness:
  "\<exists>w'. set_memory_size 100 (demo_filled [1]) = Inr w' \<and> capacity w' = 100 \<and>
     cached w' 1 = Some [1, 2, 3, 4]"
proof -
  obtain w' where w': "set_memory_size 100 (demo_filled [1]) = Inr w'" using demo_filled_grow by blast
  show ?thesis
    using set_memory_size_grows [OF orderlyD(4) [OF demo_filled_orderly] w'] w' demo_filled_cached [of "[1]"]
    by (simp add: demo_filled_sel del: One_nat_def)
qed

section \<open>The reserved range\<close>

text \<open>Replacing the reserved range succeeds exactly when every listed number lies in the
  bitset, which has ten positions more than the torrent has pieces; nothing checks the numbers,
  so any other list faults. When it succeeds, a piece of the torrent is reserved exactly when it
  was listed, whatever was reserved before, and the count of reserved pieces is the length of
  the list, duplicates included.\<close>

theorem reserved_exactly_listed:
  assumes X: "bitset_laws X" and s: "safe X w" and n: "int (length ps) \<le> INT_MAX"
  shows "((\<exists>w'. update_reserved_pieces X ps w = Inr w') \<longleftrightarrow>
      (\<forall>p\<in>set ps. 0 \<le> p \<and> p < piece_count w + 10)) \<and>
    (\<forall>w'. update_reserved_pieces X ps w = Inr w' \<longrightarrow> buffer_reserved w' = int (length ps) \<and>
      (\<forall>i. 0 \<le> i \<longrightarrow> i < piece_count w \<longrightarrow> is_reserved X i w' = Inr (i \<in> set ps)))"
proof -
  let ?r = "bs_reset X (reserved_pieces w)"
  have wf: "wf X w" using s by (simp add: safe_def)
  have sz: "int (bs_size X ?r) = piece_count w + 10"
    using X wf_shape(2,10) [OF wf] by (simp add: bitset_laws_def)
  have "buffer_reserved w' = int (length ps) \<and>
      (\<forall>i. 0 \<le> i \<longrightarrow> i < piece_count w \<longrightarrow> is_reserved X i w' = Inr (i \<in> set ps))"
    if u: "update_reserved_pieces X ps w = Inr w'" for w'
  proof -
    obtain b where b: "w' = w\<lparr>reserved_pieces := b, buffer_reserved := int (length ps)\<rparr>"
      "bs_size X b = bs_size X (reserved_pieces w)" "\<forall>i < bs_size X b. bs_test X b i = (int i \<in> set ps)"
      using update_reserved_InrD [OF X s u] by blast
    have "i < int (bs_size X b) \<and> bs_test X b (nat i) = (i \<in> set ps)" if "0 \<le> i" "i < piece_count w" for i
      using b(2) spec [OF b(3), of "nat i"] wf_shape(10) [OF wf] that by simp
    then show ?thesis
      using b(1) wf_shape(1) [OF wf] by (simp add: is_reserved_def bit_test_def)
  qed
  moreover have "(\<exists>w'. update_reserved_pieces X ps w = Inr w') \<longleftrightarrow> (\<exists>r. reserve_bits X ?r 0 ps = Inr r)"
    using wf_shape(1) [OF wf]
    by (cases "reserve_bits X ?r 0 ps") (auto simp: update_reserved_pieces_def)
  moreover have "(\<exists>r. reserve_bits X ?r 0 ps = Inr r) \<longleftrightarrow> (\<forall>p\<in>set ps. 0 \<le> p \<and> p < piece_count w + 10)"
    using reserve_bits_spec [OF X, of ?r 0 ps] reserve_bits_total [OF X, of ps ?r 0] n
    unfolding sz by auto
  ultimately show ?thesis by blast
qed

lemma reserved_exactly_listed_witness:
  "\<exists>w'. update_reserved_pieces demo_ext [1] (demo_filled []) = Inr w' \<and>
     is_reserved demo_ext 1 w' = Inr True \<and> buffer_reserved w' = 1 \<and>
     (\<nexists>w'. update_reserved_pieces demo_ext [1, 99] (demo_filled []) = Inr w')"
proof -
  obtain w' where w': "update_reserved_pieces demo_ext [1] (demo_filled []) = Inr w'"
    using demo_filled_reserve by blast
  note listed = reserved_exactly_listed [OF demo_bitset_laws orderlyD(4) [OF demo_filled_orderly]]
  show ?thesis
    using listed [of "[]" "[1]"] listed [of "[]" "[1, 99]"] w'
    by (simp add: demo_filled_count INT_MAX_def)
qed

section \<open>Refusals\<close>

text \<open>The calls that make libtorrent's picker forget a piece, in the order the code makes them.\<close>

definition give_back :: "('b, 't) ext \<Rightarrow> int \<Rightarrow> 't \<Rightarrow> 't" where
  "give_back X i t = we_dont_have X (set_piece_priority X (reset_piece_deadline X t i) i 0) i"

lemma restore_piece_valid:
  "m_handle w = Valid \<Longrightarrow> m_t w = Valid \<Longrightarrow>
   restore_piece X i w = Inr (w\<lparr>torrent := give_back X i (torrent w)\<rparr>)"
  by (simp add: restore_piece_def non_null_def give_back_def Let_def)

text \<open>A read of a piece that is not in the cache, or of which fewer bytes were written than it
  has, returns -1, leaves the caller's memory alone and gives the piece back to the picker
  (deadline reset, priority zero, not had); from then on the storage counts as being read.\<close>

lemma incomplete_read_gives_back:
  assumes s: "safe X w" and k: "k < length (pieces w)"
    and no: "\<not> is_buffered (pieces w ! k) \<or> mp_size (pieces w ! k) < mp_length (pieces w ! k)"
    and h: "m_handle w = Valid" "m_t w = Valid"
  shows "read X buf sz (int k) off w =
    Inr (-1, buf, w\<lparr>is_reading := True, torrent := give_back X (int k) (torrent w)\<rparr>)"
  using read_refused [OF s k, of buf sz off] no h by (auto simp: restore_piece_valid)

text \<open>Once something was read, a write to a piece that is not in the cache and whose priority is
  zero is turned away: it stores nothing, returns 0, gives the piece back to the picker and
  leaves cache and counters as they were.\<close>

lemma unwanted_write_refused:
  assumes o: "orderly X w" and k: "k < length (pieces w)" "\<not> is_buffered (pieces w ! k)"
    and rd: "is_reading w" and h: "m_handle w = Valid" "m_t w = Valid"
    and prio: "piece_priority X (torrent w) (int k) = 0"
  shows "writev X bufs (int k) off w =
    Some (Inr (0, w\<lparr>torrent := give_back X (int k) (torrent w)\<rparr>))"
proof -
  note w = orderlyD [OF o]
  have "\<not> readered X w (int k)" using h prio by (simp add: readered_def)
  then obtain t where "restore_piece X (int k) w = Inr (w\<lparr>torrent := t\<rparr>)"
    "get_buffer X (int k) True w = Inr (False, w\<lparr>torrent := t\<rparr>)"
    using get_buffer_unwanted [OF w(5) k rd] by blast
  then have "get_buffer X (int k) True w = Inr (False, w\<lparr>torrent := give_back X (int k) (torrent w)\<rparr>)"
    unfolding restore_piece_valid [OF h] by (simp only: sum.inject)
  then show ?thesis by (rule writev_refused [OF w(1)])
qed

text \<open>C31 What is refused goes back to the picker, and nothing else changes. A read of a piece that
  is not in the cache, or of which fewer bytes were written than it has, returns -1 and leaves
  the caller's memory alone; once something was read, a write to a piece that is not in the
  cache and whose priority is zero stores nothing and returns 0. Both give the piece back:
  deadline reset, priority zero, not had.\<close>

theorem refusals_give_back:
  assumes o: "orderly X w" and k: "k < length (pieces w)" and h: "m_handle w = Valid" "m_t w = Valid"
  shows "(\<not> is_buffered (pieces w ! k) \<or> mp_size (pieces w ! k) < mp_length (pieces w ! k) \<longrightarrow>
      read X buf sz (int k) off w =
        Inr (-1, buf, w\<lparr>is_reading := True, torrent := give_back X (int k) (torrent w)\<rparr>)) \<and>
    (\<not> is_buffered (pieces w ! k) \<and> is_reading w \<and> piece_priority X (torrent w) (int k) = 0 \<longrightarrow>
      writev X bufs (int k) off w = Some (Inr (0, w\<lparr>torrent := give_back X (int k) (torrent w)\<rparr>)))"
  using incomplete_read_gives_back [OF orderlyD(4) [OF o] k _ h] unwanted_write_refused [OF o k _ _ h]
  by blast

lemma refusals_give_back_witness:
  "\<exists>w' w''. read demo_ext [0] 1 0 0 (demo_filled []) = Inr (-1, [0], w') \<and> torrent w' 0 = 0 \<and>
     writev demo_ext [iov [1]] 2 0 ((demo_filled [])\<lparr>is_reading := True\<rparr>) = Some (Inr (0, w''))"
  using refusals_give_back [OF demo_filled_orderly, of "[]" 0 "[0]" 1 0]
    refusals_give_back [OF demo_reading_orderly, of 2 _ _ _ "[iov [1]]"]
  by (simp add: demo_filled_sel demo_filled_handle give_back_def) (simp add: demo_ext_def)

section \<open>Faults\<close>

text \<open>A scattered read with an offset past the end of the buffer faults on its first entry: the
  subtraction of the offset from the size wraps, so the bound on the bytes to copy is lost and
  the copy starts outside the buffer.\<close>

lemma readv_past_end_faults:
  assumes s: "safe X w" and d: "cached w k = Some d"
    and off: "piece_length w < off" and vs: "bufs = v # vs"
  shows "readv X bufs (int k) off w = Inl OutOfBounds"
proof -
  have wf: "wf X w" using s by (simp add: safe_def)
  have k: "k < length (pieces w)" "is_buffered (pieces w ! k)" using d by (auto simp: cached_Some)
  have "int (length (piece_data w k)) = piece_length w" by (rule length_piece_data [OF wf k])
  then have "mem_load (piece_data w k) off n = Inl OutOfBounds" for n
    using off by (simp add: mem_load_def)
  then show ?thesis
    using k wf_shape(1) [OF wf] piece_buffer_eq [OF wf k] vs
    by (simp add: readv_def get_read_buffer_eq piece_data_def Let_def)
qed

text \<open>The same wrap in the write: with an offset past the end of the piece the bound on the
  bytes to copy is lost. A block that still ends inside the buffer, which for the last piece of
  a torrent may be longer than the piece, is stored whole behind the end of the piece and
  counted; one that does not is a write outside the buffer.\<close>

lemma write_past_piece_unbounded:
  assumes off: "len < off" "0 \<le> len" "off \<le> INT_MAX" and v: "iov_ok v"
    and small: "int (length (iov_base v)) + off \<le> INT_MAX"
  shows "writev_loop len [v] off 0 data =
    (if off + int (length (iov_base v)) \<le> int (length data)
     then Inr (int (length (iov_base v)), patch data (nat off) (iov_base v))
     else Inl OutOfBounds)"
proof -
  let ?m = "int (length (iov_base v))"
  have v': "uint (iov_len v) = ?m" using v by (simp add: iov_ok_def)
  have "to_size_t len - to_size_t off = to_size_t (len - off)" by (simp add: to_size_t_def)
  moreover have "uint (to_size_t (len - off)) = (len - off) mod 2 ^ 64"
    unfolding to_size_t_def by (subst uint_word_of_int) (simp add: take_bit_eq_mod)
  ultimately have "uint (to_size_t len - to_size_t off) = (len - off) mod 2 ^ 64" by simp
  also have "\<dots> = len - off + 2 ^ 64"
    using off by (subst mod_add_self2 [symmetric], subst mod_pos_pos_trivial) (simp_all add: INT_MAX_def)
  finally have "iov_len v \<le> to_size_t len - to_size_t off"
    using v' off small by (simp add: word_le_def INT_MAX_def)
  then have "to_int32 (min (to_size_t len - to_size_t off) (iov_len v)) = ?m"
    using to_int32_small [of "iov_len v"] v' small off by (simp add: min_def INT_MAX_def)
  moreover have "mem_load (iov_base v) 0 ?m = Inr (iov_base v)" by (simp add: mem_load_def)
  ultimately show ?thesis
    using off small by (simp add: mem_store_def i32_nonneg)
qed

text \<open>C29 With an offset past the end the bound on the bytes to copy is lost, because the
  \<open>size_t\<close> subtraction of the offset wraps. A scattered read faults on its first entry. A block
  written past the end of the piece that still ends inside the buffer is stored whole behind the
  piece, and counted; one that does not is a write outside the buffer.\<close>

theorem offset_past_end_unbounded:
  assumes s: "safe X w" "cached w k = Some d" and v: "iov_ok v"
  shows "(piece_length w < off \<longrightarrow> readv X (v # vs) (int k) off w = Inl OutOfBounds) \<and>
    (mp_length (pieces w ! k) < off \<and> off + int (length (iov_base v)) \<le> INT_MAX \<longrightarrow>
      writev_loop (mp_length (pieces w ! k)) [v] off 0 d =
        (if off + int (length (iov_base v)) \<le> piece_length w
         then Inr (int (length (iov_base v)), patch d (nat off) (iov_base v))
         else Inl OutOfBounds))"
proof -
  have wf: "wf X w" using s(1) by (simp add: safe_def)
  have k: "k < length (pieces w)" "is_buffered (pieces w ! k)" "d = piece_data w k"
    using s(2) by (auto simp: cached_Some)
  have len: "int (length d) = piece_length w" using length_piece_data [OF wf k(1,2)] k(3) by simp
  have "0 \<le> mp_length (pieces w ! k)" using wf_piece [OF wf k(1)] by (simp add: piece_ok_def)
  then show ?thesis
    using readv_past_end_faults [OF s, of off "v # vs" v vs] write_past_piece_unbounded [of _ off v d] v len
    by auto
qed

lemma offset_past_end_unbounded_witness:
  "readv demo_ext [iov [0]] 1 5 (demo_filled []) = Inl OutOfBounds \<and>
   writev_loop 4 [iov [7, 8]] 5 0 [1, 2, 3, 4] = Inl OutOfBounds"
  using offset_past_end_unbounded [OF orderlyD(4) [OF demo_filled_orderly, of "[]"] demo_filled_cached,
      of "iov [0]" 5 "[]"]
    offset_past_end_unbounded [OF orderlyD(4) [OF demo_filled_orderly, of "[]"] demo_filled_cached,
      of "iov [7, 8]" 5]
  by (simp add: demo_filled_sel iov_ok_iov INT_MAX_def del: One_nat_def writev_loop.simps)

end
