(* ===== verification/Locking.thy ===== *)
theory Locking
  imports Progress_Properties
begin

text \<open>
  \<open>get_buffer\<close> called by any number of threads at once. The function tests \<open>p->is_buffered()\<close>
  without the mutex, takes the mutex, tests again and only then searches the pool. Here it is
  cut into the steps another thread may see: the unprotected test, waiting for the mutex, and
  inside the mutex the second test, each turn of the search, the claim of a buffer, the link of
  the piece, and the counters. The mutex is the thread that owns it.
\<close>

section \<open>The steps of get_buffer\<close>

datatype gb_pc =
    Fast_test
  | Wait
  | Retest
  | Search int
  | Link int
  | Count
  | Leave
  | Returned bool

fun locked :: "gb_pc \<Rightarrow> bool" where
  "locked Fast_test = False"
| "locked Wait = False"
| "locked (Returned b) = False"
| "locked _ = True"

text \<open>
  \<open>buffers[i]\<close> marked used, for the piece and with the time of access: the first half of the
  body of the search loop. The second half links the piece and adjusts a counter.
\<close>

definition claim_buffer :: "int \<Rightarrow> int \<Rightarrow> ('b, 't) world \<Rightarrow> ub + ('b, 't) world" where
  "claim_buffer pz i w =
     bindE (vec_at (pieces w) pz) (\<lambda>p.
     let (t, w1) = now w in
     bindE (vec_upd (buffers w1) i
        (\<lambda>b. b\<lparr>mb_is_used := True, mb_pi := mp_index p, mb_accessed := t\<rparr>)) (\<lambda>bs.
       Inr (w1\<lparr>buffers := bs\<rparr>)))"

definition link_piece :: "int \<Rightarrow> int \<Rightarrow> ('b, 't) world \<Rightarrow> ub + ('b, 't) world" where
  "link_piece pz i w =
     bindE (vec_at (buffers w) i) (\<lambda>b.
     bindE (vec_upd (pieces w) pz (\<lambda>p. p\<lparr>mp_bi := mb_index b\<rparr>)) (\<lambda>ps.
       Inr (w\<lparr>pieces := ps\<rparr>)))"

definition count_buffer :: "('b, 't) ext \<Rightarrow> int \<Rightarrow> ('b, 't) world \<Rightarrow> ub + ('b, 't) world" where
  "count_buffer X pz w =
     bindE (vec_at (pieces w) pz) (\<lambda>p.
     bindE (bit_test X (reserved_pieces w) (mp_index p)) (\<lambda>reserved.
       if reserved then bindE (i32 (buffer_limit w - 1)) (\<lambda>n. Inr (w\<lparr>buffer_limit := n\<rparr>))
       else bindE (i32 (buffer_used w + 1)) (\<lambda>n. Inr (w\<lparr>buffer_used := n\<rparr>))))"

fun gb_step ::
  "('b, 't) ext \<Rightarrow> int \<Rightarrow> bool \<Rightarrow> gb_pc \<Rightarrow> ('b, 't) world \<Rightarrow> ub + gb_pc \<times> ('b, 't) world" where
  "gb_step X pz is_write Fast_test w =
     bindE (vec_at (pieces w) pz) (\<lambda>p. Inr (if is_buffered p then Returned True else Wait, w))"
| "gb_step X pz is_write Wait w = Inr (Retest, w)"
| "gb_step X pz is_write Retest w =
     bindE (vec_at (pieces w) pz) (\<lambda>p.
       if \<not> is_write then Inr (Returned (is_buffered p), w)
       else if is_buffered p then Inr (Returned True, w)
       else bindE (if is_reading w then bindE (is_readered X (mp_index p) w) (\<lambda>r. Inr (\<not> r))
                   else Inr False) (\<lambda>refuse.
         if refuse then bindE (restore_piece X (mp_index p) w) (\<lambda>w. Inr (Returned False, w))
         else Inr (Search 0, w)))"
| "gb_step X pz is_write (Search i) w =
     (if i < buffer_size w
      then bindE (vec_at (buffers w) i) (\<lambda>b.
        if mb_is_used b then Inr (Search (i + 1), w)
        else bindE (claim_buffer pz i w) (\<lambda>w. Inr (Link i, w)))
      else Inr (Leave, w))"
| "gb_step X pz is_write (Link i) w = bindE (link_piece pz i w) (\<lambda>w. Inr (Count, w))"
| "gb_step X pz is_write Count w = bindE (count_buffer X pz w) (\<lambda>w. Inr (Leave, w))"
| "gb_step X pz is_write Leave w =
     bindE (vec_at (pieces w) pz) (\<lambda>p. Inr (Returned (is_buffered p), w))"
| "gb_step X pz is_write (Returned b) w = Inr (Returned b, w)"

section \<open>Threads\<close>

text \<open>Thread \<open>i\<close> calls \<open>get_buffer(&pieces[piece i], is_write i)\<close>.\<close>

record ('b, 't) threads =
  at :: "nat \<Rightarrow> gb_pc"
  owner :: "nat option"
  shared :: "('b, 't) world"

fun has_returned :: "gb_pc \<Rightarrow> bool" where
  "has_returned (Returned b) = True"
| "has_returned _ = False"

definition may_step :: "nat \<Rightarrow> ('b, 't) threads \<Rightarrow> bool" where
  "may_step i c \<longleftrightarrow> \<not> has_returned (at c i) \<and> (at c i = Wait \<longrightarrow> owner c = None)"

definition move ::
  "('b, 't) ext \<Rightarrow> (nat \<Rightarrow> nat) \<Rightarrow> (nat \<Rightarrow> bool) \<Rightarrow> nat \<Rightarrow> ('b, 't) threads
    \<Rightarrow> (ub + ('b, 't) threads) option" where
  "move X piece wr i c =
     Some (bindE (gb_step X (int (piece i)) (wr i) (at c i) (shared c)) (\<lambda>(pc, w).
       Inr \<lparr>at = (at c)(i := pc),
            owner = (if locked pc then Some i else if locked (at c i) then None else owner c),
            shared = w\<rparr>))"

definition all_start :: "('b, 't) world \<Rightarrow> ('b, 't) threads" where
  "all_start w = \<lparr>at = (\<lambda>i. Fast_test), owner = None, shared = w\<rparr>"

section \<open>Whole calls, one after the other\<close>

inductive one_by_one ::
  "('b, 't) ext \<Rightarrow> (nat \<Rightarrow> nat) \<Rightarrow> (nat \<Rightarrow> bool) \<Rightarrow> (nat \<times> bool) list \<Rightarrow>
   ('b, 't) world \<Rightarrow> ('b, 't) world \<Rightarrow> bool"
  for X piece wr where
  none_yet: "one_by_one X piece wr [] w w"
| and_then: "one_by_one X piece wr h w v \<Longrightarrow>
     get_buffer X (int (piece i)) (wr i) v = Inr (b, u) \<Longrightarrow>
     one_by_one X piece wr (h @ [(i, b)]) w u"

section \<open>The critical section\<close>

text \<open>
  The states inside the mutex, against the state \<open>a\<close> that the calls done so far have produced
  one by one. A call that finds a buffer takes effect when the piece is linked.
\<close>

definition claimed :: "nat \<Rightarrow> nat \<Rightarrow> ('b, 't) world \<Rightarrow> ('b, 't) world" where
  "claimed k j a =
     a\<lparr>ticks := Suc (ticks a),
       buffers := (buffers a)[j := lent_buffer (int k) (Some (clock a (ticks a))) (buffers a ! j)]\<rparr>"

definition linked :: "nat \<Rightarrow> nat \<Rightarrow> ('b, 't) world \<Rightarrow> ('b, 't) world" where
  "linked k j a = (claimed k j a)\<lparr>pieces := (pieces a)[k := (pieces a ! k)\<lparr>mp_bi := int j\<rparr>]\<rparr>"

definition searching :: "('b, 't) ext \<Rightarrow> nat \<Rightarrow> bool \<Rightarrow> nat \<Rightarrow> ('b, 't) world \<Rightarrow> bool" where
  "searching X k wr j a \<longleftrightarrow>
     wr \<and> \<not> is_buffered (pieces a ! k) \<and> (is_reading a \<longrightarrow> readered X a (int k)) \<and>
     j \<le> length (buffers a) \<and> (\<forall>l < j. mb_is_used (buffers a ! l))"

fun in_section ::
  "('b, 't) ext \<Rightarrow> nat \<Rightarrow> bool \<Rightarrow> gb_pc \<Rightarrow> ('b, 't) world \<Rightarrow> ('b, 't) world \<Rightarrow> bool" where
  "in_section X k wr Retest w a = (w = a)"
| "in_section X k wr (Search i) w a = (0 \<le> i \<and> w = a \<and> searching X k wr (nat i) a)"
| "in_section X k wr (Link i) w a =
     (0 \<le> i \<and> i < int (length (buffers a)) \<and> searching X k wr (nat i) a \<and>
      \<not> mb_is_used (buffers a ! nat i) \<and> w = claimed k (nat i) a)"
| "in_section X k wr Count w a =
     (wr \<and> (\<exists>a0 j. trim_inv X a0 \<and> k < length (pieces a0) \<and> w = linked k j a0 \<and> a = assigned X k j a0))"
| "in_section X k wr Leave w a =
     (w = a \<and> wr \<and> (is_buffered (pieces a ! k) \<or> searching X k wr (length (buffers a)) a))"
| "in_section X k wr _ w a = False"

lemma search_free:
  assumes inv: "trim_inv X a" and k: "k < length (pieces a)" and s: "searching X k wr j a"
    and j: "j < length (buffers a)" "\<not> mb_is_used (buffers a ! j)"
  shows "get_buffer X (int k) True a = Inr (True, assigned X k j a)"
proof -
  have w: "wf X a" "acct X a" "handle_ok a" using inv by (auto simp: trim_inv_def)
  have ix: "mp_index (pieces a ! k) = int k" using wf_piece [OF w(1) k] by (simp add: piece_ok_def)
  note b = acct_bounds [OF w(1,2)]
  obtain i where i: "i < length (buffers a)" "\<not> mb_is_used (buffers a ! i)" "\<forall>l < i. mb_is_used (buffers a ! l)"
    "get_buffer_loop X (int k) 0 a = assign_buffer X (int k) (int i) a"
    using get_buffer_loop_cases [OF w(1), of 0 "int k"] j by auto
  have "i = j" using i(2,3) j(2) s by (metis searching_def linorder_neqE_nat)
  moreover have "assign_buffer X (int k) (int j) a = Inr (assigned X k j a)"
    using b by (intro assign_buffer_eq [OF w(1) k j(1) refl]) (auto simp: INT_MAX_def INT_MIN_def)
  ultimately have "get_buffer_loop X (int k) 0 a = Inr (assigned X k j a)" using i(4) by simp
  then show ?thesis
    using k s ix is_readered_eq [OF w(1,3)]
    by (cases "is_reading a") (simp_all add: get_buffer_def searching_def is_buffered_def)
qed

lemma search_full:
  assumes inv: "trim_inv X a" and k: "k < length (pieces a)"
    and s: "searching X k wr (length (buffers a)) a"
  shows "get_buffer X (int k) True a = Inr (False, a)"
proof -
  have w: "wf X a" "handle_ok a" using inv by (auto simp: trim_inv_def)
  have ix: "mp_index (pieces a ! k) = int k" using wf_piece [OF w(1) k] by (simp add: piece_ok_def)
  have "get_buffer_loop X (int k) 0 a = Inr a"
    using get_buffer_loop_cases [OF w(1), of 0 "int k"] s by (auto simp: searching_def)
  then show ?thesis
    using k s ix is_readered_eq [OF w]
    by (cases "is_reading a") (simp_all add: get_buffer_def searching_def)
qed

text \<open>Inside the mutex the links of the pieces are those of \<open>a\<close>, so tests from outside agree.\<close>

lemma in_section_pieces: "in_section X k wr pc w a \<Longrightarrow> pieces w = pieces a"
  by (cases pc) (auto simp: claimed_def linked_def)

lemma in_section_locked: "in_section X k wr pc w a \<Longrightarrow> locked pc"
  by (cases pc) auto

lemma claim_buffer_eq:
  assumes "wf X a" "k < length (pieces a)" "j < length (buffers a)"
  shows "claim_buffer (int k) (int j) a = Inr (claimed k j a)"
  using assms wf_piece [OF assms(1,2)]
  by (simp add: claim_buffer_def claimed_def now_def lent_buffer_def piece_ok_def Let_def)

lemma link_piece_eq:
  assumes "wf X a" "k < length (pieces a)" "j < length (buffers a)"
  shows "link_piece (int k) (int j) (claimed k j a) = Inr (linked k j a)"
  using assms wf_buffer [OF assms(1,3)]
  by (simp add: link_piece_def claimed_def linked_def lent_buffer_def buffer_ok_def)

lemma count_buffer_eq:
  assumes inv: "trim_inv X a" and k: "k < length (pieces a)"
  shows "count_buffer X (int k) (linked k j a) = Inr (assigned X k j a)"
proof -
  have w: "wf X a" "acct X a" using inv by (auto simp: trim_inv_def)
  note b = acct_bounds [OF w]
  have "bit_test X (reserved_pieces a) (int k) = Inr (bs_test X (reserved_pieces a) k)"
    using wf_shape(4,10) [OF w(1)] k by (simp add: bit_test_def)
  then show ?thesis
    using b k wf_piece [OF w(1) k]
    by (auto simp: count_buffer_def linked_def claimed_def assigned_def piece_ok_def Let_def
        i32_def INT_MAX_def INT_MIN_def)
qed

section \<open>What has taken effect\<close>

fun effect :: "gb_pc \<Rightarrow> nat \<Rightarrow> ('b, 't) world \<Rightarrow> bool option" where
  "effect (Returned b) k a = Some b"
| "effect Count k a = Some True"
| "effect Leave k a = (if is_buffered (pieces a ! k) then Some True else None)"
| "effect _ k a = None"

lemma effect_outside: "\<not> locked pc \<Longrightarrow> effect pc k a' = effect pc k a"
  by (cases pc) auto

definition history ::
  "(nat \<Rightarrow> nat) \<Rightarrow> (nat \<Rightarrow> gb_pc) \<Rightarrow> (nat \<times> bool) list \<Rightarrow> ('b, 't) world \<Rightarrow> bool" where
  "history piece pcs h a \<longleftrightarrow>
     distinct (map fst h) \<and> (\<forall>i b. (i, b) \<in> set h \<longleftrightarrow> effect (pcs i) (piece i) a = Some b)"

lemma history_keep:
  assumes "history piece pcs h a" "effect pc (piece i) a = effect (pcs i) (piece i) a"
  shows "history piece (pcs(i := pc)) h a"
  using assms by (auto simp: history_def)

lemma history_add:
  assumes h: "history piece pcs h a" and i: "effect (pcs i) (piece i) a = None" "effect pc (piece i) a' = Some b"
    and others: "\<And>l. l \<noteq> i \<Longrightarrow> effect (pcs l) (piece l) a' = effect (pcs l) (piece l) a"
  shows "history piece (pcs(i := pc)) (h @ [(i, b)]) a'"
proof -
  have "i \<notin> fst ` set h" using h i(1) by (auto simp: history_def)
  then show ?thesis using h i others by (auto simp: history_def)
qed

section \<open>Every interleaving is a sequence of whole calls\<close>

definition serial ::
  "('b, 't) ext \<Rightarrow> (nat \<Rightarrow> nat) \<Rightarrow> (nat \<Rightarrow> bool) \<Rightarrow> ('b, 't) world \<Rightarrow> ('b, 't) threads \<Rightarrow> bool" where
  "serial X piece wr w0 c \<longleftrightarrow>
     (\<exists>h a. one_by_one X piece wr h w0 a \<and> trim_inv X a \<and> length (pieces a) = length (pieces w0) \<and>
        history piece (at c) h a \<and> (\<forall>i. locked (at c i) \<longleftrightarrow> owner c = Some i) \<and>
        (case owner c of
           None \<Rightarrow> shared c = a
         | Some i \<Rightarrow> in_section X (piece i) (wr i) (at c i) (shared c) a))"

text \<open>A step of thread \<open>i\<close>, before or at the point where its call takes effect.\<close>

lemma serialI:
  assumes "one_by_one X piece wr h w0 a" "trim_inv X a" "length (pieces a) = length (pieces w0)"
    and "history piece ((at c)(i := pc)) h a" "\<forall>l. locked (at c l) \<longleftrightarrow> owner c = Some l"
    and "owner c = None \<or> owner c = Some i \<or> \<not> locked pc"
    and "if locked pc then in_section X (piece i) (wr i) pc w a
         else if locked (at c i) then w = a
         else case owner c of None \<Rightarrow> w = a
           | Some l \<Rightarrow> in_section X (piece l) (wr l) (at c l) w a"
  shows "serial X piece wr w0 \<lparr>at = (at c)(i := pc),
     owner = (if locked pc then Some i else if locked (at c i) then None else owner c), shared = w\<rparr>"
  unfolding serial_def
  using assms by (intro exI [of _ h] exI [of _ a]) (auto split: option.splits)

definition stays :: "('b, 't) ext \<Rightarrow> nat \<Rightarrow> bool \<Rightarrow> gb_pc \<Rightarrow> ('b, 't) world \<Rightarrow> ('b, 't) world
    \<Rightarrow> gb_pc \<Rightarrow> ('b, 't) world \<Rightarrow> bool" where
  "stays X k wr pc w a pc' w' \<longleftrightarrow>
     effect pc' k a = effect pc k a \<and>
     (if locked pc' then in_section X k wr pc' w' a else w' = (if locked pc then a else w))"

definition takes_effect :: "('b, 't) ext \<Rightarrow> nat \<Rightarrow> bool \<Rightarrow> gb_pc \<Rightarrow> ('b, 't) world \<Rightarrow> ('b, 't) world
    \<Rightarrow> gb_pc \<Rightarrow> ('b, 't) world \<Rightarrow> bool" where
  "takes_effect X k wr pc w a pc' w' \<longleftrightarrow>
     (\<exists>b a'. effect pc k a = None \<and> effect pc' k a' = Some b \<and>
        get_buffer X (int k) wr a = Inr (b, a') \<and> (\<not> locked pc \<longrightarrow> a' = a) \<and>
        (if locked pc' then in_section X k wr pc' w' a' else w' = (if locked pc then a' else w)))"

text \<open>One step of one thread: it never faults, and it either leaves the calls done so far as
  they are or adds its own call to them.\<close>

definition good_step ::
  "('b, 't) ext \<Rightarrow> nat \<Rightarrow> bool \<Rightarrow> gb_pc \<Rightarrow> ('b, 't) world \<Rightarrow> ('b, 't) world \<Rightarrow> bool" where
  "good_step X k wr pc w a \<longleftrightarrow>
     (\<exists>pc' w'. gb_step X (int k) wr pc w = Inr (pc', w') \<and>
        (stays X k wr pc w a pc' w' \<or> takes_effect X k wr pc w a pc' w') \<and>
        (locked pc' \<longrightarrow> locked pc \<or> pc = Wait))"

lemma good_step_stays:
  "gb_step X (int k) wr pc w = Inr (pc', w') \<Longrightarrow> stays X k wr pc w a pc' w' \<Longrightarrow>
   (locked pc' \<longrightarrow> locked pc \<or> pc = Wait) \<Longrightarrow> good_step X k wr pc w a"
  by (auto simp: good_step_def)

lemma good_step_effect:
  "gb_step X (int k) wr pc w = Inr (pc', w') \<Longrightarrow> effect pc k a = None \<Longrightarrow>
   get_buffer X (int k) wr a = Inr (b, a') \<Longrightarrow> effect pc' k a' = Some b \<Longrightarrow>
   (\<not> locked pc \<longrightarrow> a' = a) \<Longrightarrow>
   (if locked pc' then in_section X k wr pc' w' a' else w' = (if locked pc then a' else w)) \<Longrightarrow>
   (locked pc' \<longrightarrow> locked pc \<or> pc = Wait) \<Longrightarrow> good_step X k wr pc w a"
  unfolding good_step_def takes_effect_def by blast

lemma good_fast_test:
  assumes k: "k < length (pieces a)" and p: "pieces w = pieces a"
  shows "good_step X k wr Fast_test w a"
proof (cases "is_buffered (pieces a ! k)")
  case True
  then have "get_buffer X (int k) wr a = Inr (True, a)" using k by (simp add: get_buffer_def)
  then show ?thesis using p k True by (intro good_step_effect [where pc' = "Returned True"]) simp_all
next
  case False
  then show ?thesis using p k by (intro good_step_stays [where pc' = Wait]) (simp_all add: stays_def)
qed

lemma good_retest:
  assumes inv: "trim_inv X a" and k: "k < length (pieces a)"
  shows "good_step X k wr Retest a a"
proof -
  have w: "wf X a" "handle_ok a" using inv by (auto simp: trim_inv_def)
  have ix: "mp_index (pieces a ! k) = int k" using wf_piece [OF w(1) k] by (simp add: piece_ok_def)
  consider (known) "\<not> wr \<or> is_buffered (pieces a ! k)"
    | (refused) "wr" "\<not> is_buffered (pieces a ! k)" "is_reading a" "\<not> readered X a (int k)"
    | (wanted) "wr" "\<not> is_buffered (pieces a ! k)" "is_reading a \<longrightarrow> readered X a (int k)" by blast
  then show ?thesis
  proof cases
    case known
    then have "get_buffer X (int k) wr a = Inr (is_buffered (pieces a ! k), a)"
      using k by (auto simp: get_buffer_def)
    then show ?thesis
      using k known by (intro good_step_effect [where pc' = "Returned (is_buffered (pieces a ! k))"]) auto
  next
    case refused
    obtain t where t: "restore_piece X (int k) a = Inr (a\<lparr>torrent := t\<rparr>)"
      using restore_piece_total [OF w(2)] by blast
    have "get_buffer X (int k) wr a = Inr (False, a\<lparr>torrent := t\<rparr>)"
      using refused k ix t is_readered_eq [OF w] by (simp add: get_buffer_def)
    then show ?thesis
      using k refused ix t is_readered_eq [OF w]
      by (intro good_step_effect [where pc' = "Returned False"]) simp_all
  next
    case wanted
    then have "gb_step X (int k) wr Retest a = Inr (Search 0, a)"
      using k ix is_readered_eq [OF w] by (cases "is_reading a") simp_all
    moreover have "stays X k wr Retest a a (Search 0) a" using wanted by (simp add: stays_def searching_def)
    ultimately show ?thesis by (rule good_step_stays) simp
  qed
qed

lemma good_search:
  assumes w: "wf X a" and k: "k < length (pieces a)" and i: "0 \<le> i" "searching X k wr (nat i) a"
  shows "good_step X k wr (Search i) a a"
proof (cases "i < buffer_size a")
  case False
  then have "nat i = length (buffers a)" using i wf_shape(8) [OF w] by (auto simp: searching_def)
  then show ?thesis
    using i False by (intro good_step_stays [where pc' = Leave]) (simp_all add: stays_def searching_def)
next
  case True
  then have l: "nat i < length (buffers a)" using i(1) wf_shape(8) [OF w] by linarith
  show ?thesis
  proof (cases "mb_is_used (buffers a ! nat i)")
    case used: True
    have "nat (i + 1) = Suc (nat i)" using i(1) by simp
    then have "stays X k wr (Search i) a a (Search (i + 1)) a"
      using i l used by (auto simp: stays_def searching_def less_Suc_eq)
    then show ?thesis using i True l used by (intro good_step_stays [where pc' = "Search (i + 1)"]) simp_all
  next
    case free: False
    have "claim_buffer (int k) i a = Inr (claimed k (nat i) a)" "i < int (length (buffers a))"
      using claim_buffer_eq [OF w k l] i(1) l by simp_all
    then show ?thesis
      using i True l free by (intro good_step_stays [where pc' = "Link i"]) (simp_all add: stays_def)
  qed
qed

lemma good_link:
  assumes inv: "trim_inv X a" and k: "k < length (pieces a)"
    and i: "in_section X k wr (Link i) w a"
  shows "good_step X k wr (Link i) w a"
proof -
  have w: "wf X a" using inv by (simp add: trim_inv_def)
  have i: "0 \<le> i" "nat i < length (buffers a)" "searching X k wr (nat i) a"
    "\<not> mb_is_used (buffers a ! nat i)" "w = claimed k (nat i) a" "wr"
    using i by (auto simp: searching_def)
  have "get_buffer X (int k) wr a = Inr (True, assigned X k (nat i) a)"
    using search_free [OF inv k i(3,2,4)] i(6) by simp
  then show ?thesis
    using i inv k link_piece_eq [OF w k i(2)]
    by (intro good_step_effect [where pc' = Count and w' = "linked k (nat i) a"]) auto
qed

lemma good_count:
  assumes "in_section X k wr Count w a"
  shows "good_step X k wr Count w a"
proof -
  obtain a0 j where a0: "trim_inv X a0" "k < length (pieces a0)" "w = linked k j a0"
    "a = assigned X k j a0" "wr" using assms by auto
  then show ?thesis
    using count_buffer_eq [OF a0(1,2), of j]
    by (intro good_step_stays [where pc' = Leave and w' = a]) (simp_all add: stays_def is_buffered_def)
qed

lemma good_leave:
  assumes inv: "trim_inv X a" and k: "k < length (pieces a)" and i: "in_section X k wr Leave w a"
  shows "good_step X k wr Leave w a"
proof (cases "is_buffered (pieces a ! k)")
  case True
  then show ?thesis
    using i k by (intro good_step_stays [where pc' = "Returned True"]) (simp_all add: stays_def)
next
  case False
  then have "get_buffer X (int k) wr a = Inr (False, a)" using search_full [OF inv k] i by auto
  then show ?thesis using i False k by (intro good_step_effect [where pc' = "Returned False"]) simp_all
qed

lemma gb_step_effect:
  assumes inv: "trim_inv X a" and k: "k < length (pieces a)" and pc: "\<not> has_returned pc"
    and rel: "if locked pc then in_section X k wr pc w a else pieces w = pieces a \<and> (pc = Wait \<longrightarrow> w = a)"
  shows "good_step X k wr pc w a"
proof (cases pc)
  case Wait
  then show ?thesis using rel by (intro good_step_stays [where pc' = Retest]) (simp_all add: stays_def)
next
  case (Search i)
  then show ?thesis using good_search [OF _ k] rel inv by (simp add: trim_inv_def)
next
  case Fast_test
  then show ?thesis using good_fast_test [OF k] rel by simp
next
  case Retest
  then show ?thesis using good_retest [OF inv k] rel by simp
next
  case (Link i)
  then show ?thesis using good_link [OF inv k] rel by simp
next
  case Count
  then have "in_section X k wr Count w a" using rel by (simp del: in_section.simps)
  then show ?thesis unfolding Count by (rule good_count)
next
  case Leave
  then have "in_section X k wr Leave w a" using rel by (simp del: in_section.simps)
  then show ?thesis unfolding Leave by (rule good_leave [OF inv k])
next
  case (Returned b)
  then show ?thesis using pc by simp
qed

lemma serial_stays:
  assumes h: "one_by_one X piece wr h w0 a" "trim_inv X a" "length (pieces a) = length (pieces w0)"
    "history piece (at c) h a" "\<forall>l. locked (at c l) \<longleftrightarrow> owner c = Some l"
    and sec: "case owner c of None \<Rightarrow> shared c = a
      | Some l \<Rightarrow> in_section X (piece l) (wr l) (at c l) (shared c) a"
    and o: "owner c = None \<or> owner c = Some i \<or> \<not> locked pc"
    and st: "stays X (piece i) (wr i) (at c i) (shared c) a pc w"
  shows "serial X piece wr w0 \<lparr>at = (at c)(i := pc),
     owner = (if locked pc then Some i else if locked (at c i) then None else owner c), shared = w\<rparr>"
proof -
  have "history piece ((at c)(i := pc)) h a"
    using st by (intro history_keep [OF h(4)]) (simp add: stays_def)
  then show ?thesis
    using st sec by (intro serialI [OF h(1-3) _ h(5) o]) (auto simp: stays_def split: option.splits)
qed

lemma serial_effect:
  assumes h: "one_by_one X piece wr h w0 a" "trim_inv X a" "length (pieces a) = length (pieces w0)"
    "history piece (at c) h a" "\<forall>l. locked (at c l) \<longleftrightarrow> owner c = Some l"
    and sec: "case owner c of None \<Rightarrow> shared c = a
      | Some l \<Rightarrow> in_section X (piece l) (wr l) (at c l) (shared c) a"
    and o: "owner c = None \<or> owner c = Some i \<or> \<not> locked pc" and k: "piece i < length (pieces a)"
    and te: "takes_effect X (piece i) (wr i) (at c i) (shared c) a pc w"
  shows "serial X piece wr w0 \<lparr>at = (at c)(i := pc),
     owner = (if locked pc then Some i else if locked (at c i) then None else owner c), shared = w\<rparr>"
proof -
  obtain b a' where t: "effect (at c i) (piece i) a = None" "effect pc (piece i) a' = Some b"
    "get_buffer X (int (piece i)) (wr i) a = Inr (b, a')" "\<not> locked (at c i) \<longrightarrow> a' = a"
    "if locked pc then in_section X (piece i) (wr i) pc w a'
     else w = (if locked (at c i) then a' else shared c)"
    using te unfolding takes_effect_def by blast
  have others: "effect (at c l) (piece l) a' = effect (at c l) (piece l) a" if "l \<noteq> i" for l
    using h(5) t(4) that effect_outside [of "at c l" "piece l" a' a] by (cases "locked (at c i)") auto
  have "wf X a" using h(2) by (simp add: trim_inv_def)
  then have len': "length (pieces a') = length (pieces w0)"
    using t(3) h(3) k by (cases rule: get_buffer_InrE [OF _ k t(3)]) auto
  have "if locked pc then in_section X (piece i) (wr i) pc w a'
       else if locked (at c i) then w = a'
       else case owner c of None \<Rightarrow> w = a'
         | Some l \<Rightarrow> in_section X (piece l) (wr l) (at c l) w a'"
    using t(4,5) sec by (cases "locked pc"; cases "locked (at c i)"; clarsimp)
  then show ?thesis
    by (intro serialI [OF one_by_one.and_then [OF h(1) t(3)] trim_inv_get_buffer [OF h(2) k t(3)] len'
          history_add [OF h(4) t(1,2) others] h(5) o])
qed

lemma serial_move:
  assumes pw: "\<forall>i. piece i < length (pieces w0)" and s: "serial X piece wr w0 c" and m: "may_step i c"
  shows "\<exists>c'. move X piece wr i c = Some (Inr c') \<and> serial X piece wr w0 c'"
proof -
  obtain h a where h: "one_by_one X piece wr h w0 a" "trim_inv X a" "length (pieces a) = length (pieces w0)"
      "history piece (at c) h a" "\<forall>l. locked (at c l) \<longleftrightarrow> owner c = Some l"
    and sec: "case owner c of None \<Rightarrow> shared c = a
      | Some l \<Rightarrow> in_section X (piece l) (wr l) (at c l) (shared c) a"
    using s unfolding serial_def by blast
  have k: "piece i < length (pieces a)" using pw h(3) by simp
  have pcs: "pieces (shared c) = pieces a"
    using sec in_section_pieces by (cases "owner c") auto
  have rel: "if locked (at c i) then in_section X (piece i) (wr i) (at c i) (shared c) a
      else pieces (shared c) = pieces a \<and> (at c i = Wait \<longrightarrow> shared c = a)"
  proof (cases "locked (at c i)")
    case True
    then show ?thesis using h(5) sec by auto
  next
    case False
    then show ?thesis using pcs m sec by (auto simp: may_step_def)
  qed
  have "\<not> has_returned (at c i)" using m by (simp add: may_step_def)
  from gb_step_effect [OF h(2) k this rel] obtain pc w where
    step: "gb_step X (int (piece i)) (wr i) (at c i) (shared c) = Inr (pc, w)"
    and eff: "stays X (piece i) (wr i) (at c i) (shared c) a pc w \<or>
      takes_effect X (piece i) (wr i) (at c i) (shared c) a pc w"
    and lock: "locked pc \<longrightarrow> locked (at c i) \<or> at c i = Wait" unfolding good_step_def by blast
  have o: "owner c = None \<or> owner c = Some i \<or> \<not> locked pc"
    using lock spec [OF h(5), of i] m unfolding may_step_def by blast
  have "serial X piece wr w0 \<lparr>at = (at c)(i := pc),
     owner = (if locked pc then Some i else if locked (at c i) then None else owner c), shared = w\<rparr>"
    using eff serial_stays [OF h sec o] serial_effect [OF h sec o k] by blast
  then show ?thesis using step by (simp add: move_def)
qed

text \<open>The guarded steps of the threads keep the invariant: an instance of the locale of runs.\<close>

interpretation threads_serial: keeps_invariant
    "\<lambda>c. (\<forall>i. piece i < length (pieces w0)) \<and> serial X piece wr w0 c" may_step "move X piece wr"
  for X piece wr w0
proof
  fix c i c'
  assume "(\<forall>i. piece i < length (pieces w0)) \<and> serial X piece wr w0 c" "may_step i c"
    "move X piece wr i c = Some (Inr c')"
  then show "(\<forall>i. piece i < length (pieces w0)) \<and> serial X piece wr w0 c'"
    using serial_move [of piece w0 X wr c i] by auto
qed

lemma serial_start: "trim_inv X w0 \<Longrightarrow> serial X piece wr w0 (all_start w0)"
  unfolding serial_def
  by (intro exI [of _ "[]"] exI [of _ w0]) (simp add: all_start_def one_by_one.none_yet history_def)

lemma serial_run:
  assumes "orderly X w0" "\<forall>i. piece i < length (pieces w0)"
    and "calls_to may_step (move X piece wr) (all_start w0) c"
  shows "serial X piece wr w0 c"
  using threads_serial.kept_by_runs [OF assms(3), of w0] serial_start [of X w0 piece wr]
    orderlyD(5) [OF assms(1)] assms(2) by blast

section \<open>A schedule, run\<close>

text \<open>Two threads ask for the same piece; both pass the unprotected test before either links it.\<close>

lemma demo_two_threads:
  "case performed may_step (move demo_ext (\<lambda>_. 1) (\<lambda>_. True)) [0, 1, 0, 0, 0, 0, 0, 0, 1, 1] (all_start (demo_world 4 8)) of
     None \<Rightarrow> False
   | Some c \<Rightarrow> at c 0 = Returned True \<and> at c 1 = Returned True \<and> owner c = None \<and>
       buffer_used (shared c) = 1"
  by code_simp

lemma demo_two_threads_run:
  obtains c where "calls_to may_step (move demo_ext (\<lambda>_. 1) (\<lambda>_. True)) (all_start (demo_world 4 8)) c"
    "at c 0 = Returned True" "at c 1 = Returned True" "owner c = None" "buffer_used (shared c) = 1"
proof -
  obtain c where c: "performed may_step (move demo_ext (\<lambda>_. 1) (\<lambda>_. True)) [0, 1, 0, 0, 0, 0, 0, 0, 1, 1]
      (all_start (demo_world 4 8)) = Some c"
    "at c 0 = Returned True" "at c 1 = Returned True" "owner c = None" "buffer_used (shared c) = 1"
    using demo_two_threads by (simp split: option.splits del: performed.simps)
  then show thesis using that performed_calls [OF c(1) calls_to.no_call] by blast
qed

lemma demo_one_piece: "\<forall>i :: nat. (\<lambda>_. 1) i < length (pieces (demo_world 4 8))"
  by (simp add: demo_defs)

section \<open>Properties\<close>

text \<open>C13 The double-checked locking of \<open>get_buffer\<close> is linearizable. However the steps of any
  number of threads interleave, there is an order of the calls that have taken effect, each
  once, such that making those calls whole, one after the other, gives every thread that has
  returned the answer it got, and, whenever nobody is inside the mutex, the storage as it is.\<close>

theorem get_buffer_linearizable:
  assumes o: "orderly X w0" and p: "\<forall>i. piece i < length (pieces w0)"
    and run: "calls_to may_step (move X piece wr) (all_start w0) c"
  shows "\<exists>h a. one_by_one X piece wr h w0 a \<and> distinct (map fst h) \<and>
    (\<forall>i b. at c i = Returned b \<longrightarrow> (i, b) \<in> set h) \<and>
    (owner c = None \<longrightarrow> shared c = a \<and> wf X (shared c) \<and> acct X (shared c))"
proof -
  obtain h a where h: "one_by_one X piece wr h w0 a" "trim_inv X a" "history piece (at c) h a"
    "case owner c of None \<Rightarrow> shared c = a
      | Some l \<Rightarrow> in_section X (piece l) (wr l) (at c l) (shared c) a"
    using serial_run [OF o p run] unfolding serial_def by blast
  have "(i, b) \<in> set h" if "at c i = Returned b" for i b
    using h(3) that by (simp add: history_def)
  moreover have "distinct (map fst h)" using h(3) by (simp add: history_def)
  ultimately show ?thesis using h(1,2,4) by (intro exI [of _ h] exI [of _ a]) (auto simp: trim_inv_def)
qed

lemma get_buffer_linearizable_witness:
  "\<exists>h a. one_by_one demo_ext (\<lambda>_. 1) (\<lambda>_. True) h (demo_world 4 8) a \<and>
     {(0, True), (1, True)} \<subseteq> set h \<and> buffer_used a = 1"
proof (rule demo_two_threads_run)
  fix c assume c: "calls_to may_step (move demo_ext (\<lambda>_. 1) (\<lambda>_. True)) (all_start (demo_world 4 8)) c"
    "at c 0 = Returned True" "at c 1 = Returned True" "owner c = None" "buffer_used (shared c) = 1"
  show ?thesis
    using get_buffer_linearizable [OF demo_world_orderly demo_one_piece c(1)] c(2-5)
    by simp blast
qed

text \<open>Threads in \<open>get_buffer\<close> exclude each other in the mutex, never fault and never deadlock: in
  every state the threads can reach at most one is inside, every thread that may move moves
  without undefined behaviour, and as long as one has not returned some thread may move.\<close>

theorem get_buffer_threads_progress:
  assumes o: "orderly X w0" and p: "\<forall>i. piece i < length (pieces w0)"
    and run: "calls_to may_step (move X piece wr) (all_start w0) c"
  shows "(\<forall>i l. locked (at c i) \<and> locked (at c l) \<longrightarrow> i = l) \<and>
    (\<forall>i. may_step i c \<longrightarrow> (\<exists>c'. move X piece wr i c = Some (Inr c'))) \<and>
    ((\<exists>i. \<not> has_returned (at c i)) \<longrightarrow> (\<exists>i. may_step i c))"
proof -
  have s: "serial X piece wr w0 c" by (rule serial_run [OF o p run])
  then have own: "locked (at c i) \<longleftrightarrow> owner c = Some i" for i unfolding serial_def by blast
  have "may_step l c" if "owner c = Some l" for l
    using own [of l] that by (cases "at c l") (auto simp: may_step_def)
  moreover have "may_step i c" if "owner c = None" "\<not> has_returned (at c i)" for i
    using that by (simp add: may_step_def)
  ultimately have "(\<exists>i. \<not> has_returned (at c i)) \<longrightarrow> (\<exists>i. may_step i c)"
    by (cases "owner c") blast+
  moreover have "\<forall>i. may_step i c \<longrightarrow> (\<exists>c'. move X piece wr i c = Some (Inr c'))"
    using serial_move [OF p s] by blast
  ultimately show ?thesis using own by auto
qed

lemma get_buffer_threads_progress_witness:
  "\<exists>c'. move demo_ext (\<lambda>_. 1) (\<lambda>_. True) 0 (all_start (demo_world 4 8)) = Some (Inr c')"
  using get_buffer_threads_progress [OF demo_world_orderly demo_one_piece calls_to.no_call]
  by (simp add: may_step_def all_start_def)

end
