(* ===== verification/Turns.thy ===== *)
theory Turns
  imports Progress_Properties
begin

text \<open>
  One call cut into steps, among the calls of other threads. A step function takes the place
  the call has reached and the storage to the next place; between two steps other threads make
  whole calls of \<open>exec\<close>. What holds wherever the call is, as long as the others leave its piece
  alone, is stated as an interface and proved once.
\<close>

section \<open>Turns\<close>

type_synonym ('pc, 'b, 't) stepper = "'pc \<Rightarrow> ('b, 't) world \<Rightarrow> (ub + 'pc \<times> ('b, 't) world) option"

datatype 't turn = Mine | Other "'t call"

fun take_turn ::
  "('pc, 'b, 't) stepper \<Rightarrow> ('b, 't) ext \<Rightarrow> 't turn \<Rightarrow> 'pc \<times> ('b, 't) world
    \<Rightarrow> (ub + 'pc \<times> ('b, 't) world) option" where
  "take_turn step X Mine (pc, w) = step pc w"
| "take_turn step X (Other c) (pc, w) = map_option (\<lambda>r. bindE r (\<lambda>w. Inr (pc, w))) (exec X c w)"

abbreviation "turns_taken step X \<equiv> performed (\<lambda>_ _. True) (take_turn step X)"

text \<open>The call alone, for so many steps.\<close>

fun alone ::
  "('pc, 'b, 't) stepper \<Rightarrow> nat \<Rightarrow> 'pc \<times> ('b, 't) world \<Rightarrow> (ub + 'pc \<times> ('b, 't) world) option" where
  "alone step 0 c = Some (Inr c)"
| "alone step (Suc m) (pc, w) =
     (case step pc w of
        None \<Rightarrow> None
      | Some (Inl e) \<Rightarrow> Some (Inl e)
      | Some (Inr c) \<Rightarrow> alone step m c)"

lemma alone_stays: "(\<And>w. step pc w = Some (Inr (pc, w))) \<Longrightarrow> alone step m (pc, w) = Some (Inr (pc, w))"
  by (induction m) simp_all

section \<open>Runs\<close>

fun others_leave :: "nat \<Rightarrow> ('b, 't) ext \<Rightarrow> 't turn \<Rightarrow> 'pc \<times> ('b, 't) world \<Rightarrow> bool" where
  "others_leave k X Mine c = True"
| "others_leave k X (Other call) (pc, w) = leaves_alone k X call w"

abbreviation "among_others k X step \<equiv> calls_to (others_leave k X) (take_turn step X)"

section \<open>A call that does not mind the others\<close>

locale steady_call =
  fixes k :: nat and X :: "('b, 't) ext" and step :: "('pc, 'b, 't) stepper"
    and good :: "'pc \<Rightarrow> ('b, 't) world \<Rightarrow> bool"
  assumes own: "good pc w \<Longrightarrow> step pc w = Some r \<Longrightarrow> \<exists>pc' w'. r = Inr (pc', w') \<and> good pc' w'"
    and others: "good pc w \<Longrightarrow> leaves_alone k X c w \<Longrightarrow> exec X c w = Some (Inr w') \<Longrightarrow> good pc w'"
begin

lemma kept_by_turn:
  assumes "case c of (pc, w) \<Rightarrow> good pc w" "others_leave k X e c" "take_turn step X e c = Some (Inr c')"
  shows "case c' of (pc, w) \<Rightarrow> good pc w"
proof -
  obtain pc w where c: "c = (pc, w)" by (cases c)
  show ?thesis
  proof (cases e)
    case Mine
    then show ?thesis using assms own [of pc w "Inr c'"] c by auto
  next
    case (Other call)
    then obtain w' where "exec X call w = Some (Inr w')" "c' = (pc, w')"
      using assms(3) c by (auto simp: bindE_eq_Inr)
    then show ?thesis using assms(1,2) others c Other by auto
  qed
qed

end

sublocale steady_call \<subseteq> turns: keeps_invariant "\<lambda>(pc, w). good pc w" "others_leave k X" "take_turn step X"
  by unfold_locales (rule kept_by_turn)

context steady_call
begin

text \<open>Wherever the call has got to, it is in a good place and its next step does not fault.\<close>

lemma always_good:
  assumes "among_others k X step (pc0, w0) (pc, w)" "good pc0 w0"
  shows "good pc w" "step pc w \<noteq> Some (Inl e)"
proof -
  show "good pc w" using turns.kept_by_runs [OF assms(1)] assms(2) by simp
  from own [OF this, of "Inl e"] show "step pc w \<noteq> Some (Inl e)" by auto
qed

end

end
