(* ===== verification/Interleaving.thy ===== *)
theory Interleaving
  imports Turns
begin

text \<open>
  A reader thread against other threads. \<open>get_buffer\<close> takes the mutex only for its own check, so
  \<open>read\<close> runs on without it: here \<open>read\<close> is cut where other calls can come in between, at the
  points where it leaves a check and uses its result later.
\<close>

section \<open>The steps of read\<close>

datatype read_pc =
    Enter
  | Measure
  | Locate
  | Copy int
  | Mark int
  | Note_time
  | Finished int

fun read_step ::
  "('b, 't) ext \<Rightarrow> int \<Rightarrow> int \<Rightarrow> int \<Rightarrow> read_pc \<Rightarrow> byte list \<Rightarrow> ('b, 't) world
    \<Rightarrow> ub + read_pc \<times> byte list \<times> ('b, 't) world" where
  "read_step X sz piece offset Enter read_buf w =
     (if \<not> is_initialized w then Inr (Finished 0, read_buf, w)
      else let w = w\<lparr>is_reading := True\<rparr> in
      bindE (get_read_buffer X piece w) (\<lambda>(ok, w).
        if \<not> ok then bindE (restore_piece X piece w) (\<lambda>w. Inr (Finished (-1), read_buf, w))
        else Inr (Measure, read_buf, w)))"
| "read_step X sz piece offset Measure read_buf w =
     bindE (vec_at (pieces w) piece) (\<lambda>p.
       if mp_size p < mp_length p
       then bindE (restore_piece X piece w) (\<lambda>w. Inr (Finished (-1), read_buf, w))
       else Inr (Locate, read_buf, w))"
| "read_step X sz piece offset Locate read_buf w =
     bindE (piece_buffer piece w) (\<lambda>b.
       let available = to_int32 (of_nat (length (mb_buffer b)) - to_size_t offset) in
       if available \<le> 0 then Inr (Finished 0, read_buf, w)
       else Inr (Copy (if available > sz then sz else available), read_buf, w))"
| "read_step X sz piece offset (Copy available) read_buf w =
     bindE (piece_buffer piece w) (\<lambda>b.
     bindE (mem_load (mb_buffer b) offset available) (\<lambda>bytes.
     bindE (mem_store read_buf 0 bytes) (\<lambda>read_buf.
       Inr (Mark available, read_buf, w))))"
| "read_step X sz piece offset (Mark available) read_buf w =
     bindE (mark_read piece (offset + available) w) (\<lambda>w. Inr (Note_time, read_buf, w))"
| "read_step X sz piece offset Note_time read_buf w =
     bindE (touch piece w) (\<lambda>w. Inr (Finished sz, read_buf, w))"
| "read_step X sz piece offset (Finished n) read_buf w = Inr (Finished n, read_buf, w)"

fun reader :: "('b, 't) ext \<Rightarrow> int \<Rightarrow> int \<Rightarrow> int \<Rightarrow> (read_pc \<times> byte list, 'b, 't) stepper" where
  "reader X sz piece offset (pc, buf) w =
     Some (bindE (read_step X sz piece offset pc buf w) (\<lambda>(pc, buf, w). Inr ((pc, buf), w)))"

text \<open>Six steps of the reader with no other thread in between compute what \<open>read\<close> computes,
  faults included.\<close>

lemma steps_compute_read:
  "alone (reader X sz piece offset) 6 ((Enter, buf), w) =
   Some (bindE (read X buf sz piece offset w) (\<lambda>(n, buf', w'). Inr ((Finished n, buf'), w')))"
  by (simp add: read_def Let_def bindE_def numeral_eq_Suc split: sum.split prod.split)

section \<open>Pinned pieces\<close>

lemma pinned_facts:
  assumes "pinned k p d X w"
  obtains j where "k < length (pieces w)" "pieces w ! k = p" "is_buffered p" "mp_bi p = int j"
    "j < length (buffers w)" "mb_buffer (buffers w ! j) = d" "wf X w" "trim_inv X w" "safe X w"
    "buffer_ok (piece_length w) (int j) (buffers w ! j)"
    "0 \<le> mp_length p" "mp_length p \<le> int (length d)" "int (length d) \<le> INT_MAX" "0 \<le> mp_size p"
proof -
  have o: "orderly X w" and c: "cached w k = Some d" and e: "pieces w ! k = p"
    using assms by (auto simp: pinned_def)
  note w = orderlyD [OF o]
  have k: "k < length (pieces w)" "is_buffered (pieces w ! k)" and d: "d = piece_data w k"
    using c by (auto simp: cached_Some)
  obtain j where j: "mp_bi p = int j" "j < length (buffers w)" "piece_data w k = mb_buffer (buffers w ! j)"
    "buffer_ok (piece_length w) (int j) (buffers w ! j)"
    using buffered_index [OF w(1) k] e by metis
  have "piece_ok (piece_length w) (int k) p" using wf_piece [OF w(1) k(1)] e by simp
  then show thesis
    using that [of j] k e j d w wf_shape(6) [OF w(1)] length_piece_data [OF w(1) k]
    by (auto simp: piece_ok_def)
qed

text \<open>The two updates a read makes leave a piece pinned.\<close>

lemma pinned_reading: "pinned k p d X (w\<lparr>is_reading := f\<rparr>) = pinned k p d X w"
  by (simp add: pinned_def orderly_def)

lemma pinned_touched:
  assumes "pinned k p d X w"
  shows "pinned k p d X (touched k w)" "touch (int k) w = Inr (touched k w)"
proof -
  have o: "orderly X w" and c: "cached w k = Some d" using assms by (auto simp: pinned_def)
  note w = orderlyD [OF o]
  have k: "k < length (pieces w)" "is_buffered (pieces w ! k)" using c by (auto simp: cached_Some)
  show t: "touch (int k) w = Inr (touched k w)" by (rule touch_eq [OF w(1) k])
  have "orderly X (touched k w)"
    using safe_touch [OF w(4) k t] trim_inv_touch [OF w(5) k t] w(6) by (simp add: orderly_def)
  then show "pinned k p d X (touched k w)" using assms by (simp add: pinned_def)
qed

section \<open>Reading a pinned piece\<close>

text \<open>Where the reader is, and what it has by then.\<close>

fun reader_at :: "int \<Rightarrow> byte list \<Rightarrow> byte list \<Rightarrow> read_pc \<Rightarrow> byte list \<Rightarrow> bool" where
  "reader_at sz src buf (Copy a) buf' = (a = min sz (int (length src)) \<and> buf' = buf)"
| "reader_at sz src buf (Mark a) buf' = (buf' = patch buf 0 (take (nat sz) src))"
| "reader_at sz src buf Note_time buf' = (buf' = patch buf 0 (take (nat sz) src))"
| "reader_at sz src buf (Finished n) buf' = (n = sz \<and> buf' = patch buf 0 (take (nat sz) src))"
| "reader_at sz src buf _ buf' = (buf' = buf)"

lemma pinned_read_step:
  assumes p: "pinned k p d X w" and complete: "mp_length p \<le> mp_size p"
    and off: "0 \<le> off" "off < int (length d)" and sz: "0 \<le> sz"
    and fit: "min sz (int (length d) - off) \<le> int (length buf)"
    and at: "reader_at sz (drop (nat off) d) buf pc buf'"
  shows "\<exists>pc' buf'' w'. read_step X sz (int k) off pc buf' w = Inr (pc', buf'', w') \<and>
    pinned k p d X w' \<and> reader_at sz (drop (nat off) d) buf pc' buf''"
proof -
  obtain j where j: "k < length (pieces w)" "pieces w ! k = p" "is_buffered p" "mp_bi p = int j"
    "j < length (buffers w)" "mb_buffer (buffers w ! j) = d" "wf X w" "safe X w" "int (length d) \<le> INT_MAX"
    by (rule pinned_facts [OF p])
  have b: "piece_buffer (int k) w = Inr (buffers w ! j)" using j by (simp add: piece_buffer_def)
  have nc: "never_completed w" using j(8) by (simp add: safe_def)
  show ?thesis
  proof (cases pc)
    case Enter
    then show ?thesis using at p wf_shape(1) [OF j(7)] j by (auto simp: Let_def get_read_buffer_eq pinned_reading)
  next
    case Measure
    then show ?thesis using at p j complete by simp
  next
    case Locate
    have "to_int32 (of_nat (length d) - to_size_t off) = int (length d) - off"
      using to_int32_diff [of "int (length d)" off] j(9) off
      by (simp add: of_nat_size INT_MIN_def INT_MAX_def)
    then show ?thesis using Locate at p b j(6) off by (auto simp: Let_def min_def)
  next
    case (Copy a)
    then have a: "a = min sz (int (length d) - off)" and buf': "buf' = buf" using at off by auto
    have "mem_load d off a = Inr (take (nat sz) (drop (nat off) d))"
      using a off sz by (auto simp: mem_load_def min_def)
    moreover have "mem_store buf 0 (take (nat sz) (drop (nat off) d)) =
        Inr (patch buf 0 (take (nat sz) (drop (nat off) d)))"
      using fit off sz by (auto simp: mem_store_def)
    ultimately show ?thesis using Copy buf' b j(6) p by simp
  next
    case (Mark a)
    then show ?thesis using at p mark_read_never [OF nc j(1)] by simp
  next
    case Note_time
    then show ?thesis using at pinned_touched [OF p] by simp
  next
    case (Finished n)
    then show ?thesis using at p by simp
  qed
qed

text \<open>Reading a complete piece does not mind the others.\<close>

interpretation reading: steady_call k X "reader X sz (int k) off"
    "\<lambda>(pc, buf') w. (mp_length p \<le> mp_size p \<and> 0 \<le> off \<and> off < int (length d) \<and> 0 \<le> sz \<and>
       min sz (int (length d) - off) \<le> int (length buf)) \<and>
       pinned k p d X w \<and> reader_at sz (drop (nat off) d) buf pc buf'"
  for k X sz off p d and buf :: "byte list"
proof (unfold_locales, goal_cases)
  case (1 pc w r)
  then show ?case using pinned_read_step [of k p d X w off sz buf] by (cases pc) fastforce
next
  case (2 pc w c w')
  then show ?case using exec_pinned [of k p d X w c w'] by (cases pc) auto
qed

text \<open>C12 Reading a reserved piece is safe under any interleaving. If the piece is reserved, in the
  cache and complete, and the calls other threads make in between leave it alone, then wherever
  the reader is, its next step does not fault, and when it has finished it returns the
  requested size and the caller's memory holds the bytes the piece had at the start.\<close>

theorem reserved_read_any_interleaving:
  assumes o: "orderly X w" and k: "k \<in> reserved_set X w" "cached w k = Some d"
    and complete: "mp_length (pieces w ! k) \<le> mp_size (pieces w ! k)"
    and off: "0 \<le> off" "off < int (length d)" and sz: "0 \<le> sz"
    and fit: "min sz (int (length d) - off) \<le> int (length buf)"
    and run: "among_others k X (reader X sz (int k) off) ((Enter, buf), w) ((pc, buf'), w')"
  shows "(\<exists>c. read_step X sz (int k) off pc buf' w' = Inr c) \<and>
    (\<forall>n. pc = Finished n \<longrightarrow> n = sz \<and> buf' = patch buf 0 (take (nat sz) (drop (nat off) d)))"
proof -
  have start: "pinned k (pieces w ! k) d X w" using o k by (simp add: pinned_def)
  have at: "pinned k (pieces w ! k) d X w'" "reader_at sz (drop (nat off) d) buf pc buf'"
    using reading.always_good(1) [OF run, of "pieces w ! k" d buf] start complete off sz fit by auto
  show ?thesis using pinned_read_step [OF at(1) complete off sz fit at(2)] at(2) by auto
qed

lemma reserved_read_any_interleaving_witness:
  "\<exists>c. read_step demo_ext 2 1 1 Measure [0, 0] ((demo_filled [1])\<lparr>is_reading := True\<rparr>) = Inr c"
proof -
  have "read_step demo_ext 2 (int 1) 1 Enter [0, 0] (demo_filled [1]) =
      Inr (Measure, [0, 0], (demo_filled [1])\<lparr>is_reading := True\<rparr>)"
    using wf_shape(1) [OF orderlyD(1) [OF demo_filled_orderly [of "[1]"]]] demo_filled_sel
    by (simp add: Let_def get_read_buffer_def get_buffer_def)
  then have "among_others 1 demo_ext (reader demo_ext 2 (int 1) 1) ((Enter, [0, 0]), demo_filled [1])
      ((Measure, [0, 0]), (demo_filled [1])\<lparr>is_reading := True\<rparr>)"
    by (intro calls_to.one_more [OF calls_to.no_call, of _ Mine]) simp_all
  from reserved_read_any_interleaving [OF demo_filled_orderly _ demo_filled_cached _ _ _ _ _ this]
  show ?thesis by (simp add: demo_filled_sel demo_filled_reserved del: One_nat_def)
qed

end
