(* ===== verification/Scatter.thy ===== *)
theory Scatter
  imports Interleaving
begin

text \<open>
  \<open>readv\<close> among other threads. It holds the mutex only inside \<open>get_buffer\<close>; then it looks the
  buffer of its piece up again for every entry of the scatter array, for the mark and for the
  time of access. Here it is cut at those points.
\<close>

section \<open>The steps of readv\<close>

text \<open>While the entries are filled: those that are done, those to come, the offset in the piece
  and the bytes copied.\<close>

datatype readv_pc =
    Admit
  | Fill "iovec_t list" "iovec_t list" int int
  | Flag "iovec_t list" int
  | Clock_in "iovec_t list" int
  | Filled "iovec_t list" int

fun readv_step ::
  "('b, 't) ext \<Rightarrow> iovec_t list \<Rightarrow> int \<Rightarrow> int \<Rightarrow> readv_pc \<Rightarrow> ('b, 't) world
    \<Rightarrow> (ub + readv_pc \<times> ('b, 't) world) option" where
  "readv_step X bufs piece offset Admit w =
     Some (if \<not> is_initialized w then Inr (Filled bufs 0, w)
      else bindE (get_read_buffer X piece w) (\<lambda>(ok, w).
        Inr (if ok then Fill [] bufs offset 0 else Filled bufs 0, w)))"
| "readv_step X bufs piece offset (Fill past (v # vs) file_offset n) w =
     Some (bindE (piece_buffer piece w) (\<lambda>b.
     let to_copy = to_int32 (min (of_nat (length (mb_buffer b)) - to_size_t file_offset) (iov_len v)) in
     bindE (mem_load (mb_buffer b) file_offset to_copy) (\<lambda>bytes.
     bindE (mem_store (iov_base v) 0 bytes) (\<lambda>base.
     bindE (i32 (file_offset + to_copy)) (\<lambda>file_offset.
     bindE (i32 (n + to_copy)) (\<lambda>n.
       Inr (Fill (past @ [v\<lparr>iov_base := base\<rparr>]) vs file_offset n, w)))))))"
| "readv_step X bufs piece offset (Fill past [] file_offset n) w =
     Some (bindE (log_first_iov bufs w) (\<lambda>_. Inr (Flag past n, w)))"
| "readv_step X bufs piece offset (Flag past n) w =
     Some (bindE (i32 (offset + n)) (\<lambda>e.
     bindE (mark_read piece e w) (\<lambda>w. Inr (Clock_in past n, w))))"
| "readv_step X bufs piece offset (Clock_in past n) w =
     Some (bindE (touch piece w) (\<lambda>w. Inr (Filled past n, w)))"
| "readv_step X bufs piece offset (Filled past n) w = Some (Inr (Filled past n, w))"

section \<open>The steps are the function\<close>

lemma scatter_tail:
  "alone (readv_step X bufs piece off) 3 (Fill past [] fo n, w) =
   Some (bindE (log_first_iov bufs w) (\<lambda>_. bindE (i32 (off + n)) (\<lambda>e.
     bindE (mark_read piece e w) (\<lambda>w. bindE (touch piece w) (\<lambda>w. Inr (Filled past n, w))))))"
  by (simp add: numeral_eq_Suc bindE_def split: sum.split)

lemma scatter_loop:
  assumes b: "piece_buffer piece w = Inr b"
  shows "alone (readv_step X bufs piece off) (length vs + m) (Fill past vs fo n, w) =
    (case readv_loop (mb_buffer b) vs fo n of
       Inl e \<Rightarrow> Some (Inl e)
     | Inr (n', vs') \<Rightarrow>
         alone (readv_step X bufs piece off) m (Fill (past @ vs') [] (fo + (n' - n)) n', w))"
proof (induction vs arbitrary: past fo n)
  case Nil
  then show ?case by simp
next
  case (Cons v vs)
  let ?k = "to_int32 (min (of_nat (length (mb_buffer b)) - to_size_t fo) (iov_len v))"
  have "fo + ?k + (n' - (n + ?k)) = fo + (n' - n)" for n' by simp
  then show ?case
    by (simp add: b Let_def bindE_def i32_def Cons.IH split: sum.split prod.split)
qed

lemma steps_compute_readv:
  assumes "wf X w"
  shows "alone (readv_step X bufs piece off) (length bufs + 4) (Admit, w) =
    Some (bindE (readv X bufs piece off w) (\<lambda>(n, bufs', w'). Inr (Filled bufs' n, w')))"
proof (cases "get_buffer X piece False w")
  case (Inl e)
  then show ?thesis
    using wf_shape(1) [OF assms] by (simp add: readv_def get_read_buffer_def numeral_eq_Suc)
next
  case (Inr r)
  then obtain ok w1 where g: "get_buffer X piece False w = Inr (ok, w1)" by (cases r) auto
  have init: "is_initialized w" by (rule wf_shape(1) [OF assms])
  show ?thesis
  proof (cases ok)
    case False
    have "alone (readv_step X bufs piece off) m (Filled bufs 0, w1) = Some (Inr (Filled bufs 0, w1))" for m
      by (rule alone_stays) simp
    then show ?thesis
      using False g init
      by (simp add: readv_def get_read_buffer_def numeral_eq_Suc)
  next
    case True
    then have g: "get_buffer X piece False w = Inr (True, w1)" using g by simp
    obtain k where k: "k < length (pieces w)" "piece = int k" using get_buffer_range [OF g] by blast
    have b: "is_buffered (pieces w ! k)" "w1 = w"
      using g k get_read_buffer_eq [of k w X] by (auto simp: get_read_buffer_def)
    have at: "piece_buffer piece w = Inr (buffers w ! nat (mp_bi (pieces w ! k)))"
      using piece_buffer_eq [OF assms k(1) b(1)] k(2) by simp
    have "alone (readv_step X bufs piece off) (length bufs + 4) (Admit, w) =
        alone (readv_step X bufs piece off) (length bufs + 3) (Fill [] bufs off 0, w)"
      using g init b(2) by (simp add: get_read_buffer_def numeral_eq_Suc)
    then show ?thesis
      unfolding scatter_loop [OF at]
      using g init b(2) at
      by (auto simp: scatter_tail readv_def get_read_buffer_def bindE_def split: sum.splits prod.splits)
  qed
qed

section \<open>Filling from a pinned piece\<close>

text \<open>What an array of entries takes from the piece, and how it looks when it has.\<close>

definition taken :: "byte list \<Rightarrow> int \<Rightarrow> iovec_t list \<Rightarrow> byte list" where
  "taken d off vs = take (length (gathered vs)) (drop (nat off) d)"

definition filled_from :: "byte list \<Rightarrow> int \<Rightarrow> iovec_t list \<Rightarrow> iovec_t list \<Rightarrow> bool" where
  "filled_from d off vs vs' \<longleftrightarrow> list_all iov_ok vs' \<and> map iov_len vs' = map iov_len vs \<and>
     gathered vs' = patch (gathered vs) 0 (taken d off vs)"

fun scatter_at :: "byte list \<Rightarrow> int \<Rightarrow> iovec_t list \<Rightarrow> readv_pc \<Rightarrow> bool" where
  "scatter_at d off bufs Admit = True"
| "scatter_at d off bufs (Fill past vs fo n) =
     (\<exists>vs0. bufs = vs0 @ vs \<and> filled_from d off vs0 past \<and>
       n = int (length (taken d off vs0)) \<and> fo = off + n)"
| "scatter_at d off bufs (Flag past n) =
     (filled_from d off bufs past \<and> n = int (length (taken d off bufs)))"
| "scatter_at d off bufs (Clock_in past n) =
     (filled_from d off bufs past \<and> n = int (length (taken d off bufs)))"
| "scatter_at d off bufs (Filled past n) =
     (filled_from d off bufs past \<and> n = int (length (taken d off bufs)))"

lemma taken_snoc:
  fixes d :: "byte list" and off :: int and vs :: "iovec_t list" and v :: iovec_t
  assumes off: "0 \<le> off" "off \<le> int (length d)"
  defines "fo \<equiv> off + int (length (taken d off vs))"
  defines "b \<equiv> take (length (iov_base v)) (drop (nat fo) d)"
  shows "taken d off (vs @ [v]) = taken d off vs @ b"
    and "patch (gathered (vs @ [v])) 0 (taken d off (vs @ [v])) =
      patch (gathered vs) 0 (taken d off vs) @ patch (iov_base v) 0 b"
    and "fo \<le> int (length d)"
proof -
  let ?g = "length (gathered vs)" and ?rest = "drop (nat off) d"
  have g: "gathered (vs @ [v]) = gathered vs @ iov_base v" by (simp add: gathered_def)
  have fo: "nat fo = nat off + min ?g (length ?rest)" "fo = off + int (min ?g (length ?rest))"
    unfolding fo_def taken_def using off by (simp_all add: min_def nat_add_distrib)
  show "fo \<le> int (length d)" using fo(2) off by simp
  show s: "taken d off (vs @ [v]) = taken d off vs @ b"
    by (cases "?g \<le> length ?rest")
      (simp_all add: taken_def g b_def fo(1) take_add min_def drop_drop add.commute)
  consider "length (taken d off vs) = ?g" | "b = []"
    using fo(1) off by (cases "?g \<le> length ?rest") (auto simp: taken_def b_def min_def)
  then show "patch (gathered (vs @ [v])) 0 (taken d off (vs @ [v])) =
      patch (gathered vs) 0 (taken d off vs) @ patch (iov_base v) 0 b"
    unfolding s g by cases (auto simp: patch_def taken_def)
qed

text \<open>One more entry is filled.\<close>

lemma fill_step_at:
  assumes pin: "pinned k p d X w" and off: "0 \<le> off" "off \<le> int (length d)" and v: "iov_ok v"
    and past: "filled_from d off vs0 past"
  defines "n \<equiv> int (length (taken d off vs0))" and "m \<equiv> int (length (taken d off (vs0 @ [v])))"
  shows "\<exists>v'. readv_step X bufs (int k) off (Fill past (v # vs) (off + n) n) w =
      Some (Inr (Fill (past @ [v']) vs (off + m) m, w)) \<and> filled_from d off (vs0 @ [v]) (past @ [v'])"
proof -
  obtain j where j: "k < length (pieces w)" "pieces w ! k = p" "is_buffered p" "mp_bi p = int j"
    "j < length (buffers w)" "mb_buffer (buffers w ! j) = d" "wf X w" "int (length d) \<le> INT_MAX"
    by (rule pinned_facts [OF pin])
  let ?c = "min (int (length d) - (off + n)) (int (length (iov_base v)))"
  let ?b = "take (length (iov_base v)) (drop (nat (off + n)) d)" 
  note t = taken_snoc [OF off, where vs = vs0, folded n_def]
  have fo: "0 \<le> off + n" "off + n \<le> int (length d)" using off(1) t(3) by (simp_all add: n_def)
  have lb: "int (length ?b) = ?c" using fo by (simp add: min_def; linarith)
  have "uint (iov_len v) = int (length (iov_base v))" using v by (simp add: iov_ok_def)
  then have c: "to_int32 (min (of_nat (length d) - to_size_t (off + n)) (iov_len v)) = ?c"
    using to_copy_min [of "off + n" "int (length d)" "iov_len v"] fo j(8) by (simp add: of_nat_size)
  have b: "take (nat ?c) (drop (nat (off + n)) d) = ?b"
    using fo(1) by (cases "int (length d) - (off + n) \<le> int (length (iov_base v))")
      (auto simp: min_def nat_le_iff)
  have ld: "mem_load d (off + n) ?c = Inr ?b" using fo lb unfolding mem_load_def b by auto
  have st: "mem_store (iov_base v) 0 ?b = Inr (patch (iov_base v) 0 ?b)" by (simp add: mem_store_def)
  have i: "i32 (off + n + ?c) = Inr (off + n + ?c)" "i32 (n + ?c) = Inr (n + ?c)"
    using fo off j(8) by (intro i32_nonneg; simp add: n_def; linarith)+
  have m: "n + ?c = m" using t(1) lb by (simp add: m_def n_def)
  have "piece_buffer (int k) w = Inr (buffers w ! j)" using j by (simp add: piece_buffer_def)
  then have "readv_step X bufs (int k) off (Fill past (v # vs) (off + n) n) w =
      Some (Inr (Fill (past @ [v\<lparr>iov_base := patch (iov_base v) 0 ?b\<rparr>]) vs (off + m) m, w))"
    using c ld st i m j(6) by (simp add: Let_def add.assoc)
  moreover have "filled_from d off (vs0 @ [v]) (past @ [v\<lparr>iov_base := patch (iov_base v) 0 ?b\<rparr>])"
    using past v t(2) by (simp add: filled_from_def gathered_def iov_ok_def)
  ultimately show ?thesis by blast
qed

lemma scatter_step_at:
  assumes pin: "pinned k p d X w" and off: "0 \<le> off" "off \<le> int (length d)"
    and ok: "list_all iov_ok bufs" "bufs \<noteq> []" and at: "scatter_at d off bufs pc"
    and mv: "readv_step X bufs (int k) off pc w = Some r"
  shows "\<exists>pc' w'. r = Inr (pc', w') \<and> pinned k p d X w' \<and> scatter_at d off bufs pc'"
proof -
  obtain j where j: "k < length (pieces w)" "pieces w ! k = p" "is_buffered p" "wf X w" "safe X w"
    "int (length d) \<le> INT_MAX"
    by (rule pinned_facts [OF pin])
  show ?thesis
  proof (cases pc)
    case Admit
    then have "r = Inr (Fill [] bufs off 0, w)"
      using mv j wf_shape(1) [OF j(4)] by (simp add: get_read_buffer_eq)
    then show ?thesis using pin by (simp add: filled_from_def taken_def)
  next
    case (Fill past vs fo n)
    then obtain vs0 where vs0: "bufs = vs0 @ vs" "filled_from d off vs0 past"
      "n = int (length (taken d off vs0))" "fo = off + n" using at by auto
    show ?thesis
    proof (cases vs)
      case Nil
      have "log_first_iov bufs w = Inr ()" using ok(2) by (cases bufs) (simp_all add: log_first_iov_def)
      then show ?thesis using mv Fill Nil vs0 pin by auto
    next
      case (Cons v ws)
      then have "iov_ok v" using ok(1) vs0(1) by simp
      from fill_step_at [OF pin off this vs0(2), of bufs ws] show ?thesis
        using mv Fill Cons vs0 pin by (auto intro!: exI [of _ "vs0 @ [v]"])
    qed
  next
    case (Flag past n)
    then have "off + n \<le> int (length d)" "0 \<le> n" using at off by (auto simp: taken_def)
    then have "i32 (off + n) = Inr (off + n)" using off j(6) by (intro i32_nonneg) auto
    moreover have "never_completed w" using j(5) by (simp add: safe_def)
    ultimately show ?thesis using mv Flag at pin mark_read_never [of w k] j(1) by auto
  next
    case (Clock_in past n)
    then show ?thesis using mv at pinned_touched [OF pin] by auto
  next
    case (Filled past n)
    then show ?thesis using mv at pin by auto
  qed
qed

interpretation scattering: steady_call k X "readv_step X bufs (int k) off"
    "\<lambda>pc w. (0 \<le> off \<and> off \<le> int (length d) \<and> list_all iov_ok bufs \<and> bufs \<noteq> []) \<and>
       pinned k p d X w \<and> scatter_at d off bufs pc"
  for k X off bufs p d
proof (unfold_locales, goal_cases)
  case (1 pc w r)
  then show ?case using scatter_step_at [of k p d X w off bufs pc r] by auto
next
  case (2 pc w c w')
  then show ?case using exec_pinned [of k p d X w c w'] by auto
qed

text \<open>C15 A scattered read of a reserved piece is safe under any interleaving. If the piece is reserved
  and in the cache, and the calls other threads make between the steps of \<open>readv\<close> leave it
  alone, then wherever the reader is, its next step does not fault, and when it has finished it
  returns the number of bytes the entries could take and the entries hold exactly the bytes of
  the piece from the offset on.\<close>

theorem reserved_readv_any_interleaving:
  assumes o: "orderly X w" and k: "k \<in> reserved_set X w" "cached w k = Some d"
    and off: "0 \<le> off" "off \<le> int (length d)" and ok: "list_all iov_ok bufs" "bufs \<noteq> []"
    and run: "among_others k X (readv_step X bufs (int k) off) (Admit, w) (pc, w')"
  shows "(\<forall>e. readv_step X bufs (int k) off pc w' \<noteq> Some (Inl e)) \<and>
    (\<forall>n bufs'. pc = Filled bufs' n \<longrightarrow>
       n = int (length (take (length (gathered bufs)) (drop (nat off) d))) \<and>
       map iov_len bufs' = map iov_len bufs \<and>
       gathered bufs' = patch (gathered bufs) 0 (take (length (gathered bufs)) (drop (nat off) d)))"
proof -
  have start: "(0 \<le> off \<and> off \<le> int (length d) \<and> list_all iov_ok bufs \<and> bufs \<noteq> []) \<and>
      pinned k (pieces w ! k) d X w \<and> scatter_at d off bufs Admit"
    using assms by (simp add: pinned_def)
  note always = scattering.always_good [OF run start]
  show ?thesis
  proof (intro conjI allI impI)
    fix e show "readv_step X bufs (int k) off pc w' \<noteq> Some (Inl e)" by (rule always(2))
  qed (use always(1) in \<open>auto simp: filled_from_def taken_def\<close>)
qed

text \<open>The reader fills two entries; between them another thread trims and a third one reads.\<close>

lemma demo_scatter:
  "case performed (others_leave 1 demo_ext) (take_turn (readv_step demo_ext [iov [0], iov [0, 0]] 1 1) demo_ext)
      [Mine, Mine, Other (Trim 2), Mine, Other (Read [0] 1 1 0), Mine, Mine, Mine] (Admit, demo_filled [1]) of
     Some (pc, v) \<Rightarrow> (case pc of Filled bufs n \<Rightarrow> True | _ \<Rightarrow> False)
   | _ \<Rightarrow> False"
  by code_simp

lemma reserved_readv_any_interleaving_witness:
  "\<exists>w' bufs'. among_others 1 demo_ext (readv_step demo_ext [iov [0], iov [0, 0]] 1 1) (Admit, demo_filled [1])
      (Filled bufs' 3, w') \<and> gathered bufs' = [2, 3, 4]"
proof -
  let ?step = "readv_step demo_ext [iov [0], iov [0, 0]] (int 1) 1"
  let ?es = "[Mine, Mine, Other (Trim 2), Mine, Other (Read [0] 1 1 0), Mine, Mine, Mine]"
  obtain n w' bufs' where r: "performed (others_leave 1 demo_ext) (take_turn ?step demo_ext) ?es (Admit, demo_filled [1]) = Some (Filled bufs' n, w')"
    using demo_scatter
    by (auto split: option.splits sum.splits readv_pc.splits simp del: performed.simps)
  have run: "among_others 1 demo_ext ?step (Admit, demo_filled [1]) (Filled bufs' n, w')"
    using performed_calls [OF r calls_to.no_call] by simp
  have "n = 3 \<and> gathered bufs' = [2, 3, 4]"
    using reserved_readv_any_interleaving [OF demo_filled_orderly _ demo_filled_cached _ _ _ _ run]
    by (simp add: demo_filled_reserved iov_ok_iov patch_def gathered_def del: One_nat_def)
  then show ?thesis using run by auto
qed

end
