(* ===== verification/Writer.thy ===== *)
theory Writer
  imports Scatter
begin

text \<open>
  A writer thread against other threads. \<open>writev\<close> holds the mutex only inside \<open>get_buffer\<close> and
  \<open>trim\<close>: between them it looks the buffer of its piece up again for every entry of the gather
  array, then for the time of access, and \<open>size += n\<close> reads the size of the piece and writes it
  back as two accesses to memory. Here it is cut at those points.
\<close>

section \<open>The steps of writev\<close>

datatype write_pc =
    Obtain
  | Store "iovec_t list" int int
  | Grow int
  | Put_size int int
  | Stamp int
  | Check int
  | Shrink int
  | Written int

definition store_entry ::
  "int \<Rightarrow> iovec_t \<Rightarrow> int \<Rightarrow> ('b, 't) world \<Rightarrow> ub + int \<times> ('b, 't) world" where
  "store_entry piece v file_offset w =
     bindE (vec_at (pieces w) piece) (\<lambda>p.
     bindE (vec_at (buffers w) (mp_bi p)) (\<lambda>b.
     let to_copy = to_int32 (min (to_size_t (mp_length p) - to_size_t file_offset) (iov_len v)) in
     bindE (mem_load (iov_base v) 0 to_copy) (\<lambda>bytes.
     bindE (mem_store (mb_buffer b) file_offset bytes) (\<lambda>data.
     bindE (vec_upd (buffers w) (mp_bi p) (\<lambda>b. b\<lparr>mb_buffer := data\<rparr>)) (\<lambda>bs.
       Inr (to_copy, w\<lparr>buffers := bs\<rparr>))))))"

text \<open>\<open>pieces[piece].size += n\<close>: the sum of what is read, then the write.\<close>

definition grown_size :: "int \<Rightarrow> int \<Rightarrow> ('b, 't) world \<Rightarrow> ub + int" where
  "grown_size piece n w = bindE (vec_at (pieces w) piece) (\<lambda>p. i32 (mp_size p + n))"

definition put_size :: "int \<Rightarrow> int \<Rightarrow> ('b, 't) world \<Rightarrow> ub + ('b, 't) world" where
  "put_size piece sz w =
     bindE (vec_upd (pieces w) piece (\<lambda>p. p\<lparr>mp_size := sz\<rparr>)) (\<lambda>ps. Inr (w\<lparr>pieces := ps\<rparr>))"

fun write_step ::
  "('b, 't) ext \<Rightarrow> iovec_t list \<Rightarrow> int \<Rightarrow> int \<Rightarrow> write_pc \<Rightarrow> ('b, 't) world
    \<Rightarrow> (ub + write_pc \<times> ('b, 't) world) option" where
  "write_step X bufs piece offset Obtain w =
     Some (if \<not> is_initialized w then Inr (Written 0, w)
       else bindE (get_write_buffer X piece w) (\<lambda>(ok, w).
         Inr (if ok then Store bufs offset 0 else Written 0, w)))"
| "write_step X bufs piece offset (Store (v # vs) file_offset n) w =
     Some (bindE (store_entry piece v file_offset w) (\<lambda>(to_copy, w).
       bindE (i32 (file_offset + to_copy)) (\<lambda>file_offset.
       bindE (i32 (n + to_copy)) (\<lambda>n.
         Inr (Store vs file_offset n, w)))))"
| "write_step X bufs piece offset (Store [] file_offset n) w =
     Some (bindE (log_first_iov bufs w) (\<lambda>_. Inr (Grow n, w)))"
| "write_step X bufs piece offset (Grow n) w =
     Some (bindE (grown_size piece n w) (\<lambda>sz. Inr (Put_size n sz, w)))"
| "write_step X bufs piece offset (Put_size n sz) w =
     Some (bindE (put_size piece sz w) (\<lambda>w. Inr (Stamp n, w)))"
| "write_step X bufs piece offset (Stamp n) w =
     Some (bindE (touch piece w) (\<lambda>w. Inr (Check n, w)))"
| "write_step X bufs piece offset (Check n) w =
     Some (Inr (if buffer_limit w \<le> buffer_used w then Shrink n else Written n, w))"
| "write_step X bufs piece offset (Shrink n) w =
     map_option (\<lambda>r. bindE r (\<lambda>w. Inr (Written n, w))) (trim X piece w)"
| "write_step X bufs piece offset (Written n) w = Some (Inr (Written n, w))"

section \<open>The steps are the function\<close>

lemma write_alone_tail:
  "alone (write_step X bufs piece offset) 6 (Store [] fo n, w) =
   (case bindE (log_first_iov bufs w) (\<lambda>_. bindE (grown_size piece n w) (\<lambda>sz.
        bindE (put_size piece sz w) (touch piece))) of
      Inl e \<Rightarrow> Some (Inl e)
    | Inr w \<Rightarrow>
        if buffer_limit w \<le> buffer_used w
        then map_option (\<lambda>r. bindE r (\<lambda>w. Inr (Written n, w))) (trim X piece w)
        else Some (Inr (Written n, w)))"
  by (simp add: numeral_eq_Suc bindE_def split: sum.splits option.splits)

lemma store_entry_eq:
  assumes "vec_at (pieces w) piece = Inr p" "vec_at (buffers w) (mp_bi p) = Inr b"
  shows "store_entry piece v fo w =
    (let to_copy = to_int32 (min (to_size_t (mp_length p) - to_size_t fo) (iov_len v)) in
     bindE (mem_load (iov_base v) 0 to_copy) (\<lambda>bytes.
     bindE (mem_store (mb_buffer b) fo bytes) (\<lambda>data.
       Inr (to_copy, w\<lparr>buffers := (buffers w)[nat (mp_bi p) := b\<lparr>mb_buffer := data\<rparr>]\<rparr>))))"
  using assms by (simp add: store_entry_def vec_at_eq_Inr)

lemma write_alone_loop:
  assumes "vec_at (pieces w) piece = Inr p" "vec_at (buffers w) (mp_bi p) = Inr b"
  shows "alone (write_step X bufs piece offset) (length vs + m) (Store vs fo n, w) =
    (case writev_loop (mp_length p) vs fo n (mb_buffer b) of
       Inl e \<Rightarrow> Some (Inl e)
     | Inr (n', data) \<Rightarrow>
         alone (write_step X bufs piece offset) m
           (Store [] (fo + (n' - n)) n', w\<lparr>buffers := (buffers w)[nat (mp_bi p) := b\<lparr>mb_buffer := data\<rparr>]\<rparr>))"
  using assms
proof (induction vs arbitrary: fo n w b)
  case Nil
  then show ?case by (simp add: vec_at_eq_Inr)
next
  case (Cons v vs)
  let ?k = "to_int32 (min (to_size_t (mp_length p) - to_size_t fo) (iov_len v))"
  let ?r = "bindE (mem_load (iov_base v) 0 ?k) (mem_store (mb_buffer b) fo)"
  show ?case
  proof (cases "\<exists>data. ?r = Inr data \<and> i32 (fo + ?k) = Inr (fo + ?k) \<and> i32 (n + ?k) = Inr (n + ?k)")
    case False
    then show ?thesis
      by (auto simp: store_entry_eq [OF Cons.prems] Let_def bindE_def i32_def split: sum.splits)
  next
    case True
    then obtain data where data: "?r = Inr data" "i32 (fo + ?k) = Inr (fo + ?k)" "i32 (n + ?k) = Inr (n + ?k)"
      by blast
    then obtain bytes where bytes: "mem_load (iov_base v) 0 ?k = Inr bytes" "mem_store (mb_buffer b) fo bytes = Inr data"
      by (auto simp: bindE_eq_Inr)
    let ?b = "b\<lparr>mb_buffer := data\<rparr>"
    let ?w = "w\<lparr>buffers := (buffers w)[nat (mp_bi p) := ?b]\<rparr>"
    have "vec_at (pieces ?w) piece = Inr p" "vec_at (buffers ?w) (mp_bi p) = Inr ?b"
      using Cons.prems by (auto simp: vec_at_eq_Inr)
    note IH = Cons.IH [OF this, of "fo + ?k" "n + ?k"]
    have "fo + ?k + (n' - (n + ?k)) = fo + (n' - n)" for n' by simp
    then show ?thesis
      using data(2,3) bytes by (simp add: store_entry_eq [OF Cons.prems] Let_def IH split: sum.split)
  qed
qed

lemma steps_compute_writev:
  assumes "wf X w"
  shows "alone (write_step X bufs piece offset) (length bufs + 7) (Obtain, w) =
    map_option (\<lambda>r. bindE r (\<lambda>(n, w). Inr (Written n, w))) (writev X bufs piece offset w)"
proof -
  have init: "is_initialized w" by (rule wf_shape(1) [OF assms])
  show ?thesis
  proof (cases "get_buffer X piece True w")
    case (Inl e)
    then show ?thesis using init by (simp add: writev_def get_write_buffer_def numeral_eq_Suc)
  next
    case (Inr r)
    then obtain ok w1 where g: "get_buffer X piece True w = Inr (ok, w1)" by (cases r) auto
    show ?thesis
    proof (cases ok)
      case False
      then show ?thesis using g init by (simp add: writev_def get_write_buffer_def alone_stays numeral_eq_Suc)
    next
      case True
      then have g: "get_buffer X piece True w = Inr (True, w1)" using g by simp
      obtain k where k: "k < length (pieces w)" "piece = int k" using get_buffer_range [OF g] by blast
      note f = admitted_facts [OF assms k(1) get_buffer_admitted [OF assms k(1) g [unfolded k(2)]]]
      have w1: "wf X w1" using get_buffer_wf [OF assms k(1) g [unfolded k(2)]] by blast
      have k1: "k < length (pieces w1)" using k(1) f(4) by simp
      obtain j where j: "mp_bi (pieces w1 ! k) = int j" "j < length (buffers w1)"
        by (rule buffered_index [OF w1 k1 f(1)])
      have at: "vec_at (pieces w1) piece = Inr (pieces w1 ! k)"
        "vec_at (buffers w1) (mp_bi (pieces w1 ! k)) = Inr (buffers w1 ! j)"
        using k1 k(2) j by simp_all
      have "alone (write_step X bufs piece offset) (length bufs + 7) (Obtain, w) =
          alone (write_step X bufs piece offset) (length bufs + 6) (Store bufs offset 0, w1)"
        using g init by (simp add: get_write_buffer_def numeral_eq_Suc)
      then show ?thesis
        unfolding write_alone_loop [OF at, of X bufs offset bufs 6] 
        using g init j k1 k(2)
        by (auto simp: write_alone_tail writev_def get_write_buffer_def writev_store_def grown_size_def put_size_def
            Let_def bindE_def option.map_comp comp_def
            split: sum.splits prod.splits intro!: map_option_cong)
    qed
  qed
qed

section \<open>Writing into a pinned piece\<close>

lemma entry_copied:
  assumes "iov_ok v" "0 \<le> fo" "fo \<le> len" "len \<le> int (length data)" "len \<le> INT_MAX"
  defines "bs \<equiv> take (nat (len - fo)) (iov_base v)"
  shows "to_int32 (min (to_size_t len - to_size_t fo) (iov_len v)) = int (length bs)"
    and "mem_load (iov_base v) 0 (int (length bs)) = Inr bs"
    and "mem_store data fo bs = Inr (patch data (nat fo) bs)"
proof -
  have "uint (iov_len v) = int (length (iov_base v))" using assms(1) by (simp add: iov_ok_def)
  then have "to_int32 (min (to_size_t len - to_size_t fo) (iov_len v)) =
      min (len - fo) (int (length (iov_base v)))"
    using to_copy_min [of fo len "iov_len v"] assms(2,3,5) by simp
  then show "to_int32 (min (to_size_t len - to_size_t fo) (iov_len v)) = int (length bs)"
    using assms(3) by (simp add: bs_def)
  show "mem_load (iov_base v) 0 (int (length bs)) = Inr bs" by (simp add: mem_load_def bs_def min_def)
  show "mem_store data fo bs = Inr (patch data (nat fo) bs)"
    using assms(2-4) by (auto simp: mem_store_def bs_def min_def)
qed

lemma pinned_stored:
  assumes p: "pinned k p d X w" and len: "length d' = length d"
  defines "v \<equiv> w\<lparr>buffers := (buffers w)[nat (mp_bi p) := (buffers w ! nat (mp_bi p))\<lparr>mb_buffer := d'\<rparr>]\<rparr>"
  shows "pinned k p d' X v"
proof -
  obtain j where j: "k < length (pieces w)" "pieces w ! k = p" "is_buffered p" "mp_bi p = int j"
    "j < length (buffers w)" "mb_buffer (buffers w ! j) = d" "wf X w" "trim_inv X w" "safe X w"
    "buffer_ok (piece_length w) (int j) (buffers w ! j)"
    by (rule pinned_facts [OF p])
  let ?b = "(buffers w ! j)\<lparr>mb_buffer := d'\<rparr>"
  have v: "v = w\<lparr>buffers := (buffers w)[j := ?b]\<rparr>" using j(4) by (simp add: v_def)
  have used: "mb_is_used (buffers w ! j)"
    using wf_piece_buffer [OF j(7), of "int k"] j(1-4) wf_shape(4) [OF j(7)] by simp
  have "buffer_ok (piece_length w) (int j) ?b" using j(6,10) len used by (simp add: buffer_ok_def)
  then have wf: "wf X v" unfolding v using j(7) by (intro wf_upd_buffer) simp_all
  have "acct X v" unfolding v using j(8) by (intro acct_upd_buffer) (simp_all add: trim_inv_def)
  then have "trim_inv X v" using wf j(8) by (simp add: trim_inv_def v handle_ok_def)
  moreover have "safe X v" using wf j(9) by (simp add: safe_def v never_completed_def sized_def)
  moreover have "cached v k = Some d'" using j(1-5) by (simp add: cached_Some v piece_data_def)
  ultimately show ?thesis using p by (simp add: pinned_def orderly_def v reserved_set_def)
qed

lemma pinned_resized:
  assumes p: "pinned k p d X w" and n: "0 \<le> sz"
  defines "p' \<equiv> p\<lparr>mp_size := sz\<rparr>"
  shows "pinned k p' d X (w\<lparr>pieces := (pieces w)[k := p']\<rparr>)"
proof -
  obtain j where j: "k < length (pieces w)" "pieces w ! k = p" "is_buffered p" "mp_bi p = int j"
    "j < length (buffers w)" "mb_buffer (buffers w ! j) = d" "wf X w" "trim_inv X w" "safe X w"
    by (rule pinned_facts [OF p])
  let ?v = "w\<lparr>pieces := (pieces w)[k := p']\<rparr>"
  have "piece_ok (piece_length w) (int k) p'"
    using wf_piece [OF j(7,1)] j(2,3) n by (auto simp: piece_ok_def p'_def is_buffered_def)
  then have wf: "wf X ?v" using j(2,7) by (intro wf_upd_piece) (simp_all add: p'_def)
  have "trim_inv X ?v" using wf j(8) by (simp add: trim_inv_def handle_ok_def acct_def)
  moreover have "\<not> mp_is_completed p" "\<not> mp_is_read p"
    using j(1,2,9) by (auto simp: safe_def never_completed_def)
  then have "safe X ?v"
    using wf j(9) by (auto simp: safe_def never_completed_def sized_def p'_def dest: set_update_subset_insert [THEN subsetD])
  moreover have "cached ?v k = Some d" using j(1-6) by (simp add: cached_Some piece_data_def p'_def is_buffered_def)
  ultimately show ?thesis using p j(1) by (simp add: pinned_def orderly_def reserved_set_def)
qed

text \<open>Where the writer is, and what the piece holds by then.\<close>

definition fits :: "memory_piece \<Rightarrow> int \<Rightarrow> iovec_t list \<Rightarrow> byte list" where
  "fits p off vs = take (nat (mp_length p - off)) (gathered vs)"

definition all_written ::
  "('b, 't) ext \<Rightarrow> nat \<Rightarrow> memory_piece \<Rightarrow> byte list \<Rightarrow> int \<Rightarrow> iovec_t list \<Rightarrow> int \<Rightarrow> ('b, 't) world \<Rightarrow> bool"
  where
  "all_written X k p d off bufs n w \<longleftrightarrow>
     n = int (length (fits p off bufs)) \<and>
     pinned k (p\<lparr>mp_size := mp_size p + n\<rparr>) (patch d (nat off) (fits p off bufs)) X w"

fun writer_at ::
  "('b, 't) ext \<Rightarrow> nat \<Rightarrow> memory_piece \<Rightarrow> byte list \<Rightarrow> int \<Rightarrow> iovec_t list \<Rightarrow> write_pc \<times> ('b, 't) world
    \<Rightarrow> bool" where
  "writer_at X k p d off bufs (Obtain, w) = pinned k p d X w"
| "writer_at X k p d off bufs (Store vs fo n, w) =
     (\<exists>past. bufs = past @ vs \<and> n = int (length (fits p off past)) \<and> fo = off + n \<and>
       pinned k p (patch d (nat off) (fits p off past)) X w)"
| "writer_at X k p d off bufs (Grow n, w) =
     (n = int (length (fits p off bufs)) \<and> pinned k p (patch d (nat off) (fits p off bufs)) X w)"
| "writer_at X k p d off bufs (Put_size n sz, w) =
     (n = int (length (fits p off bufs)) \<and> sz = mp_size p + n \<and>
      pinned k p (patch d (nat off) (fits p off bufs)) X w)"
| "writer_at X k p d off bufs (Stamp n, w) = all_written X k p d off bufs n w"
| "writer_at X k p d off bufs (Check n, w) = all_written X k p d off bufs n w"
| "writer_at X k p d off bufs (Shrink n, w) = all_written X k p d off bufs n w"
| "writer_at X k p d off bufs (Written n, w) = all_written X k p d off bufs n w"

lemma fits_snoc:
  assumes "0 \<le> off" "off \<le> mp_length p"
  shows "fits p off (past @ [v]) =
    fits p off past @ take (nat (mp_length p - (off + int (length (fits p off past))))) (iov_base v)"
proof -
  let ?m = "nat (mp_length p - off)"
  have "nat (mp_length p - (off + int (length (fits p off past)))) = ?m - length (fits p off past)"
    by linarith
  moreover have "take (?m - length (take ?m (gathered past))) (iov_base v) =
      take (?m - length (gathered past)) (iov_base v)"
    by (cases "?m \<le> length (gathered past)") simp_all
  ultimately show ?thesis by (simp add: fits_def gathered_def)
qed

text \<open>One entry is stored.\<close>

lemma store_entry_at:
  assumes pin: "pinned k p d X w" and v: "iov_ok v" and fo: "0 \<le> fo" "fo \<le> mp_length p"
  defines "bs \<equiv> take (nat (mp_length p - fo)) (iov_base v)"
  shows "\<exists>w'. store_entry (int k) v fo w = Inr (int (length bs), w') \<and> pinned k p (patch d (nat fo) bs) X w'"
proof -
  obtain j where j: "k < length (pieces w)" "pieces w ! k = p" "mp_bi p = int j"
    "j < length (buffers w)" "mb_buffer (buffers w ! j) = d"
    and len: "mp_length p \<le> int (length d)" "int (length d) \<le> INT_MAX"
    by (rule pinned_facts [OF pin])
  then have "mp_length p \<le> INT_MAX" by simp
  note copy = entry_copied [OF v fo len(1) this, folded bs_def]
  have "length (patch d (nat fo) bs) = length d"
    using fo len by (intro length_patch) (auto simp: bs_def)
  from pinned_stored [OF pin this] show ?thesis using j copy by (simp add: store_entry_def)
qed

lemma store_step_at:
  assumes off: "0 \<le> off" "off \<le> mp_length p" and v: "iov_ok v" and d: "mp_length p \<le> int (length d)"
    and n: "n = int (length (fits p off past))" "fo = off + n"
    and pin: "pinned k p (patch d (nat off) (fits p off past)) X w"
  defines "m \<equiv> int (length (fits p off (past @ [v])))"
  shows "\<exists>w'. write_step X bufs (int k) off (Store (v # ws) fo n) w = Some (Inr (Store ws (off + m) m, w')) \<and>
    pinned k p (patch d (nat off) (fits p off (past @ [v]))) X w'"
proof -
  let ?d = "patch d (nat off) (fits p off past)" and ?b = "take (nat (mp_length p - fo)) (iov_base v)"
  have fo: "0 \<le> fo" "fo \<le> mp_length p" using n off by (auto simp: fits_def)
  have bound: "mp_length p \<le> INT_MAX" by (rule pinned_facts [OF pin]; linarith)
  from store_entry_at [OF pin v fo] obtain w' where
    w': "store_entry (int k) v fo w = Inr (int (length ?b), w')" "pinned k p (patch ?d (nat fo) ?b) X w'"
    by blast
  have next_fits: "fits p off (past @ [v]) = fits p off past @ ?b"
    using fits_snoc [OF off, of past v] n by simp
  then have m: "m = n + int (length ?b)" unfolding m_def using n(1) by simp
  have "nat fo = nat off + length (fits p off past)" using n off by simp
  then have data: "patch ?d (nat fo) ?b = patch d (nat off) (fits p off (past @ [v]))"
    unfolding next_fits using n fo off d by (simp only:) (intro patch_patch, auto)
  have sums: "fo + int (length ?b) = off + m" "n + int (length ?b) = m" using m n(2) by linarith+
  have "int (length ?b) \<le> mp_length p - fo" "0 \<le> m" using fo by (simp, simp add: m_def)
  then have "i32 (off + m) = Inr (off + m)" "i32 m = Inr m"
    using off bound sums(1) by (intro i32_nonneg; linarith)+
  then have "i32 (fo + int (length ?b)) = Inr (off + m)" "i32 (n + int (length ?b)) = Inr m"
    unfolding sums .
  then show ?thesis using w' data by simp
qed

lemma grow_step_at:
  assumes "pinned k p d X w" "mp_size p + n \<le> INT_MAX" "0 \<le> n"
  shows "grown_size (int k) n w = Inr (mp_size p + n)"
proof -
  obtain j where j: "k < length (pieces w)" "pieces w ! k = p" "0 \<le> mp_size p"
    by (rule pinned_facts [OF assms(1)])
  have "i32 (mp_size p + n) = Inr (mp_size p + n)" using assms(2,3) j(3) by (intro i32_nonneg) auto
  then show ?thesis using j by (simp add: grown_size_def)
qed

lemma put_step_at:
  assumes "pinned k p d X w" "0 \<le> sz"
  shows "\<exists>w'. put_size (int k) sz w = Inr w' \<and> pinned k (p\<lparr>mp_size := sz\<rparr>) d X w'"
proof -
  obtain j where "k < length (pieces w)" "pieces w ! k = p" by (rule pinned_facts [OF assms(1)])
  then show ?thesis using pinned_resized [OF assms] by (simp add: put_size_def)
qed

lemma shrink_step_at:
  assumes pin: "pinned k p d X w" and t: "trim X (int k) w = Some r"
  shows "\<exists>w'. r = Inr w' \<and> pinned k p d X w'"
proof -
  have "trim_inv X w" by (rule pinned_facts [OF pin])
  from trim_returns [OF this t] obtain w' where "r = Inr w'" by auto
  then show ?thesis using exec_pinned [OF pin, of "Trim (int k)" w'] t by simp
qed

lemma writer_step_at:
  assumes off: "0 \<le> off" "off \<le> mp_length p" and ok: "list_all iov_ok bufs" "bufs \<noteq> []"
    and size: "mp_size p + int (length (fits p off bufs)) \<le> INT_MAX"
    and d: "mp_length p \<le> int (length d)" "int (length d) \<le> INT_MAX"
    and at: "writer_at X k p d off bufs (pc, w)"
    and mv: "write_step X bufs (int k) off pc w = Some r"
  shows "\<exists>c. r = Inr c \<and> writer_at X k p d off bufs c"
proof (cases pc)
  case Obtain
  then have pin: "pinned k p d X w" using at by simp
  obtain j where j: "k < length (pieces w)" "pieces w ! k = p" "is_buffered p" "wf X w"
    by (rule pinned_facts [OF pin])
  then have "r = Inr (Store bufs off 0, w)"
    using mv Obtain wf_shape(1) [OF j(4)] by (simp add: get_write_buffer_def get_buffer_def)
  then show ?thesis using pin by (simp add: fits_def)
next
  case (Store vs fo n)
  then obtain past where past: "bufs = past @ vs" "n = int (length (fits p off past))" "fo = off + n"
    and pin: "pinned k p (patch d (nat off) (fits p off past)) X w"
    using at by auto
  show ?thesis
  proof (cases vs)
    case Nil
    have "log_first_iov bufs w = Inr ()" using ok(2) by (cases bufs) (simp_all add: log_first_iov_def)
    then show ?thesis using Nil mv Store past pin by auto
  next
    case (Cons v ws)
    then have "iov_ok v" using ok(1) past(1) by simp
    from store_step_at [OF off this d(1) past(2,3) pin, of bufs ws] show ?thesis
      using mv Store past(1) Cons by (auto intro!: exI [of _ "past @ [v]"])
  qed
next
  case (Grow n)
  then have n: "n = int (length (fits p off bufs))"
    and pin: "pinned k p (patch d (nat off) (fits p off bufs)) X w" using at by auto
  then show ?thesis using grow_step_at [OF pin, of n] size n mv Grow by auto
next
  case (Put_size n sz)
  then have n: "n = int (length (fits p off bufs))" "sz = mp_size p + n"
    and pin: "pinned k p (patch d (nat off) (fits p off bufs)) X w" using at by auto
  have "0 \<le> mp_size p" by (rule pinned_facts [OF pin])
  then show ?thesis using put_step_at [OF pin, of sz] n mv Put_size by (auto simp: all_written_def)
next
  case (Stamp n)
  then have "all_written X k p d off bufs n w" using at by simp
  then show ?thesis using mv Stamp pinned_touched by (fastforce simp: all_written_def)
next
  case (Shrink n)
  then obtain t where t: "trim X (int k) w = Some t" "r = bindE t (\<lambda>w. Inr (Written n, w))"
    using mv by auto
  then show ?thesis using shrink_step_at [OF _ t(1)] at Shrink by (fastforce simp: all_written_def)
qed (use at mv in auto)

lemma other_thread_at:
  assumes at: "writer_at X k p d off bufs (pc, w)" and g: "leaves_alone k X call w"
    and r: "exec X call w = Some (Inr w')"
  shows "writer_at X k p d off bufs (pc, w')"
proof -
  have keep: "pinned k q e X w \<Longrightarrow> pinned k q e X w'" for q e
    using exec_pinned g r by blast
  then show ?thesis using at by (cases pc) (auto simp: all_written_def)
qed

text \<open>Writing into a pinned piece does not mind the others.\<close>

interpretation writing: steady_call k X "write_step X bufs (int k) off"
    "\<lambda>pc w. (0 \<le> off \<and> off \<le> mp_length p \<and> list_all iov_ok bufs \<and> bufs \<noteq> [] \<and>
       mp_size p + int (length (fits p off bufs)) \<le> INT_MAX \<and>
       mp_length p \<le> int (length d) \<and> int (length d) \<le> INT_MAX) \<and> writer_at X k p d off bufs (pc, w)"
  for k X off bufs p d
proof (unfold_locales, goal_cases)
  case (1 pc w r)
  then show ?case using writer_step_at [of off p bufs d X k pc w r] by auto
next
  case (2 pc w c w')
  then show ?case using other_thread_at [of X k p d off bufs pc w c w'] by blast
qed

text \<open>C14 Writing a reserved piece is safe under any interleaving. If the piece is reserved and in the
  cache, and the calls other threads make between the writer's steps leave it alone, then
  wherever the writer is, its next step does not fault, and when it has finished it returns the
  number of bytes that fit, the piece has grown by as many, and the cache holds exactly the old
  bytes with the new ones put in at the offset.\<close>

theorem reserved_write_any_interleaving:
  assumes o: "orderly X w" and k: "k \<in> reserved_set X w" "cached w k = Some d"
    and ok: "write_ok w k off bufs" "bufs \<noteq> []"
    and run: "among_others k X (write_step X bufs (int k) off) (Obtain, w) (pc, w')"
  shows "(\<forall>e. write_step X bufs (int k) off pc w' \<noteq> Some (Inl e)) \<and>
    (\<forall>n. pc = Written n \<longrightarrow>
       n = int (length (accepted_bytes w k off bufs)) \<and>
       mp_size (pieces w' ! k) = mp_size (pieces w ! k) + n \<and>
       cached w' k = Some (patch d (nat off) (accepted_bytes w k off bufs)))"
proof -
  let ?p = "pieces w ! k"
  have pin: "pinned k ?p d X w" using o k by (simp add: pinned_def)
  have b: "mp_length ?p \<le> int (length d)" "int (length d) \<le> INT_MAX"
    by (rule pinned_facts [OF pin]; simp)+
  have bs: "fits ?p off bufs = accepted_bytes w k off bufs" by (simp add: fits_def accepted_bytes_def)
  have start: "(0 \<le> off \<and> off \<le> mp_length ?p \<and> list_all iov_ok bufs \<and> bufs \<noteq> [] \<and>
      mp_size ?p + int (length (fits ?p off bufs)) \<le> INT_MAX \<and>
      mp_length ?p \<le> int (length d) \<and> int (length d) \<le> INT_MAX) \<and> writer_at X k ?p d off bufs (Obtain, w)"
    using ok b pin unfolding bs by (auto simp: write_ok_def)
  show ?thesis
    using writing.always_good [OF run start] by (auto simp: all_written_def pinned_def bs)
qed

lemma demo_writer_run:
  "case performed (others_leave 1 demo_ext) (take_turn (write_step demo_ext [iov [9]] 1 2) demo_ext)
      [Mine, Other (Trim 2), Mine, Mine, Other Enable_logging, Mine, Mine, Mine, Mine]
      (Obtain, demo_filled [1]) of
     Some (pc, v) \<Rightarrow> pc = Written 1
   | _ \<Rightarrow> False"
  by code_simp

lemma reserved_write_any_interleaving_witness:
  "\<exists>w'. among_others 1 demo_ext (write_step demo_ext [iov [9]] 1 2) (Obtain, demo_filled [1])
      (Written 1, w') \<and> cached w' 1 = Some [1, 2, 9, 4]"
proof -
  let ?es = "[Mine, Other (Trim 2), Mine, Mine, Other Enable_logging, Mine, Mine, Mine, Mine]"
  let ?w = "demo_filled [1]"
  obtain w' where r: "performed (others_leave 1 demo_ext) (take_turn (write_step demo_ext [iov [9]] 1 2) demo_ext) ?es (Obtain, ?w) = Some (Written 1, w')"
    using demo_writer_run by (auto split: option.splits sum.splits simp del: performed.simps)
  have run: "among_others 1 demo_ext (write_step demo_ext [iov [9]] (int 1) 2) (Obtain, ?w) (Written 1, w')"
    using performed_calls [OF r calls_to.no_call] by simp
  have acc: "accepted_bytes ?w 1 2 [iov [9]] = [9]"
    by (simp add: accepted_bytes_def demo_filled_sel del: One_nat_def)
  have ok: "write_ok ?w 1 2 [iov [9]]"
    by (simp add: write_ok_def acc demo_filled_sel iov_ok_iov INT_MAX_def del: One_nat_def)
  have "cached w' 1 = Some (patch [1, 2, 3, 4] 2 [9])"
    using reserved_write_any_interleaving [OF demo_filled_orderly _ demo_filled_cached ok _ run] acc
    by (simp add: demo_filled_reserved del: One_nat_def)
  then show ?thesis using run by (auto simp: patch_def)
qed

section \<open>Reading and writing an ordinary piece\<close>

text \<open>If fewer ordinary buffers are lent than before, some piece has lost its buffer.\<close>

lemma evicted_some:
  assumes wf: "wf X w" and ev: "evicted_from X (int p) w w'"
    and fewer: "count_if (lent X (reserved_pieces w) False) (buffers w') < count_if (lent X (reserved_pieces w) False) (buffers w)"
  shows "\<exists>k < length (pieces w). k \<noteq> p \<and> k \<notin> reserved_set X w \<and> is_buffered (pieces w ! k) \<and>
    pieces w' ! k = piece_reset (pieces w ! k)"
proof (rule ccontr)
  assume no: "\<not> ?thesis"
  have len: "length (buffers w') = length (buffers w)" using ev by (simp add: evicted_from_def same_frame_def)
  have kept: "is_buffered (pieces w ! i) \<Longrightarrow>
      buffers w' ! nat (mp_bi (pieces w ! i)) = buffers w ! nat (mp_bi (pieces w ! i))"
    if "i < length (pieces w)" for i
    using ev no that unfolding evicted_from_def reserved_set_def by blast
  have "lent X (reserved_pieces w) False (buffers w' ! j)"
    if j: "j < length (buffers w)" "lent X (reserved_pieces w) False (buffers w ! j)" for j
  proof -
    have u: "mb_is_used (buffers w ! j)" using j(2) by (simp add: lent_def)
    define i where "i = nat (mb_pi (buffers w ! j))"
    note f = wf_buffer_piece [OF wf j(1) u, folded i_def]
    have il: "i < length (pieces w)" using f(1,2) wf_shape(4) [OF wf] by (simp add: i_def)
    then have "buffers w' ! j = buffers w ! j" using kept [OF il] f(3) by (simp add: is_buffered_def)
    then show ?thesis using j(2) by simp
  qed
  then have "count_if (lent X (reserved_pieces w) False) (buffers w) \<le> count_if (lent X (reserved_pieces w) False) (buffers w')"
    using len by (intro count_if_mono) auto
  then show False using fewer by simp
qed

text \<open>A write that fills the pool to its limit takes the buffer of an ordinary piece.\<close>

lemma full_write_evicts:
  assumes o: "orderly X w" and full: "buffer_used w + 1 = buffer_limit w"
    and p: "write_ok w p poff pbufs" "\<not> is_buffered (pieces w ! p)" "p \<notin> reserved_set X w"
    and r: "writev X pbufs (int p) poff w = Some (Inr (n, w'))" "0 < n"
  shows "\<exists>k < length (pieces w). k \<noteq> p \<and> k \<notin> reserved_set X w \<and> is_buffered (pieces w ! k) \<and>
    length (pieces w') = length (pieces w) \<and> pieces w' ! k = piece_reset (pieces w ! k)"
proof -
  note w = orderlyD [OF o]
  have pl: "p < length (pieces w)" using p(1) by (simp add: write_ok_def)
  obtain w1 where g: "get_buffer X (int p) True w = Inr (True, w1)"
    by (rule written_granted [OF o p(1) r])
  let ?w2 = "stored p (nat poff) (accepted_bytes w p poff pbufs) w1"
  note a = writev_admitted [OF w(5) p(1) g]
  have "0 \<le> capacity w" using w(4) by (simp add: safe_def sized_def)
  then have e: "trim_inv X w'" "evicted_from X (int p) ?w2 w'" "buffer_used w' < buffer_limit w'"
    using writev_result [OF w(5) p(1) g r(1)] by auto
  obtain j where w1: "w1 = assigned X p j w" using a(2) p(2) by (auto simp: admitted_def)
  have ord: "\<not> bs_test X (reserved_pieces w) p" using p(3) pl by (simp add: reserved_set_def)
  have same: "buffer_limit w' = buffer_limit w" "reserved_pieces w' = reserved_pieces ?w2"
    using e(2) ord by (simp_all add: evicted_from_def same_frame_def w1)
  have "count_if (lent X (reserved_pieces ?w2) False) (buffers w') = buffer_used w'"
    using e(1) same(2) by (simp add: trim_inv_def acct_def)
  moreover have "count_if (lent X (reserved_pieces ?w2) False) (buffers ?w2) = buffer_used w + 1"
    using a(1) ord by (simp add: trim_inv_def acct_def w1)
  moreover have "wf X ?w2" using a(1) by (simp add: trim_inv_def)
  ultimately obtain k where k: "k < length (pieces ?w2)" "k \<noteq> p" "k \<notin> reserved_set X ?w2"
    "is_buffered (pieces ?w2 ! k)" "pieces w' ! k = piece_reset (pieces ?w2 ! k)"
    using evicted_some [OF _ e(2)] e(3) same(1) full by auto
  moreover have "pieces ?w2 ! k = pieces w ! k" "length (pieces ?w2) = length (pieces w)"
    "reserved_set X ?w2 = reserved_set X w"
    using k(2) by (simp_all add: w1 reserved_set_def)
  moreover have "length (pieces w') = length (pieces ?w2)" using e(2) by (simp add: evicted_from_def same_frame_def)
  ultimately show ?thesis by auto
qed

lemma unbuffered_accesses:
  assumes "k < length (pieces w)" "\<not> is_buffered (pieces w ! k)"
  shows "piece_buffer (int k) w = Inl OutOfBounds" "store_entry (int k) v fo w = Inl OutOfBounds"
    "touch (int k) w = Inl OutOfBounds"
    "put_size (int k) sz w = Inr (w\<lparr>pieces := (pieces w)[k := (pieces w ! k)\<lparr>mp_size := sz\<rparr>]\<rparr>)"
  using assms by (simp_all add: piece_buffer_def store_entry_def put_size_def touch_def now_def is_buffered_def
      vec_at_def vec_upd_def)

text \<open>C21 The checks of \<open>read\<close>, \<open>readv\<close> and \<open>writev\<close> do not protect what follows them. Take any
  storage where something has been read and one more ordinary piece fills the pool to its limit,
  and any accepted write of a piece that has no buffer yet. That write takes the buffer of some
  ordinary piece away; a thread that has passed its check for this piece (a reader of it while it
  is complete, a scattered reader, a writer) and goes on after the write indexes the pool with -1;
  and a writer that has stored its bytes and is about to write the size back leaves a size on the
  piece that has no buffer any more, before it faults too.\<close>

theorem eviction_under_access_faults:
  assumes o: "orderly X w" and rd: "is_reading w" and full: "buffer_used w + 1 = buffer_limit w"
    and p: "write_ok w p poff pbufs" "\<not> is_buffered (pieces w ! p)" "p \<notin> reserved_set X w"
    and r: "writev X pbufs (int p) poff w = Some (Inr (n, w'))" "0 < n"
  defines "other \<equiv> Other (Writev pbufs (int p) poff)"
  shows "\<exists>k d. cached w k = Some d \<and> k \<notin> reserved_set X w \<and> cached w' k = None \<and>
    (mp_length (pieces w ! k) \<le> mp_size (pieces w ! k) \<longrightarrow>
      turns_taken (reader X sz (int k) off) X [Mine, Mine, other] ((Enter, buf), w) = Some ((Locate, buf), w') \<and>
      read_step X sz (int k) off Locate buf w' = Inl OutOfBounds) \<and>
    turns_taken (readv_step X (v # vs) (int k) off) X [Mine, other] (Admit, w) = Some (Fill [] (v # vs) off 0, w') \<and>
    readv_step X (v # vs) (int k) off (Fill [] (v # vs) off 0) w' = Some (Inl OutOfBounds) \<and>
    turns_taken (write_step X (v # vs) (int k) off) X [Mine, other] (Obtain, w) = Some (Store (v # vs) off 0, w') \<and>
    write_step X (v # vs) (int k) off (Store (v # vs) off 0) w' = Some (Inl OutOfBounds) \<and>
    (\<exists>w''. turns_taken (write_step X bufs (int k) off) X [other, Mine] (Put_size m sum_read, w) = Some (Stamp m, w'') \<and>
      cached w'' k = None \<and> mp_size (pieces w'' ! k) = sum_read \<and>
      write_step X bufs (int k) off (Stamp m) w'' = Some (Inl OutOfBounds))"
proof -
  note w = orderlyD [OF o]
  have init: "is_initialized w" by (rule wf_shape(1) [OF w(1)])
  obtain k where k: "k < length (pieces w)" "k \<noteq> p" "k \<notin> reserved_set X w" "is_buffered (pieces w ! k)"
    "length (pieces w') = length (pieces w)" "pieces w' ! k = piece_reset (pieces w ! k)"
    using full_write_evicts [OF o full p r] by blast
  have gone: "k < length (pieces w')" "\<not> is_buffered (pieces w' ! k)" using k by simp_all
  note f = unbuffered_accesses [OF gone]
  have g: "get_buffer X (int k) wr w = Inr (True, w)" for wr using k(1,4) by (simp add: get_buffer_def)
  have reading: "w\<lparr>is_reading := True\<rparr> = w" using rd by simp
  let ?w = "w'\<lparr>pieces := (pieces w')[k := (pieces w' ! k)\<lparr>mp_size := sum_read\<rparr>]\<rparr>"
  have gone': "k < length (pieces ?w)" "\<not> is_buffered (pieces ?w ! k)" using gone by (simp_all add: is_buffered_def)
  have reads: "turns_taken (reader X sz (int k) off) X [Mine, Mine, other] ((Enter, buf), w) = Some ((Locate, buf), w') \<and>
      read_step X sz (int k) off Locate buf w' = Inl OutOfBounds"
    if "mp_length (pieces w ! k) \<le> mp_size (pieces w ! k)"
    using that k(1,4) r(1) g init reading f(1)
    by (simp add: other_def Let_def get_read_buffer_def drop_result_def)
  show ?thesis
    using k(1,3,4) r(1) g init reads f gone gone' unbuffered_accesses(3) [OF gone']
    by (intro exI [of _ k] exI [of _ "piece_data w k"] conjI)
      (auto simp: other_def cached_def get_read_buffer_def get_write_buffer_def drop_result_def intro!: exI [of _ ?w])
qed

lemma demo_full:
  "case performed (benign demo_ext) (exec demo_ext) [Writev [iov [1, 2, 3, 4]] 1 0, Read [0] 1 1 0] (demo_world 4 0) of
     Some w \<Rightarrow> is_reading w \<and> buffer_used w + 1 = buffer_limit w \<and> write_ok w 0 0 [iov [5, 6]] \<and>
       \<not> is_buffered (pieces w ! 0) \<and> \<not> bs_test demo_ext (reserved_pieces w) 0 \<and>
       (case writev demo_ext [iov [5, 6]] (int 0) 0 w of Some (Inr (n, v)) \<Rightarrow> n = 2 | _ \<Rightarrow> False)
   | None \<Rightarrow> False"
  by code_simp

lemma eviction_under_access_faults_witness:
  "\<exists>w w' k. performed (benign demo_ext) (exec demo_ext) [Writev [iov [1, 2, 3, 4]] 1 0, Read [0] 1 1 0]
       (demo_world 4 0) = Some w \<and>
     turns_taken (readv_step demo_ext [iov [0, 0]] (int k) 0) demo_ext [Mine, Other (Writev [iov [5, 6]] (int 0) 0)] (Admit, w) =
       Some (Fill [] [iov [0, 0]] 0 0, w') \<and>
     readv_step demo_ext [iov [0, 0]] (int k) 0 (Fill [] [iov [0, 0]] 0 0) w' = Some (Inl OutOfBounds) \<and>
     write_step demo_ext [iov [0, 0]] (int k) 0 (Store [iov [0, 0]] 0 0) w' = Some (Inl OutOfBounds)"
proof -
  obtain w where run: "performed (benign demo_ext) (exec demo_ext)
      [Writev [iov [1, 2, 3, 4]] 1 0, Read [0] 1 1 0] (demo_world 4 0) = Some w"
    using demo_full by (auto split: option.splits simp del: performed.simps)
  then have w: "is_reading w" "buffer_used w + 1 = buffer_limit w" "write_ok w 0 0 [iov [5, 6]]"
    "\<not> is_buffered (pieces w ! 0)" "0 \<notin> reserved_set demo_ext w"
    and "case writev demo_ext [iov [5, 6]] (int 0) 0 w of Some (Inr (n, v)) \<Rightarrow> n = 2 | _ \<Rightarrow> False"
    using demo_full by (auto simp: reserved_set_def simp del: performed.simps)
  then obtain w' where r: "writev demo_ext [iov [5, 6]] (int 0) 0 w = Some (Inr (2, w'))"
    by (auto split: option.splits sum.splits)
  have "orderly demo_ext w"
    by (rule exec_benign.kept_by_runs [OF performed_calls [OF run calls_to.no_call]]) (rule demo_world_orderly, simp_all)
  from eviction_under_access_faults [OF this w r zero_less_numeral, where v = "iov [0, 0]" and vs = "[]" and off = 0] run
  show ?thesis by blast
qed

end
