(* ===== verification/Assembly.thy ===== *)
theory Assembly
  imports Writer
begin

text \<open>
  A piece arrives in blocks. libtorrent hands the blocks of a piece to \<open>writev\<close> one by one, in
  the order the peers deliver them, while the client goes on with other calls. Each block is
  written once; when all of them are in, \<open>read\<close> must deliver the piece.
\<close>

section \<open>The blocks of a piece\<close>

text \<open>A block is its offset and its length.\<close>

type_synonym block = "nat \<times> nat"

definition block_range :: "block \<Rightarrow> nat set" where
  "block_range b = {fst b ..< fst b + snd b}"

definition tiles :: "block set \<Rightarrow> nat \<Rightarrow> bool" where
  "tiles B n \<longleftrightarrow> finite B \<and> (\<forall>b\<in>B. 0 < snd b) \<and> (\<Union>b\<in>B. block_range b) = {..<n} \<and>
     (\<forall>b\<in>B. \<forall>c\<in>B. b \<noteq> c \<longrightarrow> block_range b \<inter> block_range c = {})"

definition bytes_of :: "byte list \<Rightarrow> block \<Rightarrow> byte list" where
  "bytes_of content b = take (snd b) (drop (fst b) content)"

lemma tiles_within:
  assumes "tiles B n" "b \<in> B"
  shows "fst b + snd b \<le> n" "0 < snd b"
proof -
  show "0 < snd b" using assms by (simp add: tiles_def)
  then have "fst b + snd b - 1 \<in> block_range b" by (auto simp: block_range_def)
  then have "fst b + snd b - 1 \<in> {..<n}" using assms unfolding tiles_def by blast
  then show "fst b + snd b \<le> n" by simp
qed

lemma tiles_apart:
  assumes "tiles B n" "b \<in> B" "c \<in> B" "b \<noteq> c" "x \<in> block_range b"
  shows "x \<notin> block_range c"
proof -
  have "block_range b \<inter> block_range c = {}" using assms(1-4) unfolding tiles_def by blast
  then show ?thesis using assms(5) by blast
qed

lemma blocks_total:
  assumes t: "tiles B n" and C: "C \<subseteq> B"
  shows "sum snd C = card (\<Union>b\<in>C. block_range b)" "sum snd C \<le> n"
proof -
  have fin: "finite C" using t C by (auto simp: tiles_def intro: finite_subset)
  have "card (\<Union>b\<in>C. block_range b) = (\<Sum>b\<in>C. card (block_range b))"
  proof (rule card_UN_disjoint [OF fin])
    show "\<forall>b\<in>C. finite (block_range b)" by (simp add: block_range_def)
    show "\<forall>b\<in>C. \<forall>c\<in>C. b \<noteq> c \<longrightarrow> block_range b \<inter> block_range c = {}"
      using tiles_apart [OF t] C by blast
  qed
  then show total: "sum snd C = card (\<Union>b\<in>C. block_range b)" by (simp add: block_range_def)
  have "(\<Union>b\<in>C. block_range b) \<subseteq> {..<n}" using t C unfolding tiles_def by blast
  then have "card (\<Union>b\<in>C. block_range b) \<le> card {..<n}" by (intro card_mono) simp_all
  then show "sum snd C \<le> n" using total by simp
qed

lemma all_blocks_total: "tiles B n \<Longrightarrow> sum snd B = n"
  using blocks_total(1) [of B n B] by (simp add: tiles_def)

section \<open>Writing a pinned piece\<close>

lemma writev_pins:
  assumes o: "orderly X w" and res: "k \<in> reserved_set X w" and ok: "write_ok w k off bufs"
    and r: "writev X bufs (int k) off w = Some (Inr (n, w'))" and n: "0 < n \<or> is_buffered (pieces w ! k)"
  defines "bs \<equiv> accepted_bytes w k off bufs"
  defines "d \<equiv> (if is_buffered (pieces w ! k) then piece_data w k else replicate (nat (piece_length w)) 0)"
  shows "\<exists>p. pinned k p (patch d (nat off) bs) X w' \<and> mp_length p = mp_length (pieces w ! k) \<and>
    mp_size p = mp_size (pieces w ! k) + int (length bs)"
proof -
  obtain w1 where g: "get_buffer X (int k) True w = Inr (True, w1)"
  proof (cases "is_buffered (pieces w ! k)")
    case True
    then show thesis using ok by (intro that [of w]) (simp add: write_ok_def get_buffer_def)
  next
    case False
    then show thesis using written_granted [OF o ok r] n that by blast
  qed
  note data = writev_data [OF orderlyD(5) [OF o] ok g r] and shape = writev_same_shape [OF o ok g r]
  have "orderly X w'" using exec_orderly [OF o, of "Writev bufs (int k) off" w'] r by simp
  moreover have "k < length (pieces w)" using ok by (simp add: write_ok_def)
  ultimately show ?thesis
    using data shape res
    by (intro exI [of _ "pieces w' ! k"])
      (simp add: pinned_def reserved_set_def cached_Some bs_def d_def)
qed

text \<open>A block that ends inside the piece is accepted whole.\<close>

lemma block_accepted:
  assumes "gathered bufs = bytes_of content b" "fst b + snd b \<le> length content"
    and "mp_length (pieces w ! k) = int (length content)"
  shows "accepted_bytes w k (int (fst b)) bufs = bytes_of content b"
    "length (bytes_of content b) = snd b"
  using assms by (auto simp: accepted_bytes_def bytes_of_def min_def nat_diff_distrib')

section \<open>Blocks and other calls\<close>

datatype 't delivery = Block block "iovec_t list" | Meanwhile "'t call"

fun deliver ::
  "('b, 't) ext \<Rightarrow> nat \<Rightarrow> 't delivery \<Rightarrow> block set \<times> ('b, 't) world
    \<Rightarrow> (ub + block set \<times> ('b, 't) world) option" where
  "deliver X k (Block b bufs) (written, w) =
     map_option (\<lambda>r. bindE r (\<lambda>(n, w). Inr (insert b written, w)))
       (writev X bufs (int k) (int (fst b)) w)"
| "deliver X k (Meanwhile c) (written, w) =
     map_option (\<lambda>r. bindE r (\<lambda>w. Inr (written, w))) (exec X c w)"

fun proper :: "('b, 't) ext \<Rightarrow> nat \<Rightarrow> block set \<Rightarrow> byte list \<Rightarrow> 't delivery \<Rightarrow> block set \<times> ('b, 't) world \<Rightarrow> bool" where
  "proper X k B content (Block b bufs) (written, w) =
     (b \<in> B - written \<and> bufs \<noteq> [] \<and> list_all iov_ok bufs \<and> gathered bufs = bytes_of content b)"
| "proper X k B content (Meanwhile c) (written, w) = leaves_alone k X c w"

text \<open>What the piece holds when the blocks in \<open>written\<close> are in.\<close>

definition assembled ::
  "('b, 't) ext \<Rightarrow> nat \<Rightarrow> block set \<Rightarrow> byte list \<Rightarrow> block set \<times> ('b, 't) world \<Rightarrow> bool" where
  "assembled X k B content c \<longleftrightarrow>
     (case c of (written, w) \<Rightarrow> written \<subseteq> B \<and>
       (\<exists>p d. pinned k p d X w \<and> mp_length p = int (length content) \<and>
          mp_size p = int (sum snd written) \<and>
          (\<forall>b\<in>written. \<forall>x\<in>block_range b. d ! x = content ! x)))"

lemma block_written:
  assumes t: "tiles B (length content)" and b: "b \<in> B"
    and o: "orderly X w" and res: "k \<in> reserved_set X w"
    and len: "mp_length (pieces w ! k) = int (length content)"
    and size: "mp_size (pieces w ! k) + int (snd b) \<le> int (length content)"
    and bufs: "bufs \<noteq> []" "list_all iov_ok bufs" "gathered bufs = bytes_of content b"
    and r: "writev X bufs (int k) (int (fst b)) w = Some (Inr (n, w'))" and n: "0 < n \<or> is_buffered (pieces w ! k)"
  defines "d \<equiv> (if is_buffered (pieces w ! k) then piece_data w k else replicate (nat (piece_length w)) 0)"
  shows "\<exists>p d'. pinned k p d' X w' \<and> mp_length p = int (length content) \<and>
    mp_size p = mp_size (pieces w ! k) + int (snd b) \<and>
    (\<forall>x\<in>block_range b. d' ! x = content ! x) \<and>
    (\<forall>x. x < length content \<longrightarrow> x \<notin> block_range b \<longrightarrow> d' ! x = d ! x)"
proof -
  note w = orderlyD [OF o]
  have k: "k < length (pieces w)" using res by (simp add: reserved_set_def)
  note in_piece = tiles_within [OF t b]
  note acc = block_accepted [OF bufs(3) in_piece(1) len]
  have plen: "int (length content) \<le> piece_length w" "piece_length w \<le> INT_MAX"
    using wf_piece [OF w(1) k] len wf_shape(6) [OF w(1)] by (auto simp: piece_ok_def)
  have ok: "write_ok w k (int (fst b)) bufs"
    using k bufs(1,2) in_piece(1) len size plen acc by (simp add: write_ok_def)
  obtain p where p: "pinned k p (patch d (fst b) (bytes_of content b)) X w'"
    "mp_length p = int (length content)" "mp_size p = mp_size (pieces w ! k) + int (snd b)"
    using writev_pins [OF o res ok r n] acc len unfolding d_def by auto
  have ld: "length d = nat (piece_length w)" using length_piece_data [OF w(1) k] by (auto simp: d_def)
  then have fits: "fst b + length (bytes_of content b) \<le> length d" "length content \<le> length d"
    using in_piece(1) plen acc(2) by auto
  have "patch d (fst b) (bytes_of content b) ! x = (if x \<in> block_range b then content ! x else d ! x)"
    if "x < length content" for x
    using nth_patch [OF fits(1), of x] that fits(2) acc(2) by (auto simp: block_range_def bytes_of_def)
  then show ?thesis
    using p in_piece(1) by (intro exI [of _ p] exI conjI [OF p(1)]) (auto simp: block_range_def)
qed

lemma block_assembled:
  assumes t: "tiles B (length content)" and inv: "assembled X k B content (written, w)"
    and b: "b \<in> B" "b \<notin> written"
    and bufs: "bufs \<noteq> []" "list_all iov_ok bufs" "gathered bufs = bytes_of content b"
    and r: "writev X bufs (int k) (int (fst b)) w = Some (Inr (n, w'))"
  shows "assembled X k B content (insert b written, w')"
proof -
  obtain p d where p: "written \<subseteq> B" "pinned k p d X w" "mp_length p = int (length content)"
    "mp_size p = int (sum snd written)" "\<And>b x. b \<in> written \<Longrightarrow> x \<in> block_range b \<Longrightarrow> d ! x = content ! x"
    using inv by (auto simp: assembled_def)
  have "finite written" using t p(1) by (auto simp: tiles_def intro: finite_subset)
  then have total: "sum snd (insert b written) = snd b + sum snd written" using b(2) by simp
  have "sum snd (insert b written) \<le> length content" using blocks_total(2) [OF t] b(1) p(1) by blast
  then have room: "mp_size p + int (snd b) \<le> int (length content)" unfolding p(4) total by linarith
  obtain j where j: "k < length (pieces w)" "pieces w ! k = p" "is_buffered p"
    by (rule pinned_facts [OF p(2)])
  have o: "orderly X w" "k \<in> reserved_set X w" "piece_data w k = d"
    using p(2) j by (auto simp: pinned_def cached_Some)
  obtain p' d' where p': "pinned k p' d' X w'" "mp_length p' = int (length content)"
    "mp_size p' = mp_size p + int (snd b)" "\<forall>x\<in>block_range b. d' ! x = content ! x"
    "\<forall>x. x < length content \<longrightarrow> x \<notin> block_range b \<longrightarrow> d' ! x = d ! x"
    using block_written [OF t b(1) o(1,2) _ _ bufs r] p(3) room j o(3) by auto
  have "d' ! x = content ! x" if a: "a \<in> insert b written" "x \<in> block_range a" for a x
  proof (cases "a = b")
    case True
    then show ?thesis using a(2) p'(4) by simp
  next
    case False
    then have "a \<in> B" using a(1) p(1) by blast
    then have "x \<notin> block_range b" "x < length content"
      using tiles_apart [OF t _ b(1) False a(2)] tiles_within(1) [OF t \<open>a \<in> B\<close>] a(2)
      by (blast, simp add: block_range_def)
    then show ?thesis using p'(5) p(5) [of a x] a False by simp
  qed
  moreover have "mp_size p' = int (sum snd (insert b written))"
    unfolding total of_nat_add p'(3) p(4) by (rule add.commute)
  moreover have "insert b written \<subseteq> B" using b(1) p(1) by blast
  ultimately show ?thesis using p'(1,2) unfolding assembled_def prod.case by blast
qed

lemma deliver_assembled:
  assumes t: "tiles B (length content)" and inv: "assembled X k B content c"
    and g: "proper X k B content e c" and r: "deliver X k e c = Some (Inr c')"
  shows "assembled X k B content c'"
proof -
  obtain written w where c: "c = (written, w)" by (cases c)
  show ?thesis
  proof (cases e)
    case (Meanwhile call)
    then obtain w' where w': "exec X call w = Some (Inr w')" "c' = (written, w')"
      using r c by (auto simp: bindE_eq_Inr)
    have "pinned k p d X w \<Longrightarrow> pinned k p d X w'" for p d
      using exec_pinned [OF _ _ w'(1)] g c Meanwhile by simp
    then show ?thesis using inv c unfolding assembled_def w'(2) by (simp only: prod.case) blast
  next
    case (Block b bufs)
    then obtain n w' where w': "writev X bufs (int k) (int (fst b)) w = Some (Inr (n, w'))"
      "c' = (insert b written, w')"
      using r c by (auto simp: bindE_eq_Inr)
    then show ?thesis using block_assembled [OF t inv [unfolded c] _ _ _ _ _ w'(1)] g c Block by simp
  qed
qed

text \<open>When every block is in, the piece reads as the content.\<close>

lemma assembled_read:
  assumes t: "tiles B (length content)" and inv: "assembled X k B content (B, w)"
    and range: "0 \<le> from" "0 < sz" "from + sz \<le> int (length content)" "sz \<le> int (length buf)"
  shows "\<exists>w''. read X buf sz (int k) from w =
    Inr (sz, patch buf 0 (take (nat sz) (drop (nat from) content)), w'')"
proof -
  obtain p d where p: "pinned k p d X w" "mp_length p = int (length content)"
    "mp_size p = int (length content)" "\<And>b x. b \<in> B \<Longrightarrow> x \<in> block_range b \<Longrightarrow> d ! x = content ! x"
    using inv unfolding assembled_def prod.case all_blocks_total [OF t] by blast
  obtain j where j: "k < length (pieces w)" "pieces w ! k = p" "is_buffered p" "safe X w" "wf X w"
    "mp_length p \<le> int (length d)"
    by (rule pinned_facts [OF p(1)])
  have d: "piece_data w k = d" using p(1) by (auto simp: pinned_def cached_Some)
  then have ld: "int (length d) = piece_length w" using length_piece_data [OF j(5,1)] j(2,3) by simp
  have "d ! x = content ! x" if "x < length content" for x
  proof -
    have "x \<in> (\<Union>b\<in>B. block_range b)" using that t by (simp add: tiles_def)
    then show ?thesis using p(4) by blast
  qed
  then have prefix: "take (length content) d = content"
    using j(6) p(2) by (intro nth_equalityI) auto
  have "take (nat sz) (drop (nat from) d) = take (nat sz) (drop (nat from) (take (length content) d))"
    using range by (simp add: drop_take min_def) linarith
  then have "take (nat sz) (drop (nat from) d) = take (nat sz) (drop (nat from) content)"
    unfolding prefix .
  moreover have "read X buf sz (int k) from w =
      Inr (sz, patch buf 0 (take (nat sz) (drop (nat from) (piece_data w k))), touched k (w\<lparr>is_reading := True\<rparr>))"
    using read_complete [OF j(4,1), of "from" sz buf] j p range ld by auto
  ultimately show ?thesis using d by auto
qed

interpretation delivery: keeps_invariant
    "\<lambda>c. tiles B (length content) \<and> assembled X k B content c" "proper X k B content" "deliver X k"
  for X k B content
  by unfold_locales (blast intro: deliver_assembled)

text \<open>C4 Blocks make a piece. A reserved piece that is not in the cache is written block by block,
  in any order, each block once, with any calls in between that leave it alone. Once the first
  block was accepted and all are in, a read of any range of the piece returns the requested size
  and exactly the bytes of that range, whichever order the blocks came in.\<close>

theorem blocks_make_piece:
  assumes o: "orderly X w" and k: "k \<in> reserved_set X w" "\<not> is_buffered (pieces w ! k)"
    and piece: "tiles B (length content)" "mp_length (pieces w ! k) = int (length content)"
    and first: "proper X k B content (Block b bufs) ({}, w)"
      "writev X bufs (int k) (int (fst b)) w = Some (Inr (n, w1))" "0 < n"
    and run: "calls_to (proper X k B content) (deliver X k) ({b}, w1) (B, w')"
    and range: "0 \<le> from" "0 < sz" "from + sz \<le> int (length content)" "sz \<le> int (length buf)"
  shows "\<exists>w''. read X buf sz (int k) from w' =
    Inr (sz, patch buf 0 (take (nat sz) (drop (nat from) content)), w'')"
proof -
  note w = orderlyD [OF o]
  have b: "b \<in> B" "bufs \<noteq> []" "list_all iov_ok bufs" "gathered bufs = bytes_of content b"
    using first(1) by simp_all
  have len: "k < length (pieces w)" using k(1) by (simp add: reserved_set_def)
  have zero: "mp_size (pieces w ! k) = 0"
    using wf_piece [OF w(1) len] k(2) by (simp add: piece_ok_def is_buffered_def)
  have "mp_size (pieces w ! k) + int (snd b) \<le> int (length content)"
    using tiles_within(1) [OF piece(1) b(1)] zero by simp
  from block_written [OF piece(1) b(1) o k(1) piece(2) this b(2-4) first(2)] first(3)
  obtain p d where "pinned k p d X w1" "mp_length p = int (length content)" "mp_size p = int (snd b)"
    "\<forall>x\<in>block_range b. d ! x = content ! x"
    using zero by auto
  then have "assembled X k B content ({b}, w1)"
    using b(1) unfolding assembled_def prod.case by (intro conjI exI [of _ p] exI [of _ d]) simp_all
  then have "assembled X k B content (B, w')"
    using delivery.kept_by_runs [OF run] piece(1) by blast
  then show ?thesis using assembled_read [OF piece(1)] range by blast
qed

section \<open>A run\<close>

text \<open>The second half of the piece comes first, logging is switched on, then the first half comes.\<close>

lemma demo_delivery:
  "case writev demo_ext [iov [3, 4]] 1 2 (demo_base [1]) of
     Some (Inr (n, w)) \<Rightarrow> n = 2 \<and>
       (case writev demo_ext [iov [1], iov [2]] 1 0 (enable_logging w) of
          Some (Inr (m, v)) \<Rightarrow> m = 2
        | _ \<Rightarrow> False)
   | _ \<Rightarrow> False"
  by code_simp

lemma demo_tiles: "tiles {(2, 2), (0, 2)} (length [1, 2, 3, 4 :: byte])"
  by (auto simp: tiles_def block_range_def)

lemma blocks_make_piece_witness:
  "\<exists>w v v'. writev demo_ext [iov [3, 4]] 1 2 (demo_base [1]) = Some (Inr (2, w)) \<and>
     writev demo_ext [iov [1], iov [2]] 1 0 (enable_logging w) = Some (Inr (2, v)) \<and>
     read demo_ext [0, 0, 0] 3 1 1 v = Inr (3, [2, 3, 4], v')"
proof -
  let ?B = "{(2, 2), (0, 2)} :: block set" and ?c = "[1, 2, 3, 4] :: byte list"
  obtain r where "writev demo_ext [iov [3, 4]] 1 2 (demo_base [1]) = Some (Inr r)"
    using demo_delivery by (auto split: option.splits sum.splits)
  moreover obtain n w where "r = (n, w)" by (cases r)
  ultimately have w: "writev demo_ext [iov [3, 4]] (int 1) (int 2) (demo_base [1]) = Some (Inr (2, w))"
    and half: "case writev demo_ext [iov [1], iov [2]] 1 0 (enable_logging w) of
      Some (Inr (m, v)) \<Rightarrow> m = 2 | _ \<Rightarrow> False"
    using demo_delivery by simp_all
  obtain v where v: "writev demo_ext [iov [1], iov [2]] (int 1) (int 0) (enable_logging w) = Some (Inr (2, v))"
    using half by (auto split: option.splits sum.splits)
  have "calls_to (proper demo_ext 1 ?B ?c) (deliver demo_ext 1) ({(2, 2)}, w) ({(2, 2)}, enable_logging w)"
    by (rule calls_to.one_more [OF calls_to.no_call, of _ "Meanwhile Enable_logging"]) simp_all
  then have run: "calls_to (proper demo_ext 1 ?B ?c) (deliver demo_ext 1) ({(2, 2)}, w) (?B, v)"
    by (rule calls_to.one_more [of _ _ _ _ "Block (0, 2) [iov [1], iov [2]]"])
      (use v in \<open>simp_all add: iov_ok_iov bytes_of_def insert_commute\<close>)
  have base: "1 \<in> reserved_set demo_ext (demo_base [1])" "\<not> is_buffered (pieces (demo_base [1]) ! 1)"
    "mp_length (pieces (demo_base [1]) ! 1) = int (length ?c)"
    by (simp_all add: reserved_set_def demo_base_def demo_defs is_buffered_def)
  have first: "proper demo_ext 1 ?B ?c (Block (2, 2) [iov [3, 4]]) ({}, demo_base [1])"
    by (simp add: iov_ok_iov bytes_of_def)
  have "writev demo_ext [iov [3, 4]] (int 1) (int (fst (2, 2))) (demo_base [1]) = Some (Inr (2, w))"
    using w by simp
  note made = blocks_make_piece [OF demo_base_orderly base(1,2) demo_tiles base(3) first this _ run, of 1 3 "[0, 0, 0]"]
  have "\<exists>v'. read demo_ext [0, 0, 0] 3 (int 1) 1 v =
      Inr (3, patch [0, 0, 0] 0 (take (nat 3) (drop (nat 1) ?c)), v')"
    using made by simp
  then show ?thesis using w v by (auto simp: patch_def)
qed

end
