(* ===== verification/Crowd.thy ===== *)
theory Crowd
  imports Assembly
begin

text \<open>
  The blocks of one piece written at once. Every block has a thread of its own that runs
  \<open>writev\<close> step by step; in between other threads make calls that leave the piece alone. The
  bytes of the blocks do not get in each other's way. The size of the piece does: \<open>size += n\<close>
  is a read and a write of shared memory with no lock around them.
\<close>

section \<open>Threads, one for each block\<close>

type_synonym ('b, 't) crowd = "(block \<Rightarrow> write_pc) \<times> ('b, 't) world"

datatype 't crowd_turn = Turn block | Aside "'t call"

fun crowd_move ::
  "('b, 't) ext \<Rightarrow> nat \<Rightarrow> (block \<Rightarrow> iovec_t list) \<Rightarrow> 't crowd_turn \<Rightarrow> ('b, 't) crowd
    \<Rightarrow> (ub + ('b, 't) crowd) option" where
  "crowd_move X k arr (Turn b) (pcs, w) =
     map_option (\<lambda>r. bindE r (\<lambda>(pc, w). Inr (pcs(b := pc), w)))
       (write_step X (arr b) (int k) (int (fst b)) (pcs b) w)"
| "crowd_move X k arr (Aside c) (pcs, w) =
     map_option (\<lambda>r. bindE r (\<lambda>w. Inr (pcs, w))) (exec X c w)"

fun crowd_guard :: "('b, 't) ext \<Rightarrow> nat \<Rightarrow> block set \<Rightarrow> 't crowd_turn \<Rightarrow> ('b, 't) crowd \<Rightarrow> bool" where
  "crowd_guard X k B (Turn b) c = (b \<in> B)"
| "crowd_guard X k B (Aside call) (pcs, w) = leaves_alone k X call w"

text \<open>Each array holds the bytes of its block.\<close>

definition carries :: "block set \<Rightarrow> byte list \<Rightarrow> (block \<Rightarrow> iovec_t list) \<Rightarrow> bool" where
  "carries B content arr \<longleftrightarrow>
     (\<forall>b\<in>B. arr b \<noteq> [] \<and> list_all iov_ok (arr b) \<and> gathered (arr b) = bytes_of content b)"

text \<open>A thread is counting between its read of the size and its write, and has counted after.\<close>

fun counting :: "write_pc \<Rightarrow> bool" where
  "counting (Put_size n sz) = True"
| "counting _ = False"

fun has_counted :: "write_pc \<Rightarrow> bool" where
  "has_counted (Stamp n) = True"
| "has_counted (Check n) = True"
| "has_counted (Shrink n) = True"
| "has_counted (Written n) = True"
| "has_counted _ = False"

definition counted :: "block set \<Rightarrow> (block \<Rightarrow> write_pc) \<Rightarrow> block set" where
  "counted B pcs = {b \<in> B. has_counted (pcs b)}"

section \<open>The bytes\<close>

definition placed :: "byte list \<Rightarrow> byte list \<Rightarrow> nat \<Rightarrow> nat \<Rightarrow> bool" where
  "placed content d i n \<longleftrightarrow> (\<forall>x. i \<le> x \<longrightarrow> x < i + n \<longrightarrow> d ! x = content ! x)"

fun block_at :: "byte list \<Rightarrow> iovec_t list \<Rightarrow> block \<Rightarrow> byte list \<Rightarrow> write_pc \<Rightarrow> bool" where
  "block_at content bufs b d Obtain = True"
| "block_at content bufs b d (Store vs fo n) =
     (\<exists>past. bufs = past @ vs \<and> n = int (length (gathered past)) \<and> fo = int (fst b) + n \<and>
       placed content d (fst b) (length (gathered past)))"
| "block_at content bufs b d (Grow n) = (n = int (snd b) \<and> placed content d (fst b) (snd b))"
| "block_at content bufs b d (Put_size n sz) = (n = int (snd b) \<and> placed content d (fst b) (snd b))"
| "block_at content bufs b d (Stamp n) = (n = int (snd b) \<and> placed content d (fst b) (snd b))"
| "block_at content bufs b d (Check n) = (n = int (snd b) \<and> placed content d (fst b) (snd b))"
| "block_at content bufs b d (Shrink n) = (n = int (snd b) \<and> placed content d (fst b) (snd b))"
| "block_at content bufs b d (Written n) = (n = int (snd b) \<and> placed content d (fst b) (snd b))"

lemma placed_mono: "placed content d i n \<Longrightarrow> m \<le> n \<Longrightarrow> placed content d i m"
  by (simp add: placed_def)

lemma placed_agree:
  "placed content d (fst b) n \<Longrightarrow> n \<le> snd b \<Longrightarrow> \<forall>x\<in>block_range b. d' ! x = d ! x \<Longrightarrow> placed content d' (fst b) n"
  by (auto simp: placed_def block_range_def)

lemma block_at_agree:
  assumes "block_at content bufs b d pc" "length (gathered bufs) = snd b"
    and "\<forall>x\<in>block_range b. d' ! x = d ! x"
  shows "block_at content bufs b d' pc"
proof (cases pc)
  case (Store vs fo n)
  then obtain past where past: "bufs = past @ vs" "n = int (length (gathered past))" "fo = int (fst b) + n"
    "placed content d (fst b) (length (gathered past))" using assms(1) by auto
  have "length (gathered past) \<le> snd b" using past(1) assms(2) by (simp add: gathered_def)
  then show ?thesis using Store past placed_agree [OF past(4) _ assms(3)] by auto
qed (use assms placed_agree [of content d b "snd b" d'] in auto)

text \<open>The next entry of a block goes where it belongs and touches no other block.\<close>

lemma entry_placed:
  assumes b: "fst b + snd b \<le> length content" "length content \<le> length d"
    and g: "gathered (past @ v # vs) = bytes_of content b"
    and p: "placed content d (fst b) (length (gathered past))"
  defines "m \<equiv> length (gathered past)"
  defines "d' \<equiv> patch d (fst b + m) (iov_base v)"
  shows "m + length (iov_base v) \<le> snd b" "length d' = length d"
    and "placed content d' (fst b) (m + length (iov_base v))"
    and "\<forall>x. x < length d \<longrightarrow> x \<notin> block_range b \<longrightarrow> d' ! x = d ! x"
proof -
  have g': "gathered past @ iov_base v @ gathered vs = bytes_of content b"
    using g by (simp add: gathered_def)
  have "length (bytes_of content b) = snd b" using b(1) by (simp add: bytes_of_def)
  then show fit: "m + length (iov_base v) \<le> snd b"
    unfolding m_def using arg_cong [OF g', of length] by simp
  then have room: "fst b + m + length (iov_base v) \<le> length d" using b by simp
  then show "length d' = length d" unfolding d'_def by (rule length_patch)
  have nth: "d' ! x = (if fst b + m \<le> x \<and> x < fst b + m + length (iov_base v)
      then iov_base v ! (x - (fst b + m)) else d ! x)" if "x < length d" for x
    unfolding d'_def by (rule nth_patch [OF room that])
  show "\<forall>x. x < length d \<longrightarrow> x \<notin> block_range b \<longrightarrow> d' ! x = d ! x"
    using nth fit by (auto simp: block_range_def)
  show "placed content d' (fst b) (m + length (iov_base v))"
    unfolding placed_def
  proof (intro allI impI)
    fix x assume x: "fst b \<le> x" "x < fst b + (m + length (iov_base v))"
    then have "x < length d" using room by simp
    note n = nth [OF this]
    show "d' ! x = content ! x"
    proof (cases "x < fst b + m")
      case True
      then show ?thesis using n p x(1) unfolding placed_def m_def by simp
    next
      case False
      then obtain i where i: "x = fst b + m + i" "i < length (iov_base v)"
        using x(2) by (metis add.assoc le_Suc_ex linorder_not_less nat_add_left_cancel_less)
      have "iov_base v ! (x - (fst b + m)) = (gathered past @ iov_base v @ gathered vs) ! (x - fst b)"
        unfolding i(1) using i(2) by (simp add: nth_append m_def)
      also have "\<dots> = content ! x" unfolding g' using x fit b(1) by (simp add: bytes_of_def)
      finally show ?thesis using n False x by simp
    qed
  qed
qed

section \<open>The steps that do not count\<close>

lemma entry_step_at:
  assumes fit: "fst b + snd b \<le> length content" and ok: "list_all iov_ok bufs" and bufs: "bufs = past @ v # ws"
    and g: "gathered (past @ v # ws) = bytes_of content b"
    and pin: "pinned k p d X w" and len: "mp_length p = int (length content)"
    and at: "placed content d (fst b) (length (gathered past))"
    and mv: "write_step X bufs (int k) (int (fst b)) (Store (v # ws)
      (int (fst b) + int (length (gathered past))) (int (length (gathered past)))) w = Some r"
  shows "\<exists>fo n w' d'. r = Inr (Store ws fo n, w') \<and> pinned k p d' X w' \<and>
    block_at content bufs b d' (Store ws fo n) \<and>
    (\<forall>x. x < length content \<longrightarrow> x \<notin> block_range b \<longrightarrow> d' ! x = d ! x)"
proof -
  let ?m = "length (gathered past)"
  let ?d = "patch d (fst b + ?m) (iov_base v)"
  let ?fo = "int (fst b) + int ?m + int (length (iov_base v))"
  let ?n = "int ?m + int (length (iov_base v))"
  obtain j where j: "mp_length p \<le> int (length d)" "int (length d) \<le> INT_MAX"
    by (rule pinned_facts [OF pin])
  have room: "length content \<le> length d" using j(1) len by simp
  note e = entry_placed [OF fit room g at]
  have v: "iov_ok v" using ok bufs by simp
  have fo: "0 \<le> int (fst b) + int ?m" "int (fst b) + int ?m \<le> mp_length p"
    "nat (int (fst b) + int ?m) = fst b + ?m" using e(1) fit len by auto
  have all: "take (nat (mp_length p - (int (fst b) + int ?m))) (iov_base v) = iov_base v"
    using e(1) fit len by simp
  from store_entry_at [OF pin v fo(1,2)] obtain w' where
    w': "store_entry (int k) v (int (fst b) + int ?m) w = Inr (int (length (iov_base v)), w')"
      "pinned k p ?d X w'" unfolding all fo(3) by blast
  have "i32 ?fo = Inr ?fo" "i32 ?n = Inr ?n"
    using e(1) fit room j(2) by (intro i32_nonneg; linarith)+
  then have "r = Inr (Store ws ?fo ?n, w')" using mv w'(1) by simp
  moreover have "gathered (past @ [v]) = gathered past @ iov_base v" by (simp add: gathered_def)
  then have "block_at content bufs b ?d (Store ws ?fo ?n)"
    using bufs e(3) by (auto intro!: exI [of _ "past @ [v]"])
  moreover have "\<forall>x. x < length content \<longrightarrow> x \<notin> block_range b \<longrightarrow> ?d ! x = d ! x" using e(4) room by simp
  ultimately show ?thesis using w'(2) by blast
qed

lemma quiet_step_at:
  assumes t: "tiles B (length content)" and b: "b \<in> B" and c: "carries B content arr"
    and pin: "pinned k p d X w" and len: "mp_length p = int (length content)"
    and at: "block_at content (arr b) b d pc" and quiet: "\<not> counting pc" "\<nexists>n. pc = Grow n"
    and mv: "write_step X (arr b) (int k) (int (fst b)) pc w = Some r"
  shows "\<exists>pc' w' d'. r = Inr (pc', w') \<and> pinned k p d' X w' \<and> block_at content (arr b) b d' pc' \<and>
    (\<forall>x. x < length content \<longrightarrow> x \<notin> block_range b \<longrightarrow> d' ! x = d ! x) \<and>
    \<not> counting pc' \<and> has_counted pc' = has_counted pc"
proof -
  note fit = tiles_within [OF t b]
  have arr: "arr b \<noteq> []" "list_all iov_ok (arr b)" "gathered (arr b) = bytes_of content b"
    using c b by (auto simp: carries_def)
  have snd: "length (gathered (arr b)) = snd b" using fit(1) arr(3) by (simp add: bytes_of_def)
  obtain j where j: "k < length (pieces w)" "pieces w ! k = p" "is_buffered p" "wf X w"
    "mp_length p \<le> int (length d)" "int (length d) \<le> INT_MAX"
    by (rule pinned_facts [OF pin])
  show ?thesis
  proof (cases pc)
    case Obtain
    then have "r = Inr (Store (arr b) (int (fst b)) 0, w)"
      using mv wf_shape(1) [OF j(4)] j by (simp add: get_write_buffer_def get_buffer_def)
    then show ?thesis using pin Obtain by (auto simp: placed_def)
  next
    case (Store vs fo n)
    then obtain past where past: "arr b = past @ vs" "n = int (length (gathered past))" "fo = int (fst b) + n"
      "placed content d (fst b) (length (gathered past))" using at by auto
    show ?thesis
    proof (cases vs)
      case Nil
      have "log_first_iov (arr b) w = Inr ()" using arr(1) by (cases "arr b") (simp_all add: log_first_iov_def)
      then show ?thesis using Nil mv Store past pin snd by auto
    next
      case (Cons v ws)
      note mv' = mv [unfolded Store Cons past(2,3)] and p' = past(1) [unfolded Cons]
      from entry_step_at [OF fit(1) arr(2) p' arr(3) [unfolded p'] pin len past(4) mv']
      obtain fo' n' w' d' where d': "r = Inr (Store ws fo' n', w')" "pinned k p d' X w'"
        "block_at content (arr b) b d' (Store ws fo' n')"
        "\<forall>x. x < length content \<longrightarrow> x \<notin> block_range b \<longrightarrow> d' ! x = d ! x" by blast
      show ?thesis
        unfolding d'(1) Store using d'(2-4)
        by (intro exI [of _ "Store ws fo' n'"] exI [of _ w'] exI [of _ d']) simp
    qed
  next
    case (Stamp n)
    then show ?thesis using mv at pinned_touched [OF pin] by auto
  next
    case (Shrink n)
    then obtain t where t: "trim X (int k) w = Some t" "r = bindE t (\<lambda>w. Inr (Written n, w))" using mv by auto
    then show ?thesis using shrink_step_at [OF pin t(1)] at Shrink by auto
  qed (use at mv pin quiet in auto)
qed

section \<open>What the size has counted\<close>

text \<open>
  At any time the size of the piece is the sum over some set \<open>S\<close> of blocks that have counted, and
  a thread that is counting is about to write the sum over its own block and a set \<open>T\<close> it has
  read. How those sets relate to the blocks that have counted depends on how the threads
  interleave: the contract of such a relation is that reading, writing and the other steps keep
  it under the guard.
\<close>

locale tally =
  fixes B :: "block set" and guard :: "'t crowd_turn \<Rightarrow> ('b, 't) crowd \<Rightarrow> bool"
    and law :: "(block \<Rightarrow> write_pc) \<Rightarrow> block set \<Rightarrow> (block \<Rightarrow> block set) \<Rightarrow> bool"
  assumes loads: "law pcs S T \<Longrightarrow> guard (Turn b) (pcs, w) \<Longrightarrow> b \<in> B \<Longrightarrow> pcs b = Grow n \<Longrightarrow>
      S \<subseteq> counted B pcs \<Longrightarrow> law (pcs(b := Put_size n sz)) S (T(b := S))"
    and stores: "law pcs S T \<Longrightarrow> b \<in> B \<Longrightarrow> pcs b = Put_size n sz \<Longrightarrow> T b \<subseteq> counted B pcs \<Longrightarrow>
      law (pcs(b := Stamp n)) (insert b (T b)) T"
    and moves: "law pcs S T \<Longrightarrow> b \<in> B \<Longrightarrow> \<not> counting (pcs b) \<Longrightarrow> \<not> counting pc \<Longrightarrow>
      has_counted pc = has_counted (pcs b) \<Longrightarrow> law (pcs(b := pc)) S T"

definition tallied ::
  "block set \<Rightarrow> (block \<Rightarrow> write_pc) \<Rightarrow> int \<Rightarrow> block set \<Rightarrow> (block \<Rightarrow> block set) \<Rightarrow> bool" where
  "tallied B pcs sz S T \<longleftrightarrow> sz = int (sum snd S) \<and> S \<subseteq> counted B pcs \<and>
     (\<forall>b\<in>B. \<forall>n m. pcs b = Put_size n m \<longrightarrow> m = int (sum snd (insert b (T b))) \<and> T b \<subseteq> counted B pcs)"

definition crowd_ok ::
  "((block \<Rightarrow> write_pc) \<Rightarrow> block set \<Rightarrow> (block \<Rightarrow> block set) \<Rightarrow> bool) \<Rightarrow> ('b, 't) ext \<Rightarrow> nat \<Rightarrow>
   block set \<Rightarrow> byte list \<Rightarrow> (block \<Rightarrow> iovec_t list) \<Rightarrow> ('b, 't) crowd \<Rightarrow> bool" where
  "crowd_ok law X k B content arr c \<longleftrightarrow>
     (\<exists>p d S T. pinned k p d X (snd c) \<and> mp_length p = int (length content) \<and>
        (\<forall>b\<in>B. block_at content (arr b) b d (fst c b)) \<and>
        tallied B (fst c) (mp_size p) S T \<and> law (fst c) S T)"

lemma counted_same: "has_counted pc = has_counted (pcs b) \<Longrightarrow> counted B (pcs(b := pc)) = counted B pcs"
  by (auto simp: counted_def)

lemma counted_more: "b \<in> B \<Longrightarrow> has_counted pc \<Longrightarrow> counted B (pcs(b := pc)) = insert b (counted B pcs)"
  by (auto simp: counted_def)

lemma counting_not_counted: "counting (pcs b) \<Longrightarrow> b \<notin> counted B pcs"
  by (cases "pcs b") (simp_all add: counted_def)

lemma talliedI:
  assumes "sz = int (sum snd S)" "S \<subseteq> counted B pcs"
    and "\<And>b n m. b \<in> B \<Longrightarrow> pcs b = Put_size n m \<Longrightarrow> m = int (sum snd (insert b (T b))) \<and> T b \<subseteq> counted B pcs"
  shows "tallied B pcs sz S T"
  using assms unfolding tallied_def by blast

lemma talliedD:
  assumes "tallied B pcs sz S T"
  shows "sz = int (sum snd S)" "S \<subseteq> counted B pcs"
    "b \<in> B \<Longrightarrow> pcs b = Put_size n m \<Longrightarrow> m = int (sum snd (insert b (T b)))"
    "b \<in> B \<Longrightarrow> pcs b = Put_size n m \<Longrightarrow> T b \<subseteq> counted B pcs"
  using assms unfolding tallied_def by blast+

lemma tallied_moves:
  assumes t: "tallied B pcs sz S T" and pc: "\<not> counting pc" "has_counted pc = has_counted (pcs b)"
  shows "tallied B (pcs(b := pc)) sz S T"
  using talliedD [OF t] pc(1) unfolding counted_same [of pc pcs b B, OF pc(2), symmetric]
  by (intro talliedI) (auto split: if_splits)

lemma tallied_loads:
  assumes t: "tallied B pcs sz S T" and b: "pcs b = Grow n" "m = int (sum snd (insert b S))"
  shows "tallied B (pcs(b := Put_size n m)) sz S (T(b := S))"
proof -
  have "counted B (pcs(b := Put_size n m)) = counted B pcs" using b(1) by (intro counted_same) simp
  then show ?thesis using talliedD [OF t] b(2) by (intro talliedI) (auto split: if_splits)
qed

lemma tallied_stores:
  assumes t: "tallied B pcs sz S T" and b: "b \<in> B" "pcs b = Put_size n m"
  shows "tallied B (pcs(b := Stamp n)) m (insert b (T b)) T" "T b \<subseteq> counted B pcs"
proof -
  show T: "T b \<subseteq> counted B pcs" by (rule talliedD(4) [OF t b])
  have more: "counted B (pcs(b := Stamp n)) = insert b (counted B pcs)" using b(1) by (intro counted_more) simp_all
  show "tallied B (pcs(b := Stamp n)) m (insert b (T b)) T"
  proof (rule talliedI)
    show "m = int (sum snd (insert b (T b)))" by (rule talliedD(3) [OF t b])
    show "insert b (T b) \<subseteq> counted B (pcs(b := Stamp n))" unfolding more using T by blast
    fix a i l assume a: "a \<in> B" "(pcs(b := Stamp n)) a = Put_size i l"
    then have "pcs a = Put_size i l" by (simp split: if_splits)
    from talliedD(3,4) [OF t a(1) this]
    show "l = int (sum snd (insert a (T a))) \<and> T a \<subseteq> counted B (pcs(b := Stamp n))"
      unfolding more by blast
  qed
qed

text \<open>The sums stay inside the piece.\<close>

lemma tallied_bounds:
  assumes t: "tiles B (length content)" and S: "S \<subseteq> counted B pcs" and b: "b \<in> B" "\<not> has_counted (pcs b)"
  shows "sum snd (insert b S) = snd b + sum snd S" "sum snd (insert b S) \<le> length content"
proof -
  have B: "S \<subseteq> B" "b \<notin> S" using S b by (auto simp: counted_def)
  have "finite S" using t B(1) by (auto simp: tiles_def intro: finite_subset)
  then show "sum snd (insert b S) = snd b + sum snd S" using B(2) by simp
  show "sum snd (insert b S) \<le> length content" using blocks_total(2) [OF t, of "insert b S"] B(1) b(1) by simp
qed

lemma others_stay:
  assumes t: "tiles B (length content)" and b: "b \<in> B" and c: "carries B content arr"
    and at: "\<forall>b\<in>B. block_at content (arr b) b d (pcs b)" "block_at content (arr b) b d' pc"
    and d': "\<forall>x. x < length content \<longrightarrow> x \<notin> block_range b \<longrightarrow> d' ! x = d ! x"
  shows "\<forall>a\<in>B. block_at content (arr a) a d' ((pcs(b := pc)) a)"
proof
  fix a assume a: "a \<in> B"
  show "block_at content (arr a) a d' ((pcs(b := pc)) a)"
  proof (cases "a = b")
    case False
    have "gathered (arr a) = bytes_of content a" using c a by (simp add: carries_def)
    then have "length (gathered (arr a)) = snd a" using tiles_within(1) [OF t a] by (simp add: bytes_of_def)
    moreover have "\<forall>x\<in>block_range a. d' ! x = d ! x"
      using d' tiles_apart [OF t a b False] tiles_within(1) [OF t a] by (simp add: block_range_def)
    ultimately show ?thesis using at(1) a False block_at_agree [of content "arr a" a d "pcs a" d'] by simp
  qed (use at(2) in simp)
qed

section \<open>Any step keeps the crowd in order\<close>

lemma crowd_okI:
  assumes "pinned k p d X w" "mp_length p = int (length content)"
    "\<forall>b\<in>B. block_at content (arr b) b d (pcs b)" "tallied B pcs (mp_size p) S T" "law pcs S T"
  shows "crowd_ok law X k B content arr (pcs, w)"
  using assms unfolding crowd_ok_def fst_conv snd_conv by blast

lemma crowd_okE:
  assumes "crowd_ok law X k B content arr (pcs, w)"
  obtains p d S T where "pinned k p d X w" "mp_length p = int (length content)"
    "\<forall>b\<in>B. block_at content (arr b) b d (pcs b)" "tallied B pcs (mp_size p) S T" "law pcs S T"
  using assms unfolding crowd_ok_def fst_conv snd_conv by blast

context tally
begin

lemma load_kept:
  assumes t: "tiles B (length content)" and c: "carries B content arr"
    and p: "pinned k p d X w" "mp_length p = int (length content)"
    and at: "\<forall>b\<in>B. block_at content (arr b) b d (pcs b)"
    and y: "tallied B pcs (mp_size p) S T" "law pcs S T"
    and b: "b \<in> B" and g: "guard (Turn b) (pcs, w)" and load: "pcs b = Grow n"
  shows "\<exists>sz. grown_size (int k) n w = Inr sz \<and> crowd_ok law X k B content arr (pcs(b := Put_size n sz), w)"
proof -
  have n: "n = int (snd b)" "placed content d (fst b) (snd b)" using at b load by force+
  have S: "S \<subseteq> counted B pcs" "mp_size p = int (sum snd S)" using talliedD [OF y(1)] by blast+
  have "\<not> has_counted (pcs b)" using load by simp
  note sums = tallied_bounds [OF t S(1) b this]
  have m: "mp_size p + n = int (sum snd (insert b S))" using S(2) n(1) sums(1) by simp
  have "int (length content) \<le> INT_MAX" by (rule pinned_facts [OF p(1)]) (use p(2) in simp)
  then have "grown_size (int k) n w = Inr (mp_size p + n)"
    using grow_step_at [OF p(1), of n] n(1) m sums(2) by simp
  moreover have "crowd_ok law X k B content arr (pcs(b := Put_size n (mp_size p + n)), w)"
  proof (rule crowd_okI [OF p])
    show "\<forall>a\<in>B. block_at content (arr a) a d ((pcs(b := Put_size n (mp_size p + n))) a)"
      using n by (intro others_stay [OF t b c at]) simp_all
  qed (rule tallied_loads [OF y(1) load m] loads [OF y(2) g b load S(1)])+
  ultimately show ?thesis by blast
qed

lemma store_kept:
  assumes t: "tiles B (length content)" and c: "carries B content arr"
    and p: "pinned k p d X w" "mp_length p = int (length content)"
    and at: "\<forall>b\<in>B. block_at content (arr b) b d (pcs b)"
    and y: "tallied B pcs (mp_size p) S T" "law pcs S T"
    and b: "b \<in> B" and store: "pcs b = Put_size n m"
  shows "\<exists>w'. put_size (int k) m w = Inr w' \<and> crowd_ok law X k B content arr (pcs(b := Stamp n), w')"
proof -
  have n: "n = int (snd b)" "placed content d (fst b) (snd b)" using at b store by force+
  have "0 \<le> m" using talliedD(3) [OF y(1) b store] by (simp del: of_nat_sum)
  from put_step_at [OF p(1) this] obtain w' where
    w': "put_size (int k) m w = Inr w'" "pinned k (p\<lparr>mp_size := m\<rparr>) d X w'" by blast
  note y' = tallied_stores [OF y(1) b store]
  have "crowd_ok law X k B content arr (pcs(b := Stamp n), w')"
  proof (rule crowd_okI [OF w'(2)])
    show "\<forall>a\<in>B. block_at content (arr a) a d ((pcs(b := Stamp n)) a)"
      using n by (intro others_stay [OF t b c at]) simp_all
    show "law (pcs(b := Stamp n)) (insert b (T b)) T" by (rule stores [OF y(2) b store y'(2)])
  qed (use p(2) y'(1) in simp_all)
  then show ?thesis using w'(1) by blast
qed

lemma step_kept:
  assumes t: "tiles B (length content)" and c: "carries B content arr"
    and ok: "crowd_ok law X k B content arr (pcs, w)" and b: "b \<in> B" and g: "guard (Turn b) (pcs, w)"
    and mv: "write_step X (arr b) (int k) (int (fst b)) (pcs b) w = Some r"
  shows "\<exists>pc w'. r = Inr (pc, w') \<and> crowd_ok law X k B content arr (pcs(b := pc), w')"
proof -
  obtain p d S T where p: "pinned k p d X w" "mp_length p = int (length content)"
    and at: "\<forall>b\<in>B. block_at content (arr b) b d (pcs b)"
    and y: "tallied B pcs (mp_size p) S T" "law pcs S T"
    by (rule crowd_okE [OF ok])
  have atb: "block_at content (arr b) b d (pcs b)" using at b by blast
  consider (load) n where "pcs b = Grow n" | (store) n m where "pcs b = Put_size n m"
    | (quiet) "\<not> counting (pcs b)" "\<nexists>n. pcs b = Grow n"
    by (cases "pcs b") auto
  then show ?thesis
  proof cases
    case (load n)
    show ?thesis using load_kept [OF t c p at y b g load] mv load by auto
  next
    case (store n m)
    show ?thesis using store_kept [OF t c p at y b store] mv store by auto
  next
    case quiet
    from quiet_step_at [OF t b c p atb quiet mv] obtain pc' w' d' where
      r: "r = Inr (pc', w')" and p': "pinned k p d' X w'" and at': "block_at content (arr b) b d' pc'"
      and d': "\<forall>x. x < length content \<longrightarrow> x \<notin> block_range b \<longrightarrow> d' ! x = d ! x"
      and pc': "\<not> counting pc'" "has_counted pc' = has_counted (pcs b)" by blast
    have "crowd_ok law X k B content arr (pcs(b := pc'), w')"
      using p' p(2) others_stay [OF t b c at at' d'] tallied_moves [OF y(1) pc'] moves [OF y(2) b quiet(1) pc']
      by (rule crowd_okI)
    then show ?thesis using r by blast
  qed
qed

lemma move_kept:
  assumes t: "tiles B (length content)" and c: "carries B content arr"
    and ok: "crowd_ok law X k B content arr s" and g: "guard e s" "crowd_guard X k B e s"
    and mv: "crowd_move X k arr e s = Some r"
  shows "(\<exists>b. e = Turn b) \<longrightarrow> (\<exists>s'. r = Inr s')" "r = Inr s' \<Longrightarrow> crowd_ok law X k B content arr s'"
proof -
  obtain pcs w where s: "s = (pcs, w)" by (cases s)
  have "((\<exists>b. e = Turn b) \<longrightarrow> (\<exists>s'. r = Inr s')) \<and> (\<forall>s'. r = Inr s' \<longrightarrow> crowd_ok law X k B content arr s')"
  proof (cases e)
    case (Turn b)
    then obtain q where q: "write_step X (arr b) (int k) (int (fst b)) (pcs b) w = Some q"
      "r = bindE q (\<lambda>(pc, w). Inr (pcs(b := pc), w))" using mv s by auto
    have "b \<in> B" using g(2) Turn by simp
    from step_kept [OF t c ok [unfolded s] this _ q(1)] show ?thesis using g(1) q(2) Turn s by auto
  next
    case (Aside call)
    obtain p d S T where p: "pinned k p d X w" "mp_length p = int (length content)"
      "\<forall>b\<in>B. block_at content (arr b) b d (pcs b)" "tallied B pcs (mp_size p) S T" "law pcs S T"
      by (rule crowd_okE [OF ok [unfolded s]])
    have "crowd_ok law X k B content arr s'" if h: "r = Inr s'" for s'
    proof -
      obtain w' where w': "exec X call w = Some (Inr w')" "s' = (pcs, w')"
        using mv h Aside s by (auto simp: bindE_eq_Inr)
      have "pinned k p d X w'" using exec_pinned [OF p(1) _ w'(1)] g(2) Aside s by simp
      then show ?thesis unfolding w'(2) using p(2-5) by (rule crowd_okI)
    qed
    then show ?thesis using Aside by blast
  qed
  then show "(\<exists>b. e = Turn b) \<longrightarrow> (\<exists>s'. r = Inr s')" "r = Inr s' \<Longrightarrow> crowd_ok law X k B content arr s'" by blast+
qed

lemma run_kept:
  assumes "tiles B (length content)" "carries B content arr"
    and run: "calls_to (\<lambda>e s. guard e s \<and> crowd_guard X k B e s) (crowd_move X k arr) s s'"
    and ok: "crowd_ok law X k B content arr s"
  shows "crowd_ok law X k B content arr s'"
  using run ok by (induction rule: calls_to.induct) (use move_kept(2) assms(1,2) in blast)+

end

section \<open>Three laws of counting\<close>

text \<open>No law at all; nobody reads the size while another thread is counting; two threads have
  read the size before either wrote it.\<close>

interpretation free_tally: tally B "\<lambda>_ _. True" "\<lambda>_ _ _. True" for B :: "block set"
  by unfold_locales simp_all

fun about_to_count :: "write_pc \<Rightarrow> bool" where
  "about_to_count (Grow n) = True"
| "about_to_count _ = False"

fun one_counts :: "block set \<Rightarrow> 't crowd_turn \<Rightarrow> ('b, 't) crowd \<Rightarrow> bool" where
  "one_counts B (Turn b) (pcs, w) = (about_to_count (pcs b) \<longrightarrow> (\<forall>a\<in>B. \<not> counting (pcs a)))"
| "one_counts B (Aside call) (pcs, w) = True"

definition all_in :: "block set \<Rightarrow> (block \<Rightarrow> write_pc) \<Rightarrow> block set \<Rightarrow> (block \<Rightarrow> block set) \<Rightarrow> bool" where
  "all_in B pcs S T \<longleftrightarrow> S = counted B pcs \<and>
     (\<forall>a\<in>B. counting (pcs a) \<longrightarrow> T a = counted B pcs \<and> (\<forall>b\<in>B. counting (pcs b) \<longrightarrow> a = b))"

interpretation serial_tally: tally B "one_counts B" "all_in B" for B
proof (unfold_locales, goal_cases)
  case (1 pcs S T b w n sz)
  have "counted B (pcs(b := Put_size n sz)) = counted B pcs" using 1(4) by (intro counted_same) simp
  then show ?case using 1 by (auto simp: all_in_def)
next
  case (2 pcs S T b n sz)
  have "counted B (pcs(b := Stamp n)) = insert b (counted B pcs)" using 2(2) by (intro counted_more) simp_all
  then show ?case using 2 unfolding all_in_def by (auto split: if_splits)
next
  case (3 pcs S T b pc)
  then show ?case unfolding all_in_def by (auto simp: counted_same split: if_splits)
qed

definition one_missed ::
  "block \<Rightarrow> block \<Rightarrow> block set \<Rightarrow> (block \<Rightarrow> write_pc) \<Rightarrow> block set \<Rightarrow> (block \<Rightarrow> block set) \<Rightarrow> bool" where
  "one_missed a b B pcs S T \<longleftrightarrow> \<not> {a, b} \<subseteq> S \<and>
     (\<forall>e\<in>B. counting (pcs e) \<longrightarrow> \<not> {a, b} \<subseteq> insert e (T e)) \<and>
     (\<forall>e\<in>{a, b}. counting (pcs e) \<or> has_counted (pcs e))"

interpretation missed_tally: tally B "\<lambda>_ _. True" "one_missed a b B" for a b B
proof (unfold_locales, goal_cases)
  case (1 pcs S T e w n sz)
  then have "e \<noteq> a" "e \<noteq> b" by (auto simp: one_missed_def)
  then show ?case using 1 by (auto simp: one_missed_def)
next
  case (2 pcs S T e n sz)
  then show ?case by (auto simp: one_missed_def)
next
  case (3 pcs S T e pc)
  then show ?case by (auto simp: one_missed_def)
qed

end
