(* ===== verification/Crowd_Properties.thy ===== *)
theory Crowd_Properties
  imports Crowd
begin

text \<open>
  What a crowd of threads that write the blocks of one piece leaves behind: the bytes are always
  right, the size only when the threads count one after the other.
\<close>

section \<open>How it starts and how it ends\<close>

lemma granted_pinned:
  assumes o: "orderly X w" and k: "k \<in> reserved_set X w" and g: "get_buffer X (int k) True w = Inr (True, w1)"
  shows "\<exists>p d. pinned k p d X w1 \<and> mp_length p = mp_length (pieces w ! k) \<and> mp_size p = mp_size (pieces w ! k)"
proof -
  note w = orderlyD [OF o]
  have len: "k < length (pieces w)" using k by (simp add: reserved_set_def)
  note f = admitted_facts [OF w(1) len get_buffer_admitted [OF w(1) len g]]
  have "orderly X w1"
    using w(6) safe_get_buffer [OF w(4) len g] trim_inv_get_buffer [OF w(5) len g] by (simp add: orderly_def)
  then show ?thesis
    using f k by (intro exI [of _ "pieces w1 ! k"] exI [of _ "piece_data w1 k"])
      (simp add: pinned_def cached_Some reserved_set_def)
qed

lemma crowd_starts:
  assumes o: "orderly X w" and k: "k \<in> reserved_set X w" "\<not> is_buffered (pieces w ! k)"
    and len: "mp_length (pieces w ! k) = int (length content)" and b: "b \<in> B"
    and first: "crowd_move X k arr (Turn b) (\<lambda>_. Obtain, w) = Some (Inr (pcs, w1))" "pcs b \<noteq> Written 0"
    and law: "law pcs {} (\<lambda>_. {})"
  shows "crowd_ok law X k B content arr (pcs, w1)"
proof -
  note w = orderlyD [OF o]
  have kl: "k < length (pieces w)" using k(1) by (simp add: reserved_set_def)
  have zero: "mp_size (pieces w ! k) = 0"
    using wf_piece [OF w(1) kl] k(2) by (simp add: piece_ok_def is_buffered_def)
  obtain ok where g: "get_buffer X (int k) True w = Inr (ok, w1)"
    and pcs: "pcs = (\<lambda>_. Obtain)(b := if ok then Store (arr b) (int (fst b)) 0 else Written 0)"
    using first(1) wf_shape(1) [OF w(1)] by (auto simp: bindE_eq_Inr get_write_buffer_def)
  have ok: "ok" using first(2) pcs by (cases ok) auto
  obtain p d where p: "pinned k p d X w1" "mp_length p = int (length content)" "mp_size p = 0"
    using granted_pinned [OF o k(1), of w1] g ok len zero by auto
  show ?thesis
  proof (rule crowd_okI [OF p(1,2)])
    show "\<forall>b\<in>B. block_at content (arr b) b d (pcs b)" unfolding pcs using ok by (simp add: placed_def)
    show "tallied B pcs (mp_size p) {} (\<lambda>_. {})" unfolding pcs p(3) using ok by (intro talliedI) (auto split: if_splits)
  qed (rule law)
qed

lemma crowd_ends:
  assumes t: "tiles B (length content)" and ok: "crowd_ok law X k B content arr (pcs, w)"
    and w: "\<forall>b\<in>B. \<exists>n. pcs b = Written n"
  shows "\<exists>p d S T. pinned k p d X w \<and> mp_length p = int (length content) \<and> mp_size p = int (sum snd S) \<and>
    S \<subseteq> B \<and> take (length content) d = content \<and> law pcs S T \<and> counted B pcs = B \<and>
    (\<forall>b\<in>B. pcs b = Written (int (snd b)))"
proof -
  obtain p d S T where p: "pinned k p d X w" "mp_length p = int (length content)"
    and at: "\<forall>b\<in>B. block_at content (arr b) b d (pcs b)"
    and y: "tallied B pcs (mp_size p) S T" "law pcs S T"
    by (rule crowd_okE [OF ok])
  have over: "pcs b = Written (int (snd b)) \<and> placed content d (fst b) (snd b)" if "b \<in> B" for b
    using at w that by (metis block_at.simps(8))
  have room: "length content \<le> length d" by (rule pinned_facts [OF p(1)]) (use p(2) in simp)
  have "d ! x = content ! x" if "x < length content" for x
  proof -
    have "x \<in> (\<Union>b\<in>B. block_range b)" using that t by (simp add: tiles_def)
    then obtain b where "b \<in> B" "x \<in> block_range b" by blast
    then show ?thesis using over [of b] by (simp add: placed_def block_range_def)
  qed
  then have d: "take (length content) d = content" using room by (intro nth_equalityI) auto
  have all: "counted B pcs = B" using over by (auto simp: counted_def)
  have "\<forall>b\<in>B. pcs b = Written (int (snd b))" using over by blast
  then show ?thesis using p d all y(2) talliedD(1,2) [OF y(1)] unfolding all by blast
qed

section \<open>Two blocks, run\<close>

definition demo_blocks :: "block set" where "demo_blocks = {(2, 2), (0, 2)}"

definition demo_content :: "byte list" where "demo_content = [1, 2, 3, 4]"

definition demo_arr :: "block \<Rightarrow> iovec_t list" where
  "demo_arr b = (if fst b = 0 then [iov [1, 2]] else [iov [3], iov [4]])"

abbreviation "demo_crowd_move \<equiv> crowd_move demo_ext 1 demo_arr"
abbreviation "demo_crowd_guard \<equiv> crowd_guard demo_ext 1 demo_blocks"

text \<open>After the first block has its buffer: both store, each counts in its turn. And: both store,
  both read the size, both write it.\<close>

abbreviation "demo_serial_turns \<equiv>
  [Turn (2, 2), Turn (0, 2), Turn (2, 2), Turn (0, 2), Turn (0, 2), Turn (2, 2), Aside Enable_logging,
   Turn (0, 2), Turn (2, 2), Turn (2, 2), Turn (0, 2), Turn (2, 2), Aside (Trim 2), Turn (0, 2),
   Turn (2, 2), Turn (2, 2)]"

abbreviation "demo_overlap_turns \<equiv>
  [Turn (2, 2), Turn (0, 2), Turn (2, 2), Turn (0, 2), Turn (2, 2), Turn (2, 2), Turn (0, 2), Turn (2, 2)]"

abbreviation "demo_final_turns \<equiv>
  [Turn (0, 2), Turn (2, 2), Turn (0, 2), Turn (2, 2), Turn (0, 2), Turn (2, 2)]"

lemma demo_serial:
  "case demo_crowd_move (Turn (0, 2)) (\<lambda>_. Obtain, demo_base [1]) of
     Some (Inr c) \<Rightarrow> fst c (0, 2) \<noteq> Written 0 \<and>
       (case performed (\<lambda>e s. one_counts demo_blocks e s \<and> demo_crowd_guard e s) demo_crowd_move
          demo_serial_turns c of
          Some c' \<Rightarrow> fst c' (0, 2) = Written 2 \<and> fst c' (2, 2) = Written 2
        | None \<Rightarrow> False)
   | _ \<Rightarrow> False"
  by code_simp

lemma demo_overlap:
  "case demo_crowd_move (Turn (0, 2)) (\<lambda>_. Obtain, demo_base [1]) of
     Some (Inr c) \<Rightarrow> fst c (0, 2) \<noteq> Written 0 \<and>
       (case performed demo_crowd_guard demo_crowd_move demo_overlap_turns c of
          Some c1 \<Rightarrow> counting (fst c1 (0, 2)) \<and> counting (fst c1 (2, 2)) \<and>
            (case performed demo_crowd_guard demo_crowd_move demo_final_turns c1 of
               Some c' \<Rightarrow> fst c' (0, 2) = Written 2 \<and> fst c' (2, 2) = Written 2
             | None \<Rightarrow> False)
        | None \<Rightarrow> False)
   | _ \<Rightarrow> False"
  by code_simp

lemma demo_serial_run:
  obtains pcs w1 pcs' w' where
    "demo_crowd_move (Turn (0, 2)) (\<lambda>_. Obtain, demo_base [1]) = Some (Inr (pcs, w1))" "pcs (0, 2) \<noteq> Written 0"
    "calls_to (\<lambda>e s. one_counts demo_blocks e s \<and> demo_crowd_guard e s) demo_crowd_move (pcs, w1) (pcs', w')"
    "pcs' (0, 2) = Written 2" "pcs' (2, 2) = Written 2"
proof -
  obtain c where c: "demo_crowd_move (Turn (0, 2)) (\<lambda>_. Obtain, demo_base [1]) = Some (Inr c)"
    using demo_serial by (auto split: option.splits sum.splits simp del: crowd_move.simps performed.simps)
  then obtain c' where c': "performed (\<lambda>e s. one_counts demo_blocks e s \<and> demo_crowd_guard e s) demo_crowd_move
      demo_serial_turns c = Some c'"
    using demo_serial by (auto split: option.splits simp del: crowd_move.simps performed.simps)
  have "fst c (0, 2) \<noteq> Written 0" "fst c' (0, 2) = Written 2" "fst c' (2, 2) = Written 2"
    using demo_serial c c' by (simp_all del: crowd_move.simps performed.simps)
  then show thesis
    using that [of "fst c" "snd c" "fst c'" "snd c'"] c performed_calls [OF c' calls_to.no_call] by simp
qed

lemma demo_overlap_run:
  obtains pcs w1 pcs2 w2 pcs' w' where
    "demo_crowd_move (Turn (0, 2)) (\<lambda>_. Obtain, demo_base [1]) = Some (Inr (pcs, w1))" "pcs (0, 2) \<noteq> Written 0"
    "calls_to demo_crowd_guard demo_crowd_move (pcs, w1) (pcs2, w2)"
    "counting (pcs2 (0, 2))" "counting (pcs2 (2, 2))"
    "calls_to demo_crowd_guard demo_crowd_move (pcs2, w2) (pcs', w')"
    "pcs' (0, 2) = Written 2" "pcs' (2, 2) = Written 2"
proof -
  obtain c where c: "demo_crowd_move (Turn (0, 2)) (\<lambda>_. Obtain, demo_base [1]) = Some (Inr c)"
    using demo_overlap by (auto split: option.splits sum.splits simp del: crowd_move.simps performed.simps)
  then obtain c1 where c1: "performed demo_crowd_guard demo_crowd_move demo_overlap_turns c = Some c1"
    using demo_overlap by (auto split: option.splits simp del: crowd_move.simps performed.simps)
  then obtain c' where c': "performed demo_crowd_guard demo_crowd_move demo_final_turns c1 = Some c'"
    using demo_overlap c by (auto split: option.splits simp del: crowd_move.simps performed.simps)
  have "fst c (0, 2) \<noteq> Written 0" "counting (fst c1 (0, 2))" "counting (fst c1 (2, 2))"
    "fst c' (0, 2) = Written 2" "fst c' (2, 2) = Written 2"
    using demo_overlap c c1 c' by (simp_all del: crowd_move.simps performed.simps)
  then show thesis
    using that [of "fst c" "snd c" "fst c1" "snd c1" "fst c'" "snd c'"] c
      performed_calls [OF c1 calls_to.no_call] performed_calls [OF c' calls_to.no_call] by simp
qed

lemma demo_crowd_facts:
  "tiles demo_blocks (length demo_content)" "carries demo_blocks demo_content demo_arr"
  "1 \<in> reserved_set demo_ext (demo_base [1])" "\<not> is_buffered (pieces (demo_base [1]) ! 1)"
  "mp_length (pieces (demo_base [1]) ! 1) = int (length demo_content)"
  by (auto simp: demo_blocks_def demo_content_def tiles_def block_range_def carries_def demo_arr_def iov_ok_iov
      bytes_of_def reserved_set_def demo_base_def demo_defs is_buffered_def)

section \<open>Properties\<close>

text \<open>C5 Blocks written at once. The blocks of a reserved piece are written by a thread each, and
  their steps interleave in any order with one another and with calls that leave the piece
  alone, once the first has obtained the buffer. Then no step of any of them faults, and when all
  have finished each has returned the length of its block, the cache holds exactly the bytes of
  the piece, and its size is at most its length.\<close>

theorem blocks_written_at_once:
  assumes o: "orderly X w" and k: "k \<in> reserved_set X w" "\<not> is_buffered (pieces w ! k)"
    and piece: "tiles B (length content)" "mp_length (pieces w ! k) = int (length content)"
    and arr: "carries B content arr" and b: "b \<in> B"
    and first: "crowd_move X k arr (Turn b) (\<lambda>_. Obtain, w) = Some (Inr (pcs, w1))" "pcs b \<noteq> Written 0"
    and run: "calls_to (crowd_guard X k B) (crowd_move X k arr) (pcs, w1) (pcs', w')"
  shows "(\<forall>a\<in>B. \<forall>e. crowd_move X k arr (Turn a) (pcs', w') \<noteq> Some (Inl e)) \<and>
    ((\<forall>a\<in>B. \<exists>n. pcs' a = Written n) \<longrightarrow>
       (\<forall>a\<in>B. pcs' a = Written (int (snd a))) \<and>
       (\<exists>d. cached w' k = Some d \<and> take (length content) d = content) \<and>
       mp_size (pieces w' ! k) \<le> int (length content))"
proof -
  have "calls_to (\<lambda>e s. True \<and> crowd_guard X k B e s) (crowd_move X k arr) (pcs, w1) (pcs', w')"
    using run by simp
  note ok = free_tally.run_kept [OF piece(1) arr this crowd_starts [OF o k piece(2) b first TrueI]]
  have "crowd_move X k arr (Turn a) (pcs', w') \<noteq> Some (Inl e)" if "a \<in> B" for a e
    using free_tally.move_kept(1) [OF piece(1) arr ok TrueI, of "Turn a" "Inl e"] that by auto
  moreover have "(\<forall>a\<in>B. pcs' a = Written (int (snd a))) \<and>
      (\<exists>d. cached w' k = Some d \<and> take (length content) d = content) \<and>
      mp_size (pieces w' ! k) \<le> int (length content)" if over: "\<forall>a\<in>B. \<exists>n. pcs' a = Written n"
  proof -
    obtain p d S where "pinned k p d X w'" "mp_size p = int (sum snd S)" "S \<subseteq> B"
      "take (length content) d = content" "\<forall>a\<in>B. pcs' a = Written (int (snd a))"
      using crowd_ends [OF piece(1) ok over] by blast
    then show ?thesis using blocks_total(2) [OF piece(1), of S] by (auto simp: pinned_def simp del: of_nat_sum)
  qed
  ultimately show ?thesis by blast
qed

lemma blocks_written_at_once_witness:
  "\<exists>pcs w1 pcs' w'. calls_to demo_crowd_guard demo_crowd_move (pcs, w1) (pcs', w') \<and>
     (\<exists>d. cached w' 1 = Some d \<and> take 4 d = [1, 2, 3, 4])"
proof (rule demo_overlap_run)
  fix pcs w1 pcs2 w2 pcs' w'
  assume r: "demo_crowd_move (Turn (0, 2)) (\<lambda>_. Obtain, demo_base [1]) = Some (Inr (pcs, w1))" "pcs (0, 2) \<noteq> Written 0"
    "calls_to demo_crowd_guard demo_crowd_move (pcs, w1) (pcs2, w2)"
    "calls_to demo_crowd_guard demo_crowd_move (pcs2, w2) (pcs', w')"
    "pcs' (0, 2) = Written 2" "pcs' (2, 2) = Written 2"
  have run: "calls_to demo_crowd_guard demo_crowd_move (pcs, w1) (pcs', w')" by (rule calls_to_trans [OF r(3,4)])
  have "(0, 2) \<in> demo_blocks" by (simp add: demo_blocks_def)
  note at_once = blocks_written_at_once [OF demo_base_orderly demo_crowd_facts(3,4,1,5,2) this r(1,2) run]
  have "\<forall>a\<in>demo_blocks. \<exists>n. pcs' a = Written n" using r(5,6) by (auto simp: demo_blocks_def)
  then have "\<exists>d. cached w' 1 = Some d \<and> take (length demo_content) d = demo_content" using at_once by blast
  then have "\<exists>d. cached w' 1 = Some d \<and> take 4 d = [1, 2, 3, 4]" by (simp add: demo_content_def numeral_eq_Suc)
  then show ?thesis using run by blast
qed

text \<open>C7 Counted one by one. If moreover no thread reads the size of the piece while another one is
  between its read and its write of it, then once all threads have finished a read of any range
  of the piece returns the requested size and exactly the bytes of that range.\<close>

theorem counted_one_by_one:
  assumes o: "orderly X w" and k: "k \<in> reserved_set X w" "\<not> is_buffered (pieces w ! k)"
    and piece: "tiles B (length content)" "mp_length (pieces w ! k) = int (length content)"
    and arr: "carries B content arr" and b: "b \<in> B"
    and first: "crowd_move X k arr (Turn b) (\<lambda>_. Obtain, w) = Some (Inr (pcs, w1))" "pcs b \<noteq> Written 0"
    and run: "calls_to (\<lambda>e s. one_counts B e s \<and> crowd_guard X k B e s) (crowd_move X k arr) (pcs, w1) (pcs', w')"
    and over: "\<forall>a\<in>B. \<exists>n. pcs' a = Written n"
    and range: "0 \<le> from" "0 < sz" "from + sz \<le> int (length content)" "sz \<le> int (length buf)"
  shows "\<exists>w''. read X buf sz (int k) from w' =
    Inr (sz, patch buf 0 (take (nat sz) (drop (nat from) content)), w'')"
proof -
  have "\<not> has_counted (pcs a) \<and> \<not> counting (pcs a)" for a
    using first wf_shape(1) [OF orderlyD(1) [OF o]] by (auto simp: bindE_eq_Inr split: if_splits)
  then have "all_in B pcs {} (\<lambda>_. {})" by (simp add: all_in_def counted_def)
  note ok = serial_tally.run_kept [OF piece(1) arr run
      crowd_starts [where law = "all_in B", OF o k piece(2) b first this]]
  obtain p d S T where p: "pinned k p d X w'" "mp_length p = int (length content)" "mp_size p = int (sum snd S)"
    "take (length content) d = content" "all_in B pcs' S T" "counted B pcs' = B"
    using crowd_ends [OF piece(1) ok over] by blast
  have "mp_size p = int (sum snd B)" using p(3,5,6) by (simp add: all_in_def)
  moreover have "d ! x = content ! x" if "a \<in> B" "x \<in> block_range a" for a x
  proof -
    have "x < length content" using tiles_within(1) [OF piece(1) that(1)] that(2) by (simp add: block_range_def)
    then have "d ! x = take (length content) d ! x" by simp
    then show ?thesis using p(4) by simp
  qed
  ultimately have "assembled X k B content (B, w')" using p(1,2) unfolding assembled_def prod.case by blast
  from assembled_read [OF piece(1) this range] show ?thesis .
qed

lemma counted_one_by_one_witness:
  "\<exists>pcs w1 pcs' w' w''.
     calls_to (\<lambda>e s. one_counts demo_blocks e s \<and> demo_crowd_guard e s) demo_crowd_move (pcs, w1) (pcs', w') \<and>
     read demo_ext [0, 0, 0] 3 1 1 w' = Inr (3, [2, 3, 4], w'')"
proof (rule demo_serial_run)
  fix pcs w1 pcs' w'
  assume r: "demo_crowd_move (Turn (0, 2)) (\<lambda>_. Obtain, demo_base [1]) = Some (Inr (pcs, w1))" "pcs (0, 2) \<noteq> Written 0"
    "calls_to (\<lambda>e s. one_counts demo_blocks e s \<and> demo_crowd_guard e s) demo_crowd_move (pcs, w1) (pcs', w')"
    "pcs' (0, 2) = Written 2" "pcs' (2, 2) = Written 2"
  have b: "(0, 2) \<in> demo_blocks" by (simp add: demo_blocks_def)
  have over: "\<forall>a\<in>demo_blocks. \<exists>n. pcs' a = Written n" using r(4,5) by (auto simp: demo_blocks_def)
  have "\<exists>w''. read demo_ext [0, 0, 0] 3 (int 1) 1 w' =
      Inr (3, patch [0, 0, 0] 0 (take (nat 3) (drop (nat 1) demo_content)), w'')"
    by (rule counted_one_by_one [OF demo_base_orderly demo_crowd_facts(3,4,1,5,2) b r(1-3) over])
      (simp_all add: demo_content_def)
  then have "\<exists>w''. read demo_ext [0, 0, 0] 3 1 1 w' = Inr (3, [2, 3, 4], w'')"
    by (simp add: demo_content_def patch_def)
  then show ?thesis using r(3) by blast
qed

text \<open>C6 Overlapping counts lose a block. If at any moment two threads have both read the size of
  the piece and not yet written it, then, however the threads go on, once all have finished the
  size falls short of the length and \<open>read\<close> refuses the piece, although its bytes are all there.\<close>

theorem overlapping_counts_lose:
  assumes o: "orderly X w" and k: "k \<in> reserved_set X w" "\<not> is_buffered (pieces w ! k)"
    and piece: "tiles B (length content)" "mp_length (pieces w ! k) = int (length content)"
    and arr: "carries B content arr" and b: "b \<in> B"
    and first: "crowd_move X k arr (Turn b) (\<lambda>_. Obtain, w) = Some (Inr (pcs, w1))" "pcs b \<noteq> Written 0"
    and run: "calls_to (crowd_guard X k B) (crowd_move X k arr) (pcs, w1) (pcs2, w2)"
      "calls_to (crowd_guard X k B) (crowd_move X k arr) (pcs2, w2) (pcs', w')"
    and overlap: "a \<in> B" "c \<in> B" "a \<noteq> c" "counting (pcs2 a)" "counting (pcs2 c)"
    and over: "\<forall>a\<in>B. \<exists>n. pcs' a = Written n"
  shows "mp_size (pieces w' ! k) < int (length content) \<and>
    take (length content) (the (cached w' k)) = content \<and>
    (\<exists>w''. read X buf sz (int k) off w' = Inr (-1, buf, w''))"
proof -
  have run': "calls_to (\<lambda>e s. True \<and> crowd_guard X k B e s) (crowd_move X k arr) (pcs, w1) (pcs2, w2)"
    "calls_to (\<lambda>e s. True \<and> crowd_guard X k B e s) (crowd_move X k arr) (pcs2, w2) (pcs', w')"
    using run by simp_all
  note mid = free_tally.run_kept [OF piece(1) arr run'(1) crowd_starts [OF o k piece(2) b first TrueI]]
  obtain p d S T where p: "pinned k p d X w2" "mp_length p = int (length content)"
    "\<forall>b\<in>B. block_at content (arr b) b d (pcs2 b)" "tallied B pcs2 (mp_size p) S T"
    by (rule crowd_okE [OF mid])
  have out: "a \<notin> counted B pcs2" "c \<notin> counted B pcs2" using overlap(4,5) counting_not_counted by blast+
  have "T e \<subseteq> counted B pcs2" if "e \<in> B" "counting (pcs2 e)" for e
    using talliedD(4) [OF p(4) that(1)] that(2) by (cases "pcs2 e") auto
  then have "one_missed a c B pcs2 S T"
    using out talliedD(2) [OF p(4)] overlap(3-5) unfolding one_missed_def by blast
  then have "crowd_ok (one_missed a c B) X k B content arr (pcs2, w2)" using p by (intro crowd_okI)
  note ok = missed_tally.run_kept [OF piece(1) arr run'(2) this]
  obtain p d S T where p: "pinned k p d X w'" "mp_length p = int (length content)" "mp_size p = int (sum snd S)"
    "S \<subseteq> B" "take (length content) d = content" "one_missed a c B pcs' S T"
    using crowd_ends [OF piece(1) ok over] by blast
  obtain e where e: "e \<in> B" "e \<notin> S" using p(6) overlap(1,2) unfolding one_missed_def by blast
  have "finite S" using piece(1) p(4) by (auto simp: tiles_def intro: finite_subset)
  then have "sum snd (insert e S) = snd e + sum snd S" using e(2) by simp
  moreover have "sum snd (insert e S) \<le> length content"
    by (rule blocks_total(2) [OF piece(1)]) (use e(1) p(4) in simp)
  ultimately have less: "mp_size p < int (length content)"
    using tiles_within(2) [OF piece(1) e(1)] unfolding p(3) by linarith
  obtain j where j: "k < length (pieces w')" "pieces w' ! k = p" "safe X w'" "trim_inv X w'"
    by (rule pinned_facts [OF p(1)])
  have "handle_ok (w'\<lparr>is_reading := True\<rparr>)" using j(4) by (simp add: trim_inv_def handle_ok_def)
  from restore_piece_total [OF this] have "\<exists>w''. restore_piece X (int k) (w'\<lparr>is_reading := True\<rparr>) = Inr w''"
    by blast
  then have "\<exists>w''. read X buf sz (int k) off w' = Inr (-1, buf, w'')"
    using read_refused [OF j(3,1), of buf sz off] less p(2) j(2) by auto
  moreover have "cached w' k = Some d" using p(1) by (simp add: pinned_def)
  ultimately show ?thesis using less p(5) j(2) by simp
qed

lemma overlapping_counts_lose_witness:
  "\<exists>pcs w1 pcs' w' w''. calls_to demo_crowd_guard demo_crowd_move (pcs, w1) (pcs', w') \<and>
     take 4 (the (cached w' 1)) = [1, 2, 3, 4] \<and> read demo_ext [0, 0, 0] 3 1 1 w' = Inr (-1, [0, 0, 0], w'')"
proof (rule demo_overlap_run)
  fix pcs w1 pcs2 w2 pcs' w'
  assume r: "demo_crowd_move (Turn (0, 2)) (\<lambda>_. Obtain, demo_base [1]) = Some (Inr (pcs, w1))" "pcs (0, 2) \<noteq> Written 0"
    "calls_to demo_crowd_guard demo_crowd_move (pcs, w1) (pcs2, w2)"
    "calls_to demo_crowd_guard demo_crowd_move (pcs2, w2) (pcs', w')"
    "counting (pcs2 (0, 2))" "counting (pcs2 (2, 2))" "pcs' (0, 2) = Written 2" "pcs' (2, 2) = Written 2"
  have b: "(0, 2) \<in> demo_blocks" "(2, 2) \<in> demo_blocks" "(0 :: nat, 2 :: nat) \<noteq> (2, 2)"
    by (simp_all add: demo_blocks_def)
  have over: "\<forall>a\<in>demo_blocks. \<exists>n. pcs' a = Written n" using r(7,8) by (auto simp: demo_blocks_def)
  have "take (length demo_content) (the (cached w' 1)) = demo_content \<and>
      (\<exists>w''. read demo_ext [0, 0, 0] 3 (int 1) 1 w' = Inr (-1, [0, 0, 0], w''))"
    using overlapping_counts_lose [OF demo_base_orderly demo_crowd_facts(3,4,1,5,2) b(1) r(1-4) b r(5,6) over]
    by blast
  then have "take 4 (the (cached w' 1)) = [1, 2, 3, 4]"
    "\<exists>w''. read demo_ext [0, 0, 0] 3 1 1 w' = Inr (-1, [0, 0, 0], w'')"
    by (simp_all add: demo_content_def numeral_eq_Suc)
  then show ?thesis using calls_to_trans [OF r(3,4)] by blast
qed

end
