(* ===== verification/Control_Races.thy ===== *)
theory Control_Races
  imports Writer
begin

text \<open>
  The control operations among other threads. \<open>set_memory_size\<close> and \<open>trim\<close> look at the storage
  before they take \<open>m_mutex\<close>; \<open>update_reserved_pieces\<close> holds \<open>r_mutex\<close> while it clears the
  range and sets it piece by piece, but \<open>get_buffer\<close> asks the range without that mutex.
\<close>

section \<open>The steps of set_memory_size\<close>

datatype resize_pc = Compare | Hold | Resized

fun resize_step :: "int \<Rightarrow> (resize_pc, 'b, 't) stepper" where
  "resize_step s Compare w = Some (Inr (if s \<le> capacity w then Resized else Hold, w))"
| "resize_step s Hold w = Some (bindE (resize_pool s w) (\<lambda>w. Inr (Resized, w)))"
| "resize_step s Resized w = Some (Inr (Resized, w))"

section \<open>The steps of trim\<close>

datatype trim_pc = Pretest | Section | Trimmed

fun trimmer :: "('b, 't) ext \<Rightarrow> int \<Rightarrow> (trim_pc, 'b, 't) stepper" where
  "trimmer X pi Pretest w =
     Some (Inr (if capacity w < 0 \<or> buffer_used w < buffer_limit w then Trimmed else Section, w))"
| "trimmer X pi Section w = map_option (\<lambda>r. bindE r (\<lambda>w. Inr (Trimmed, w))) (trim_loop X pi w)"
| "trimmer X pi Trimmed w = Some (Inr (Trimmed, w))"

section \<open>The steps of update_reserved_pieces\<close>

datatype reserve_pc = Clear | Set_next "int list" | Reserved

fun reserve_step :: "('b, 't) ext \<Rightarrow> int list \<Rightarrow> (reserve_pc, 'b, 't) stepper" where
  "reserve_step X ps Clear w =
     Some (Inr (if \<not> is_initialized w then (Reserved, w)
       else (Set_next ps, w\<lparr>buffer_reserved := 0, reserved_pieces := bs_reset X (reserved_pieces w)\<rparr>)))"
| "reserve_step X ps (Set_next (p # qs)) w =
     Some (bindE (bit_set X (reserved_pieces w) p) (\<lambda>b.
       bindE (i32 (buffer_reserved w + 1)) (\<lambda>n.
         Inr (Set_next qs, w\<lparr>reserved_pieces := b, buffer_reserved := n\<rparr>))))"
| "reserve_step X ps (Set_next []) w = Some (Inr (Reserved, w))"
| "reserve_step X ps Reserved w = Some (Inr (Reserved, w))"

section \<open>The steps are the functions\<close>

lemma steps_compute_resize:
  "alone (resize_step s) 2 (Compare, w) = Some (bindE (set_memory_size s w) (\<lambda>w. Inr (Resized, w)))"
  by (simp add: numeral_eq_Suc set_memory_size_def bindE_def split: sum.split)

lemma steps_compute_trim:
  "alone (trimmer X pi) 2 (Pretest, w) = map_option (\<lambda>r. bindE r (\<lambda>w. Inr (Trimmed, w))) (trim X pi w)"
  by (cases "trim_loop X pi w") (simp_all add: numeral_eq_Suc trim_def bindE_def split: sum.split)

text \<open>The section can be entered at any later moment: what it does is what a whole \<open>trim\<close> would do then.\<close>

lemma trim_section:
  assumes "0 \<le> capacity w"
  shows "trimmer X pi Section w = map_option (\<lambda>r. bindE r (\<lambda>w. Inr (Trimmed, w))) (trim X pi w)"
proof (cases "buffer_used w < buffer_limit w")
  case True
  then have "trim_loop X pi w = Some (Inr w)"
    unfolding trim_loop_run by (intro run_loop_stop) (simp add: excess_used_def)
  then show ?thesis using True by (simp add: trim_def)
qed (use assms in \<open>simp add: trim_def\<close>)

lemma reserve_loop:
  "alone (reserve_step X ps0) (length ps + 1) (Set_next ps, w) =
   Some (bindE (reserve_bits X (reserved_pieces w) (buffer_reserved w) ps) (\<lambda>(b, n).
     Inr (Reserved, w\<lparr>reserved_pieces := b, buffer_reserved := n\<rparr>)))"
  by (induction ps arbitrary: w) (simp_all add: bindE_def split: sum.split)

lemma steps_compute_reserve:
  assumes "is_initialized w"
  shows "alone (reserve_step X ps) (length ps + 2) (Clear, w) =
    Some (bindE (update_reserved_pieces X ps w) (\<lambda>w. Inr (Reserved, w)))"
proof -
  have "alone (reserve_step X ps) (length ps + 2) (Clear, w) = alone (reserve_step X ps) (length ps + 1)
      (Set_next ps, w\<lparr>buffer_reserved := 0, reserved_pieces := bs_reset X (reserved_pieces w)\<rparr>)"
    using assms by (simp add: numeral_eq_Suc)
  then show ?thesis
    using assms unfolding reserve_loop
    by (simp add: update_reserved_pieces_def bindE_def split: sum.split prod.split)
qed

text \<open>Each call made step by step with nobody in between computes
  exactly what the function computes, faults and trims that do not return included: \<open>writev\<close> in
  seven steps and one for every entry, \<open>readv\<close> in four and one for every entry, \<open>read\<close> in six,
  \<open>trim\<close> and \<open>set_memory_size\<close> in two, \<open>update_reserved_pieces\<close> in two and one for every piece.
  Moreover the section of \<open>trim\<close>, entered at any moment, does what a whole \<open>trim\<close> would do then.\<close>

lemma steps_compute_calls:
  assumes s: "safe X w"
  shows "alone (write_step X bufs piece offset) (length bufs + 7) (Obtain, w) =
      map_option (\<lambda>r. bindE r (\<lambda>(n, w). Inr (Written n, w))) (writev X bufs piece offset w) \<and>
    alone (readv_step X bufs piece offset) (length bufs + 4) (Admit, w) =
      Some (bindE (readv X bufs piece offset w) (\<lambda>(n, bufs', w). Inr (Filled bufs' n, w))) \<and>
    alone (reader X sz piece offset) 6 ((Enter, buf), w) =
      Some (bindE (read X buf sz piece offset w) (\<lambda>(n, buf', w'). Inr ((Finished n, buf'), w'))) \<and>
    alone (trimmer X pi) 2 (Pretest, w) = map_option (\<lambda>r. bindE r (\<lambda>w. Inr (Trimmed, w))) (trim X pi w) \<and>
    trimmer X pi Section w = map_option (\<lambda>r. bindE r (\<lambda>w. Inr (Trimmed, w))) (trim X pi w) \<and>
    alone (resize_step m) 2 (Compare, w) = Some (bindE (set_memory_size m w) (\<lambda>w. Inr (Resized, w))) \<and>
    alone (reserve_step X ps) (length ps + 2) (Clear, w) =
      Some (bindE (update_reserved_pieces X ps w) (\<lambda>w. Inr (Reserved, w)))"
proof -
  have wf: "wf X w" and cap: "0 \<le> capacity w" using s by (auto simp: safe_def sized_def)
  show ?thesis
    by (intro conjI steps_compute_writev [OF wf] steps_compute_readv [OF wf] steps_compute_read
        steps_compute_trim trim_section [OF cap] steps_compute_resize
        steps_compute_reserve [OF wf_shape(1) [OF wf]])
qed

section \<open>Two threads raise the memory size\<close>

lemma resize_pool_smaller:
  assumes "max_buffers s (piece_length w) (piece_count w) = Inr n" "n \<le> buffer_size w"
  shows "resize_pool s w = Inr (w\<lparr>capacity := s, buffer_size := n, buffer_limit := n\<rparr>)"
  using assms by (simp add: resize_pool_def Let_def push_buffers.simps)

text \<open>C22 Two calls that raise the memory size can lower it, and then spoil the pool. Each compares
  its size with the capacity before it takes the mutex. If the call for the larger size runs in
  between, the smaller one still goes ahead: the capacity and the number of buffers drop while
  the vector of buffers keeps its length; the next raise appends buffers whose index is not
  their position, so two buffers of the vector have the same index, which is what \<open>get_buffer\<close>
  writes into the piece it lends a buffer to.\<close>

theorem racing_resizes:
  assumes s: "safe X w" and two: "capacity w < s" "s < b"
    and n: "max_buffers s (piece_length w) (piece_count w) = Inr n"
    and m: "max_buffers b (piece_length w) (piece_count w) = Inr m" "n < m"
    and later: "s < c" "max_buffers c (piece_length w) (piece_count w) = Inr r" "n < r"
  shows "\<exists>w2 w3. turns_taken (resize_step s) X [Mine, Other (Set_memory_size b), Mine] (Compare, w) = Some (Resized, w2) \<and>
    capacity w2 = s \<and> buffer_size w2 = n \<and> int (length (buffers w2)) = m \<and>
    set_memory_size c w2 = Inr w3 \<and> buffer_size w3 = r \<and>
    mb_index (buffers w3 ! nat m) = n \<and> mb_index (buffers w3 ! nat n) = n"
proof -
  have wf: "wf X w" "sized w" using s by (auto simp: safe_def)
  note sh = wf_shape [OF wf(1)]
  have mono: "buffer_size w \<le> n" "buffer_size w \<le> m"
    using max_buffers_mono [OF _ n, of "capacity w"] max_buffers_mono [OF _ m(1), of "capacity w"] wf(2) two sh(5)
    by (auto simp: sized_def)
  let ?w1 = "grown b m w"
  have "set_memory_size b w = Inr ?w1"
    by (rule set_memory_size_grown [OF wf(1) _ m(1) mono(2)]) (use two in simp)
  moreover have w1: "wf X ?w1" by (rule wf_grown [OF wf(1) mono(2) max_buffers_le [OF m(1)]])
  let ?w2 = "?w1\<lparr>capacity := s, buffer_size := n, buffer_limit := n\<rparr>"
  have "resize_pool s ?w1 = Inr ?w2" using n m(2) by (intro resize_pool_smaller) (simp_all add: grown_def)
  ultimately have run: "turns_taken (resize_step s) X [Mine, Other (Set_memory_size b), Mine] (Compare, w) = Some (Resized, ?w2)"
    using two by simp
  have len: "int (length (buffers ?w1)) = m" using wf_shape(8) [OF w1] by (simp add: grown_def)
  have pos: "0 \<le> n" "0 \<le> piece_length w" using mono(1) sh(5,8) by linarith+
  let ?bs = "buffers ?w1 @ map (\<lambda>k. empty_buffer (piece_length w) (int k)) [nat n..<nat r]"
  let ?w3 = "?w2\<lparr>capacity := c, buffer_size := r, buffer_limit := r, buffers := ?bs\<rparr>"
  have w3: "set_memory_size c ?w2 = Inr ?w3"
    using later pos by (simp add: set_memory_size_def resize_pool_def Let_def push_buffers_eq grown_def)
  have "nat m = length (buffers ?w1)" using len by simp
  then have "mb_index (?bs ! nat m) = n" using pos later(3) by (simp add: nth_append empty_buffer_def)
  moreover have j: "nat n < length (buffers ?w1)" using len m(2) pos by linarith
  then have "mb_index (?bs ! nat n) = n"
    using wf_buffer [OF w1 j] pos by (simp add: nth_append buffer_ok_def)
  ultimately show ?thesis using run w3 len by (intro exI [of _ ?w2] exI [of _ ?w3]) simp
qed

text \<open>When the two buffers are lent, two pieces share one of them: what is written into the one piece is
  read from the other.\<close>

lemma demo_resize_race:
  "case turns_taken (resize_step 8) demo_ext [Mine, Other (Set_memory_size 12), Mine] (Compare, demo_world 8 4) of
     Some (pc, w2) \<Rightarrow>
       (case set_memory_size 20 w2 of
          Inr w3 \<Rightarrow>
            (case performed (\<lambda>_ _. True) (exec demo_ext)
               (map (\<lambda>i. Writev [iov [of_int i, of_int i, of_int i, of_int i]] i 0) [0, 1, 2, 3, 4, 5]) w3 of
               Some v \<Rightarrow> mp_bi (pieces v ! 4) = mp_bi (pieces v ! 5) \<and>
                 (case read demo_ext [0, 0] 2 4 0 v of Inr (k, buf, v') \<Rightarrow> k = 2 \<and> buf = [5, 5] | _ \<Rightarrow> False)
             | None \<Rightarrow> False)
        | _ \<Rightarrow> False)
   | None \<Rightarrow> False"
  by code_simp

lemma racing_resizes_witness:
  "\<exists>w2 w3 v v'. turns_taken (resize_step 8) demo_ext [Mine, Other (Set_memory_size 12), Mine] (Compare, demo_world 8 4) =
       Some (Resized, w2) \<and>
     capacity w2 = 8 \<and> length (buffers w2) = 5 \<and> set_memory_size 20 w2 = Inr w3 \<and>
     mb_index (buffers w3 ! 4) = mb_index (buffers w3 ! 5) \<and>
     performed (\<lambda>_ _. True) (exec demo_ext)
       (map (\<lambda>i. Writev [iov [of_int i, of_int i, of_int i, of_int i]] i 0) [0, 1, 2, 3, 4, 5]) w3 = Some v \<and>
     read demo_ext [0, 0] 2 4 0 v = Inr (2, [5, 5], v')"
proof -
  have "\<exists>w2 w3. turns_taken (resize_step 8) demo_ext [Mine, Other (Set_memory_size 12), Mine] (Compare, demo_world 8 4) =
      Some (Resized, w2) \<and> capacity w2 = 8 \<and> buffer_size w2 = 4 \<and> int (length (buffers w2)) = 5 \<and>
    set_memory_size 20 w2 = Inr w3 \<and> buffer_size w3 = 7 \<and>
    mb_index (buffers w3 ! nat 5) = 4 \<and> mb_index (buffers w3 ! nat 4) = 4"
    by (rule racing_resizes [OF orderlyD(4) [OF demo_world_orderly]])
      (simp_all add: demo_defs max_buffers_def trunc_div_def i32_def INT_MIN_def INT_MAX_def)
  then obtain w2 w3 where w: "turns_taken (resize_step 8) demo_ext [Mine, Other (Set_memory_size 12), Mine]
      (Compare, demo_world 8 4) = Some (Resized, w2)" "capacity w2 = 8" "length (buffers w2) = 5"
    "set_memory_size 20 w2 = Inr w3" "mb_index (buffers w3 ! 4) = mb_index (buffers w3 ! 5)"
    by auto
  obtain v where v: "performed (\<lambda>_ _. True) (exec demo_ext)
      (map (\<lambda>i. Writev [iov [of_int i, of_int i, of_int i, of_int i]] i 0) [0, 1, 2, 3, 4, 5]) w3 = Some v"
    "case read demo_ext [0, 0] 2 4 0 v of Inr (k, buf, v') \<Rightarrow> k = 2 \<and> buf = [5, 5] | _ \<Rightarrow> False"
    using demo_resize_race w(1,4) by (auto split: option.splits simp del: performed.simps)
  then obtain v' where "read demo_ext [0, 0] 2 4 0 v = Inr (2, [5, 5], v')" by (auto split: sum.splits)
  then show ?thesis using w v(1) by blast
qed

section \<open>A piece is written while the range is being set\<close>

text \<open>C23 Setting the reserved range anew loses count of a piece that is written meanwhile. The range is
  cleared first; a reserved piece that obtains its buffer before its turn comes is counted as an
  ordinary one. When the range is complete again the piece is reserved, so it is never evicted
  and never given back, and \<open>buffer_used\<close> is one more than the buffers lent to ordinary pieces.\<close>

theorem reserving_while_writing:
  assumes o: "orderly X w" and k: "k \<in> reserved_set X w" "\<not> is_buffered (pieces w ! k)" "int k \<in> set ps"
    and same: "benign X (Update_reserved_pieces ps) w" and u: "update_reserved_pieces X ps w = Inr u"
    and clear: "reserve_step X ps Clear w = Some (Inr (Set_next ps, w1))"
    and g: "get_buffer X (int k) True w1 = Inr (True, w2)"
  shows "\<exists>w3. alone (reserve_step X ps) (length ps + 1) (Set_next ps, w2) = Some (Inr (Reserved, w3)) \<and>
    k \<in> reserved_set X w3 \<and> is_buffered (pieces w3 ! k) \<and> buffer_used w3 = buffer_used w + 1 \<and>
    buffer_limit w3 = buffer_limit w \<and> \<not> acct X w3"
proof -
  note w = orderlyD [OF o]
  have init: "is_initialized w" by (rule wf_shape(1) [OF w(1)])
  have kl: "k < length (pieces w)" "k < bs_size X (reserved_pieces w)"
    using k(1) wf_shape(4,10) [OF w(1)] by (auto simp: reserved_set_def)
  let ?r = "bs_reset X (reserved_pieces w)"
  have w1: "w1 = w\<lparr>buffer_reserved := 0, reserved_pieces := ?r\<rparr>" using clear init by simp
  have r: "bs_size X ?r = bs_size X (reserved_pieces w)" "\<not> bs_test X ?r k"
    using w(6) kl(2) by (simp_all add: bitset_laws_def)
  have wf1: "wf X w1" using w(1) r(1) by (simp add: wf_def shape_ok_def w1)
  have kl1: "k < length (pieces w1)" using kl(1) w1 by simp
  obtain j where j: "j < length (buffers w)" "\<not> mb_is_used (buffers w ! j)" "w2 = assigned X k j w1"
    using get_buffer_admitted [OF wf1 kl1 g] k(2) by (auto simp: admitted_def w1)
  obtain b n where b: "reserve_bits X ?r 0 ps = Inr (b, n)"
    using u init by (auto simp: update_reserved_pieces_def bindE_eq_Inr)
  note spec = reserve_bits_spec [OF w(6) b]
  have test: "\<forall>i < bs_size X b. bs_test X b i = (int i \<in> set ps)"
    using spec r(1) w(6) by (auto simp: bitset_laws_def)
  let ?w3 = "w2\<lparr>reserved_pieces := b, buffer_reserved := n\<rparr>"
  have over: "alone (reserve_step X ps) (length ps + 1) (Set_next ps, w2) = Some (Inr (Reserved, ?w3))"
    using b unfolding reserve_loop by (simp add: j(3) w1 assigned_def Let_def)
  have bk: "bs_test X b k" using test spec r(1) kl(2) k(3) by simp
  have "count_if (lent X b False) (buffers ?w3) = count_if (lent X b False) (buffers w)"
    using j(1,2) bk by (simp add: j(3) w1 count_if_update lent_def lent_buffer_def)
  also have "\<dots> = count_if (lent X (reserved_pieces w) False) (buffers w)"
    using lent_same_range [OF w(1) same _ test] spec r(1) by (intro count_if_cong) simp
  also have "\<dots> = buffer_used w" using w(2) by (simp add: acct_def)
  finally have "\<not> acct X ?w3" using r(2) by (simp add: acct_def j(3) w1)
  then show ?thesis
    using over r(2) bk kl(1) by (intro exI [of _ ?w3]) (simp add: j(3) w1 reserved_set_def is_buffered_def)
qed

lemma demo_reserving:
  "case reserve_step demo_ext [1] Clear (demo_base [1]) of
     Some (Inr (pc, w1)) \<Rightarrow> pc = Set_next [1] \<and>
       (case get_buffer demo_ext 1 True w1 of
          Inr (ok, w2) \<Rightarrow> ok \<and>
            (case update_reserved_pieces demo_ext [1] (demo_base [1]) of Inr u \<Rightarrow> True | Inl e \<Rightarrow> False)
        | Inl e \<Rightarrow> False)
   | _ \<Rightarrow> False"
  by code_simp

lemma reserving_while_writing_witness:
  "\<exists>w1 w2 w3. reserve_step demo_ext [1] Clear (demo_base [1]) = Some (Inr (Set_next [1], w1)) \<and>
     get_buffer demo_ext 1 True w1 = Inr (True, w2) \<and>
     alone (reserve_step demo_ext [1]) 2 (Set_next [1], w2) = Some (Inr (Reserved, w3)) \<and>
     1 \<in> reserved_set demo_ext w3 \<and> buffer_used w3 = 1 \<and> \<not> acct demo_ext w3"
proof -
  obtain r where "reserve_step demo_ext [1] Clear (demo_base [1]) = Some (Inr r)"
    using demo_reserving by (auto split: option.splits sum.splits simp del: reserve_step.simps)
  moreover obtain pc w1 where "r = (pc, w1)" by (cases r)
  ultimately have w1: "reserve_step demo_ext [1] Clear (demo_base [1]) = Some (Inr (Set_next [1], w1))"
    and rest: "case get_buffer demo_ext 1 True w1 of
      Inr (ok, w2) \<Rightarrow> ok \<and>
        (case update_reserved_pieces demo_ext [1] (demo_base [1]) of Inr u \<Rightarrow> True | Inl e \<Rightarrow> False)
      | Inl e \<Rightarrow> False"
    using demo_reserving by (simp_all del: reserve_step.simps)
  obtain w2 where w2: "get_buffer demo_ext (int 1) True w1 = Inr (True, w2)"
    using rest by (auto split: sum.splits)
  obtain u where u: "update_reserved_pieces demo_ext [1] (demo_base [1]) = Inr u"
    using rest by (auto split: sum.splits)
  have base: "1 \<in> reserved_set demo_ext (demo_base [1])" "\<not> is_buffered (pieces (demo_base [1]) ! 1)"
    "benign demo_ext (Update_reserved_pieces [1]) (demo_base [1])" "buffer_used (demo_base [1]) = 0"
    by (auto simp: reserved_set_def demo_base_def demo_defs is_buffered_def empty_buffer_def)
  have two: "length [1 :: int] + 1 = 2" "0 + 1 = (1 :: int)" by simp_all
  have "\<exists>w3. alone (reserve_step demo_ext [1]) (length [1 :: int] + 1) (Set_next [1], w2) = Some (Inr (Reserved, w3)) \<and>
      1 \<in> reserved_set demo_ext w3 \<and> is_buffered (pieces w3 ! 1) \<and> buffer_used w3 = buffer_used (demo_base [1]) + 1 \<and>
      buffer_limit w3 = buffer_limit (demo_base [1]) \<and> \<not> acct demo_ext w3"
    by (rule reserving_while_writing [OF demo_base_orderly base(1,2) _ base(3) u w1 w2]) simp_all
  moreover have "get_buffer demo_ext 1 True w1 = Inr (True, w2)" using w2 by simp
  ultimately show ?thesis using w1 unfolding two base(4) by blast
qed

end
