(* ===== verification/Lifetimes.thy ===== *)
theory Lifetimes
  imports Branch_Properties
begin

text \<open>
  The storage keeps two raw pointers: to the handle object the client passed to
  \<open>set_torrent_handle\<close> and to libtorrent's torrent. It owns neither. What still works when one of
  them is gone, what does not, and how a client puts it right.
\<close>

section \<open>Without the handle object\<close>

lemma is_readered_dangling:
  "wf X w \<Longrightarrow> m_handle w = Dangling \<Longrightarrow> is_readered X i w = Inl Use_After_Free"
  using wf_shape(1) [of X w] by (simp add: is_readered_def non_null_def follow_def)

text \<open>The search for a victim asks for the priority of the first piece it could evict.\<close>

lemma find_last_loop_dangling:
  assumes wf: "wf X w" and h: "m_handle w = Dangling"
    and bs: "set bs \<subseteq> set (buffers w)" "\<exists>b\<in>set bs. eligible X pi False w b"
  shows "find_last_loop X pi True w bs bi t = Inl Use_After_Free"
  using bs
proof (induction bs)
  case (Cons b bs)
  then obtain j where j: "j < length (buffers w)" "b = buffers w ! j"
    by (auto simp: in_set_conv_nth)
  have bok: "buffer_ok (piece_length w) (int j) b" using wf_buffer [OF wf j(1)] j(2) by simp
  show ?case
  proof (cases "mb_is_used b")
    case False
    then show ?thesis using Cons by (auto simp: victim_test_def eligible_def)
  next
    case True
    then have "0 \<le> mb_pi b" "mb_pi b < piece_count w" using wf_buffer_piece [OF wf j(1)] j(2) by auto
    moreover have "is_assigned b" using bok True by (simp add: buffer_ok_def is_assigned_def)
    ultimately have "victim_test X pi True b t w =
        (if eligible X pi False w b then Inl Use_After_Free else Inr False)"
      using True wf is_readered_dangling [OF wf h] by (simp add: victim_test_def is_reserved_eq eligible_def)
    then show ?thesis using Cons by (cases "eligible X pi False w b") auto
  qed
qed simp

lemma trim_dangling:
  assumes wf: "wf X w" and h: "m_handle w = Dangling" and cap: "0 \<le> capacity w"
    and over: "buffer_limit w \<le> buffer_used w" and stock: "0 < evictable X pi w"
  shows "trim X pi w = Some (Inl Use_After_Free)"
proof -
  let ?v = "w\<lparr>ticks := Suc (ticks w)\<rparr>"
  have "\<exists>b\<in>set (buffers w). eligible X pi False ?v b"
    using stock by (simp add: evictable_def count_if_pos)
  then have "find_last_loop X pi True ?v (buffers w) (-1) t = Inl Use_After_Free" for t
    using wf h by (intro find_last_loop_dangling) simp_all
  then have "find_last_buffer X pi True w = Inl Use_After_Free"
    by (simp add: find_last_buffer_def now_def)
  moreover have "bs_size X (reader_pieces w) \<noteq> 0" using wf_shape(2,9) [OF wf] by simp
  ultimately have "trim_step X pi w = Inl Use_After_Free" by (simp add: trim_step_def)
  then have "trim_loop X pi w = Some (Inl Use_After_Free)"
    using over by (simp add: trim_loop_def while_option_unfold over_limit_def)
  then show ?thesis using cap over by (simp add: trim_def)
qed

lemma write_dangling:
  assumes wf: "wf X w" and h: "m_handle w = Dangling" and rd: "is_reading w"
    and k: "k < length (pieces w)" "\<not> is_buffered (pieces w ! k)"
  shows "writev X bufs (int k) off w = Some (Inl Use_After_Free)"
proof -
  have "get_buffer X (int k) True w = Inl Use_After_Free"
    using k rd is_readered_dangling [OF wf h] by (simp add: get_buffer_def)
  then show ?thesis using wf_shape(1) [OF wf] by (simp add: writev_def get_write_buffer_def)
qed

section \<open>What works and what does not\<close>

text \<open>C32 The storage outlives what it points to. When the client has deleted the handle object it
  once gave to \<open>set_torrent_handle\<close>, writing a piece that has no buffer faults as soon as
  anything was read, and so does every trim that finds a piece it could evict; when libtorrent
  has destroyed the torrent, reading a piece that is not complete in the cache faults. Reads of
  complete pieces go on as before, before and after the torrent is gone, and a client that sets
  a new handle is exactly where it would be had the old one lived.\<close>

theorem stale_pointers_fault:
  assumes o: "orderly X w" and h: "m_handle w = Valid" "m_t w = Valid"
    and v: "exec X Handle_deleted w = Some (Inr v)" and u: "exec X Torrent_removed w = Some (Inr u)"
    and k: "k < length (pieces w)"
  shows "(is_reading w \<and> \<not> is_buffered (pieces w ! k) \<longrightarrow>
      writev X bufs (int k) off v = Some (Inl Use_After_Free)) \<and>
    (buffer_limit w \<le> buffer_used w \<and> 0 < evictable X pi w \<longrightarrow> trim X pi v = Some (Inl Use_After_Free)) \<and>
    (\<not> is_buffered (pieces w ! k) \<or> mp_size (pieces w ! k) < mp_length (pieces w ! k) \<longrightarrow>
      read X buf sz (int k) off u = Inl Use_After_Free \<and>
      (\<exists>v'. read X buf sz (int k) off v = Inr (-1, buf, v'))) \<and>
    (is_buffered (pieces w ! k) \<and> mp_length (pieces w ! k) \<le> mp_size (pieces w ! k) \<and>
     0 \<le> off \<and> off < piece_length w \<and> 0 \<le> sz \<and> min sz (piece_length w - off) \<le> int (length buf) \<longrightarrow>
      (\<forall>x\<in>{w, v, u}. \<exists>x'. read X buf sz (int k) off x =
        Inr (sz, patch buf 0 (take (nat sz) (drop (nat off) (piece_data w k))), x'))) \<and>
    set_torrent_handle X Valid v = set_torrent_handle X Valid w"
proof -
  note w = orderlyD [OF o]
  have vu: "v = w\<lparr>m_handle := Dangling\<rparr>" "u = w\<lparr>m_t := Dangling\<rparr>"
    using v u h by (simp_all add: gone_def)
  have wf: "wf X v" "wf X u" "safe X v" "safe X u" using w(1,4) by (simp_all add: vu)
  have cap: "0 \<le> capacity v" using w(4) by (simp add: vu safe_def sized_def)
  have "evictable X pi v = evictable X pi w" by (simp add: evictable_def eligible_def [abs_def] vu)
  then have trim: "trim X pi v = Some (Inl Use_After_Free)"
    if "buffer_limit w \<le> buffer_used w" "0 < evictable X pi w"
    using trim_dangling [OF wf(1) _ cap] that by (simp add: vu)
  have refused: "read X buf sz (int k) off u = Inl Use_After_Free \<and>
      (\<exists>v'. read X buf sz (int k) off v = Inr (-1, buf, v'))"
    if "\<not> is_buffered (pieces w ! k) \<or> mp_size (pieces w ! k) < mp_length (pieces w ! k)"
    using read_refused [OF wf(4), of k buf sz off] read_refused [OF wf(3), of k buf sz off] that k h
    by (auto simp: vu restore_piece_def non_null_def follow_def Let_def)
  have data: "piece_data v k = piece_data w k" "piece_data u k = piece_data w k"
    by (simp_all add: piece_data_def vu)
  have complete: "\<exists>x'. read X buf sz (int k) off x =
      Inr (sz, patch buf 0 (take (nat sz) (drop (nat off) (piece_data w k))), x')"
    if "x \<in> {w, v, u}" "is_buffered (pieces w ! k)" "mp_length (pieces w ! k) \<le> mp_size (pieces w ! k)"
      "0 \<le> off" "off < piece_length w" "0 \<le> sz" "min sz (piece_length w - off) \<le> int (length buf)" for x
  proof -
    have "safe X x" "pieces x = pieces w" "piece_length x = piece_length w" "piece_data x k = piece_data w k"
      using that(1) w(4) wf(3,4) data by (auto simp: vu)
    then show ?thesis using read_complete [of X x k off sz buf] k that(2-) by simp
  qed
  show ?thesis
  proof (intro conjI impI)
    show "set_torrent_handle X Valid v = set_torrent_handle X Valid w"
      by (simp add: set_torrent_handle_def vu)
    show "writev X bufs (int k) off v = Some (Inl Use_After_Free)"
      if "is_reading w \<and> \<not> is_buffered (pieces w ! k)"
      using write_dangling [OF wf(1)] that k by (simp add: vu)
  qed (use trim refused complete in blast)+
qed

lemma stale_pointers_fault_witness:
  "writev demo_ext [iov [1]] 2 0 ((demo_filled [])\<lparr>is_reading := True, m_handle := Dangling\<rparr>) =
     Some (Inl Use_After_Free) \<and>
   read demo_ext [0] 1 2 0 ((demo_filled [])\<lparr>is_reading := True, m_t := Dangling\<rparr>) = Inl Use_After_Free"
proof -
  let ?w = "(demo_filled [])\<lparr>is_reading := True\<rparr>"
  have h: "m_handle ?w = Valid" "m_t ?w = Valid" by (simp_all add: demo_filled_handle)
  have k: "2 < length (pieces ?w)" "\<not> is_buffered (pieces ?w ! 2)" by (simp_all add: demo_filled_sel)
  have "exec demo_ext Handle_deleted ?w = Some (Inr (?w\<lparr>m_handle := Dangling\<rparr>))"
    "exec demo_ext Torrent_removed ?w = Some (Inr (?w\<lparr>m_t := Dangling\<rparr>))"
    using h by (simp_all add: gone_def)
  from stale_pointers_fault [OF demo_reading_orderly h this k(1), of "[iov [1]]" 0 0 "[0]" 1] show ?thesis
    using k(2) by simp
qed

end
