(* ===== verification/Mutexes.thy ===== *)
theory Mutexes
  imports Control_Races Locking
begin

text \<open>
  The storage with both of its mutexes, for any number of threads in any of its calls. Every
  thread is at a place of its call; a place between two mutex operations is left by the steps of
  the other theories (\<open>gb_step\<close>, \<open>read_step\<close>, \<open>readv_step\<close>, \<open>write_step\<close>, \<open>reserve_step\<close>) or by
  the operations themselves. \<open>trim\<close> is followed through the turns of its loop, so that a loop that
  never ends is a run that never ends, and through the second mutex its searches take. A
  \<open>unique_lock\<close> gives its mutex back at the end of its block.
\<close>

section \<open>The places of trim\<close>

datatype trim_place =
    Trim_pretest
  | Trim_wait
  | Trim_turn
  | Seek bool
  | Seek_wait bool ptime
  | Seek_in bool ptime
  | Evict bool int
  | Trim_over

text \<open>\<open>find_last_buffer\<close> reads the clock, then waits for \<open>r_mutex\<close>, which it holds for its loop.\<close>

fun trim_step_at ::
  "('b, 't) ext \<Rightarrow> int \<Rightarrow> trim_place \<Rightarrow> ('b, 't) world \<Rightarrow> ub + trim_place \<times> ('b, 't) world" where
  "trim_step_at X pi Trim_pretest w =
     Inr (if capacity w < 0 \<or> buffer_used w < buffer_limit w then Trim_over else Trim_wait, w)"
| "trim_step_at X pi Trim_wait w = Inr (Trim_turn, w)"
| "trim_step_at X pi Trim_turn w =
     Inr (if buffer_limit w \<le> buffer_used w then Seek (bs_size X (reader_pieces w) \<noteq> 0) else Trim_over, w)"
| "trim_step_at X pi (Seek check_read) w = (let (minTime, w) = now w in Inr (Seek_wait check_read minTime, w))"
| "trim_step_at X pi (Seek_wait check_read minTime) w = Inr (Seek_in check_read minTime, w)"
| "trim_step_at X pi (Seek_in check_read minTime) w =
     bindE (find_last_loop X pi check_read w (buffers w) (-1) minTime) (\<lambda>bi. Inr (Evict check_read bi, w))"
| "trim_step_at X pi (Evict check_read bi) w =
     (if bi \<noteq> -1 then bindE (remove_piece X bi w) (\<lambda>w. Inr (Trim_turn, w))
      else Inr (if check_read then Seek False else Trim_turn, w))"
| "trim_step_at X pi Trim_over w = Inr (Trim_over, w)"

text \<open>The places of the block that holds \<open>m_mutex\<close>, and those behind a failed test of the loop.\<close>

fun in_trim :: "trim_place \<Rightarrow> bool" where
  "in_trim Trim_pretest = False"
| "in_trim Trim_wait = False"
| "in_trim Trim_over = False"
| "in_trim _ = True"

section \<open>The calls\<close>

datatype request =
    A_read int int int "byte list"
  | A_readv "iovec_t list" int int
  | A_writev "iovec_t list" int int
  | A_set_memory_size int
  | An_update_reader_pieces "int list"
  | An_update_reserved_pieces "int list"

datatype place =
    Begin
  | Getting gb_pc
  | Reading read_pc "byte list"
  | Scattering readv_pc
  | Writing write_pc
  | Trimming trim_place
  | Resize_wait
  | Resizing
  | Range_wait
  | Ranging reserve_pc
  | Finish

fun read_at ::
  "('b, 't) ext \<Rightarrow> int \<Rightarrow> int \<Rightarrow> int \<Rightarrow> byte list \<Rightarrow> place \<Rightarrow> ('b, 't) world \<Rightarrow> ub + place \<times> ('b, 't) world" where
  "read_at X sz piece offset read_buf Begin w =
     Inr (if is_initialized w then (Getting Fast_test, w\<lparr>is_reading := True\<rparr>) else (Finish, w))"
| "read_at X sz piece offset read_buf (Getting pc) w =
     (case pc of
        Returned ok \<Rightarrow> if ok then Inr (Reading Measure read_buf, w)
          else bindE (restore_piece X piece w) (\<lambda>w. Inr (Finish, w))
      | _ \<Rightarrow> bindE (gb_step X piece False pc w) (\<lambda>(pc, w). Inr (Getting pc, w)))"
| "read_at X sz piece offset read_buf (Reading pc buf) w =
     (case pc of
        Finished n \<Rightarrow> Inr (Finish, w)
      | _ \<Rightarrow> bindE (read_step X sz piece offset pc buf w) (\<lambda>(pc, buf, w). Inr (Reading pc buf, w)))"
| "read_at X sz piece offset read_buf _ w = Inr (Finish, w)"

fun readv_at ::
  "('b, 't) ext \<Rightarrow> iovec_t list \<Rightarrow> int \<Rightarrow> int \<Rightarrow> place \<Rightarrow> ('b, 't) world \<Rightarrow> ub + place \<times> ('b, 't) world" where
  "readv_at X bufs piece offset Begin w = Inr (if is_initialized w then Getting Fast_test else Finish, w)"
| "readv_at X bufs piece offset (Getting pc) w =
     (case pc of
        Returned ok \<Rightarrow> Inr (if ok then Scattering (Fill [] bufs offset 0) else Finish, w)
      | _ \<Rightarrow> bindE (gb_step X piece False pc w) (\<lambda>(pc, w). Inr (Getting pc, w)))"
| "readv_at X bufs piece offset (Scattering pc) w =
     (case readv_step X bufs piece offset pc w of
        Some (Inr (Filled bufs' n, w)) \<Rightarrow> Inr (Finish, w)
      | Some (Inr (pc, w)) \<Rightarrow> Inr (Scattering pc, w)
      | Some (Inl e) \<Rightarrow> Inl e
      | None \<Rightarrow> Inr (Finish, w))"
| "readv_at X bufs piece offset _ w = Inr (Finish, w)"

fun writev_at ::
  "('b, 't) ext \<Rightarrow> iovec_t list \<Rightarrow> int \<Rightarrow> int \<Rightarrow> place \<Rightarrow> ('b, 't) world \<Rightarrow> ub + place \<times> ('b, 't) world" where
  "writev_at X bufs piece offset Begin w = Inr (if is_initialized w then Getting Fast_test else Finish, w)"
| "writev_at X bufs piece offset (Getting pc) w =
     (case pc of
        Returned ok \<Rightarrow> Inr (if ok then Writing (Store bufs offset 0) else Finish, w)
      | _ \<Rightarrow> bindE (gb_step X piece True pc w) (\<lambda>(pc, w). Inr (Getting pc, w)))"
| "writev_at X bufs piece offset (Writing pc) w =
     (case pc of
        Obtain \<Rightarrow> Inr (Getting Fast_test, w)
      | Shrink n \<Rightarrow> Inr (Trimming Trim_pretest, w)
      | Written n \<Rightarrow> Inr (Finish, w)
      | _ \<Rightarrow> (case write_step X bufs piece offset pc w of
          Some r \<Rightarrow> bindE r (\<lambda>(pc, w). Inr (Writing pc, w))
        | None \<Rightarrow> Inr (Finish, w)))"
| "writev_at X bufs piece offset (Trimming tp) w =
     (case tp of
        Trim_over \<Rightarrow> Inr (Finish, w)
      | _ \<Rightarrow> bindE (trim_step_at X piece tp w) (\<lambda>(tp, w). Inr (Trimming tp, w)))"
| "writev_at X bufs piece offset _ w = Inr (Finish, w)"

fun set_memory_size_at :: "int \<Rightarrow> place \<Rightarrow> ('b, 't) world \<Rightarrow> ub + place \<times> ('b, 't) world" where
  "set_memory_size_at s Begin w = Inr (if s \<le> capacity w then Finish else Resize_wait, w)"
| "set_memory_size_at s Resize_wait w = Inr (Resizing, w)"
| "set_memory_size_at s Resizing w = bindE (resize_pool s w) (\<lambda>w. Inr (Finish, w))"
| "set_memory_size_at s _ w = Inr (Finish, w)"

fun update_reader_at ::
  "('b, 't) ext \<Rightarrow> int list \<Rightarrow> place \<Rightarrow> ('b, 't) world \<Rightarrow> ub + place \<times> ('b, 't) world" where
  "update_reader_at X ps Begin w = Inr (if is_initialized w then Range_wait else Finish, w)"
| "update_reader_at X ps Range_wait w = Inr (Ranging Clear, w)"
| "update_reader_at X ps (Ranging pc) w = bindE (update_reader_pieces X ps w) (\<lambda>w. Inr (Finish, w))"
| "update_reader_at X ps _ w = Inr (Finish, w)"

fun update_reserved_at ::
  "('b, 't) ext \<Rightarrow> int list \<Rightarrow> place \<Rightarrow> ('b, 't) world \<Rightarrow> ub + place \<times> ('b, 't) world" where
  "update_reserved_at X ps Begin w = Inr (if is_initialized w then Range_wait else Finish, w)"
| "update_reserved_at X ps Range_wait w = Inr (Ranging Clear, w)"
| "update_reserved_at X ps (Ranging pc) w =
     (case reserve_step X ps pc w of
        Some (Inr (Reserved, w)) \<Rightarrow> Inr (Finish, w)
      | Some (Inr (pc, w)) \<Rightarrow> Inr (Ranging pc, w)
      | Some (Inl e) \<Rightarrow> Inl e
      | None \<Rightarrow> Inr (Finish, w))"
| "update_reserved_at X ps _ w = Inr (Finish, w)"

fun step_at ::
  "('b, 't) ext \<Rightarrow> request \<Rightarrow> place \<Rightarrow> ('b, 't) world \<Rightarrow> ub + place \<times> ('b, 't) world" where
  "step_at X (A_read sz piece offset buf) = read_at X sz piece offset buf"
| "step_at X (A_readv bufs piece offset) = readv_at X bufs piece offset"
| "step_at X (A_writev bufs piece offset) = writev_at X bufs piece offset"
| "step_at X (A_set_memory_size s) = set_memory_size_at s"
| "step_at X (An_update_reader_pieces ps) = update_reader_at X ps"
| "step_at X (An_update_reserved_pieces ps) = update_reserved_at X ps"

section \<open>The threads and the mutexes\<close>

fun wants_m :: "place \<Rightarrow> bool" where
  "wants_m (Getting pc) = (pc = Wait)"
| "wants_m (Trimming tp) = (tp = Trim_wait)"
| "wants_m Resize_wait = True"
| "wants_m _ = False"

fun holds_m :: "place \<Rightarrow> bool" where
  "holds_m (Getting pc) = locked pc"
| "holds_m (Trimming tp) = in_trim tp"
| "holds_m Resizing = True"
| "holds_m _ = False"

fun wants_r :: "place \<Rightarrow> bool" where
  "wants_r (Trimming (Seek_wait check_read t)) = True"
| "wants_r Range_wait = True"
| "wants_r _ = False"

fun holds_r :: "place \<Rightarrow> bool" where
  "holds_r (Trimming (Seek_in check_read t)) = True"
| "holds_r (Ranging pc) = True"
| "holds_r _ = False"

record ('b, 't) system =
  stands :: "nat \<Rightarrow> place"
  m_owner :: "nat option"
  r_owner :: "nat option"
  memory :: "('b, 't) world"

text \<open>A thread is blocked only while it waits for a mutex that is owned.\<close>

definition may_go :: "nat \<Rightarrow> ('b, 't) system \<Rightarrow> bool" where
  "may_go i s \<longleftrightarrow> stands s i \<noteq> Finish \<and> (wants_m (stands s i) \<longrightarrow> m_owner s = None) \<and>
     (wants_r (stands s i) \<longrightarrow> r_owner s = None)"

text \<open>Who enters a block that holds a mutex becomes its owner; who leaves the block gives it back.\<close>

definition handed :: "bool \<Rightarrow> bool \<Rightarrow> nat \<Rightarrow> nat option \<Rightarrow> nat option" where
  "handed had has i holder = (if has then Some i else if had then None else holder)"

definition go ::
  "('b, 't) ext \<Rightarrow> (nat \<Rightarrow> request) \<Rightarrow> nat \<Rightarrow> ('b, 't) system \<Rightarrow> (ub + ('b, 't) system) option" where
  "go X calls i s =
     Some (bindE (step_at X (calls i) (stands s i) (memory s)) (\<lambda>(pl, w).
       Inr \<lparr>stands = (stands s)(i := pl),
            m_owner = handed (holds_m (stands s i)) (holds_m pl) i (m_owner s),
            r_owner = handed (holds_r (stands s i)) (holds_r pl) i (r_owner s), memory = w\<rparr>))"

definition all_begin :: "('b, 't) world \<Rightarrow> ('b, 't) system" where
  "all_begin w = \<lparr>stands = (\<lambda>i. Begin), m_owner = None, r_owner = None, memory = w\<rparr>"

abbreviation "thread_run X calls \<equiv> calls_to may_go (go X calls)"

section \<open>Each mutex has one owner\<close>

lemma gb_step_lock: "gb_step X pz wr pc w = Inr (pc', w') \<Longrightarrow> locked pc' \<Longrightarrow> locked pc \<or> pc = Wait"
  by (cases pc) (auto simp: bindE_eq_Inr split: if_splits)

lemma trim_step_at_locks:
  assumes "trim_step_at X pi tp w = Inr (tp', w')"
  shows "(in_trim tp' \<longrightarrow> in_trim tp \<or> tp = Trim_wait) \<and>
    (holds_r (Trimming tp') \<longrightarrow> (\<exists>c t. tp = Seek_wait c t))"
  using assms by (cases tp) (auto simp: bindE_eq_Inr now_def split: if_splits)

text \<open>From one place to the next a thread comes to hold a mutex only where it waited for it.\<close>

definition takes_turns :: "place \<Rightarrow> place \<Rightarrow> bool" where
  "takes_turns pl pl' \<longleftrightarrow> (holds_m pl' \<longrightarrow> holds_m pl \<or> wants_m pl) \<and> (holds_r pl' \<longrightarrow> holds_r pl \<or> wants_r pl)"

lemma takes_turns_Getting: "gb_step X pz wr pc w = Inr (pc', w') \<Longrightarrow> takes_turns (Getting pc) (Getting pc')"
  using gb_step_lock by (fastforce simp: takes_turns_def)

lemma takes_turns_Trimming: "trim_step_at X pi tp w = Inr (tp', w') \<Longrightarrow> takes_turns (Trimming tp) (Trimming tp')"
  using trim_step_at_locks by (fastforce simp: takes_turns_def)

lemma takes_turns_free [simp]:
  "takes_turns pl Finish" "takes_turns pl Begin" "takes_turns pl (Getting Fast_test)" "takes_turns pl (Reading rpc buf)"
  "takes_turns pl (Scattering spc)" "takes_turns pl (Writing wpc)" "takes_turns pl (Trimming Trim_pretest)"
  "takes_turns pl Resize_wait" "takes_turns pl Range_wait"
  "takes_turns Resize_wait Resizing" "takes_turns Range_wait (Ranging pc)" "takes_turns (Ranging pc') (Ranging pc)"
  by (simp_all add: takes_turns_def)

lemma reading_takes_turns: "read_at X sz piece offset buf pl w = Inr (pl', w') \<Longrightarrow> takes_turns pl pl'"
proof (cases pl)
  case (Getting pc)
  then show "read_at X sz piece offset buf pl w = Inr (pl', w') \<Longrightarrow> ?thesis"
    by (cases pc) (auto simp: bindE_eq_Inr simp del: gb_step.simps intro: takes_turns_Getting split: if_splits)
qed (auto simp: bindE_eq_Inr split: if_splits read_pc.splits simp del: read_step.simps)

lemma scattering_takes_turns: "readv_at X bufs piece offset pl w = Inr (pl', w') \<Longrightarrow> takes_turns pl pl'"
proof (cases pl)
  case (Getting pc)
  then show "readv_at X bufs piece offset pl w = Inr (pl', w') \<Longrightarrow> ?thesis"
    by (cases pc) (auto simp: bindE_eq_Inr simp del: gb_step.simps intro: takes_turns_Getting split: if_splits)
qed (auto split: if_splits readv_pc.splits option.splits sum.splits simp del: readv_step.simps)

lemma writing_takes_turns: "writev_at X bufs piece offset pl w = Inr (pl', w') \<Longrightarrow> takes_turns pl pl'"
proof (cases pl)
  case (Getting pc)
  then show "writev_at X bufs piece offset pl w = Inr (pl', w') \<Longrightarrow> ?thesis"
    by (cases pc) (auto simp: bindE_eq_Inr simp del: gb_step.simps intro: takes_turns_Getting split: if_splits)
next
  case (Trimming tp)
  then show "writev_at X bufs piece offset pl w = Inr (pl', w') \<Longrightarrow> ?thesis"
    by (cases tp) (auto simp: bindE_eq_Inr simp del: trim_step_at.simps intro: takes_turns_Trimming)
qed (auto simp: bindE_eq_Inr split: if_splits write_pc.splits option.splits sum.splits simp del: write_step.simps)

lemma step_takes_turns: "step_at X rq pl w = Inr (pl', w') \<Longrightarrow> takes_turns pl pl'"
proof (cases rq)
  case (A_set_memory_size m)
  then show "step_at X rq pl w = Inr (pl', w') \<Longrightarrow> ?thesis"
    by (cases pl) (auto simp: bindE_eq_Inr split: if_splits)
next
  case (An_update_reader_pieces ps)
  then show "step_at X rq pl w = Inr (pl', w') \<Longrightarrow> ?thesis"
    by (cases pl) (auto simp: bindE_eq_Inr split: if_splits)
next
  case (An_update_reserved_pieces ps)
  then show "step_at X rq pl w = Inr (pl', w') \<Longrightarrow> ?thesis"
    by (cases pl) (auto split: if_splits reserve_pc.splits option.splits sum.splits simp del: reserve_step.simps)
qed (simp_all add: reading_takes_turns scattering_takes_turns writing_takes_turns)

definition owned :: "(place \<Rightarrow> bool) \<Rightarrow> (nat \<Rightarrow> place) \<Rightarrow> nat option \<Rightarrow> bool" where
  "owned holds pls holder \<longleftrightarrow> (\<forall>i. holds (pls i) \<longleftrightarrow> holder = Some i)"

lemma owned_handed:
  assumes "owned holds pls holder" "holds pl \<longrightarrow> holds (pls i) \<or> holder = None"
  shows "owned holds (pls(i := pl)) (handed (holds (pls i)) (holds pl) i holder)"
  using assms by (auto simp: owned_def handed_def)

definition exclusive :: "('b, 't) system \<Rightarrow> bool" where
  "exclusive s \<longleftrightarrow> owned holds_m (stands s) (m_owner s) \<and> owned holds_r (stands s) (r_owner s)"

lemma go_InrE:
  assumes "go X calls i s = Some (Inr s')"
  obtains pl w where "step_at X (calls i) (stands s i) (memory s) = Inr (pl, w)"
    "stands s' = (stands s)(i := pl)" "memory s' = w"
    "m_owner s' = handed (holds_m (stands s i)) (holds_m pl) i (m_owner s)"
    "r_owner s' = handed (holds_r (stands s i)) (holds_r pl) i (r_owner s)"
  using assms by (auto simp: go_def bindE_eq_Inr)

lemma exclusive_go:
  assumes s: "exclusive s" "may_go i s" "go X calls i s = Some (Inr s')"
  shows "exclusive s'"
  using s(3)
proof (cases rule: go_InrE)
  case (1 pl w)
  have "takes_turns (stands s i) pl" by (rule step_takes_turns [OF 1(1)])
  then show ?thesis
    using s(1,2) 1 by (auto simp: exclusive_def takes_turns_def may_go_def intro!: owned_handed)
qed

interpretation mutexes: keeps_invariant exclusive may_go "go X calls" for X calls
  by unfold_locales (rule exclusive_go)

lemma exclusive_start: "exclusive (all_begin w)"
  by (simp add: exclusive_def owned_def all_begin_def)

section \<open>No deadlock\<close>

definition inside :: "place \<Rightarrow> bool" where
  "inside pl \<longleftrightarrow> pl \<noteq> Begin \<and> pl \<noteq> Finish"

lemma holder_goes:
  "holds_r pl \<Longrightarrow> inside pl \<and> \<not> wants_m pl \<and> \<not> wants_r pl" "holds_m pl \<Longrightarrow> inside pl \<and> \<not> wants_m pl"
  by (cases pl rule: holds_r.cases; simp add: inside_def)
    (cases pl; auto simp: inside_def)

text \<open>C16 The two mutexes exclude and do not deadlock. However many threads make whatever calls of the
  storage and wherever they have got to, at most one of them is inside a block that holds
  \<open>m_mutex\<close> and at most one inside a block that holds \<open>r_mutex\<close>, and as long as one of them is in
  the middle of a call, some thread that is in the middle of a call is not blocked: the one that
  holds \<open>r_mutex\<close> waits for nothing, and the one that holds \<open>m_mutex\<close> waits for nothing but
  \<open>r_mutex\<close>. That a call comes to its end is not said, and it need not.\<close>

theorem mutexes_never_deadlock:
  assumes run: "thread_run X calls (all_begin w) s"
  shows "(holds_m (stands s i) \<and> holds_m (stands s j) \<longrightarrow> i = j) \<and>
    (holds_r (stands s i) \<and> holds_r (stands s j) \<longrightarrow> i = j) \<and>
    (inside (stands s i) \<longrightarrow> (\<exists>l. inside (stands s l) \<and> may_go l s))"
proof -
  have e: "exclusive s" by (rule mutexes.kept_by_runs [OF run exclusive_start])
  have "\<exists>l. inside (stands s l) \<and> may_go l s" if i: "inside (stands s i)"
  proof (cases "r_owner s")
    case (Some l)
    then have "holds_r (stands s l)" using e by (simp add: exclusive_def owned_def)
    then show ?thesis using holder_goes(1) by (auto simp: may_go_def inside_def intro!: exI [of _ l])
  next
    case r: None
    show ?thesis
    proof (cases "m_owner s")
      case (Some l)
      then have "holds_m (stands s l)" using e by (simp add: exclusive_def owned_def)
      then show ?thesis using holder_goes(2) r by (auto simp: may_go_def inside_def intro!: exI [of _ l])
    next
      case None
      then show ?thesis using i r by (auto simp: may_go_def inside_def)
    qed
  qed
  then show ?thesis using e by (auto simp: exclusive_def owned_def)
qed

text \<open>A writer about to trim, a resize behind it, and a call inside \<open>r_mutex\<close>.\<close>

definition demo_threads :: "nat \<Rightarrow> request" where
  "demo_threads i = (if i = 0 then A_writev [iov [1, 2]] 0 1 else if i = 1 then A_set_memory_size 200
     else An_update_reserved_pieces [])"

definition demo_blocked :: "nat list" where
  "demo_blocked = 1 # replicate 17 0 @ [2, 2]"

lemma demo_mutexes:
  "case performed may_go (go demo_ext demo_threads) demo_blocked (all_begin (demo_world 1 100)) of
     Some s \<Rightarrow> stands s 0 = Trimming Trim_wait \<and> stands s 1 = Resize_wait \<and> stands s 2 = Ranging Clear
   | None \<Rightarrow> False"
  by code_simp

lemma mutexes_never_deadlock_witness:
  "\<exists>s. stands s 0 = Trimming Trim_wait \<and> stands s 1 = Resize_wait \<and>
     thread_run demo_ext demo_threads (all_begin (demo_world 1 100)) s \<and> (\<exists>l. inside (stands s l) \<and> may_go l s)"
proof -
  obtain s where s: "performed may_go (go demo_ext demo_threads) demo_blocked (all_begin (demo_world 1 100)) = Some s"
    "stands s 0 = Trimming Trim_wait" "stands s 1 = Resize_wait"
    using demo_mutexes by (auto split: option.splits simp del: performed.simps One_nat_def)
  have run: "thread_run demo_ext demo_threads (all_begin (demo_world 1 100)) s"
    by (rule performed_calls [OF s(1) calls_to.no_call])
  show ?thesis using mutexes_never_deadlock [OF run, of 0 0] s(2,3) run by (auto simp: inside_def)
qed

section \<open>A torrent of one piece\<close>

text \<open>Whatever the threads do, every lent buffer holds the one piece.\<close>

definition one_piece :: "('b, 't) world \<Rightarrow> bool" where
  "one_piece w \<longleftrightarrow> length (pieces w) = 1 \<and> mp_index (pieces w ! 0) = 0 \<and>
     (\<forall>b\<in>set (buffers w). mb_is_used b \<longrightarrow> mb_pi b = 0)"

lemma one_piece_frame:
  "pieces w' = pieces w \<Longrightarrow> buffers w' = buffers w \<Longrightarrow> one_piece w' = one_piece w"
  by (simp add: one_piece_def)












































end
