(* ===== verification/Torrent_Params.thy ===== *)
theory Torrent_Params
  imports Sample
begin

text \<open>
  How a storage in memory is asked for and obtained (interfaces/add_torrent_params.i,
  interfaces/torrent_handle.i): \<open>set_memory_storage\<close> puts the requested size into the global
  \<open>memory_size\<close> and the storage constructor into the parameters of one torrent; libtorrent calls
  the constructor later, when it sets up that torrent's storage, and the constructor reads the
  global then (memory_storage.hpp); \<open>get_memory_storage\<close> casts whatever storage the torrent has.
\<close>

section \<open>Parameters, the global, construction\<close>

text \<open>A torrent's storage is of the class its parameters' constructor makes.\<close>

datatype 'b storage_impl = Memory "'b memory_storage" | Other_storage

record 'b process =
  memory_size :: int
  wants_memory :: "nat \<Rightarrow> bool"
  storages :: "(nat \<times> 'b storage_impl) list"

text \<open>The parameters of torrent \<open>p\<close>; their \<open>storage\<close> member is the memory constructor or not.\<close>

definition set_memory_storage :: "nat \<Rightarrow> int \<Rightarrow> 'b process \<Rightarrow> 'b process" where
  "set_memory_storage p sz g = g\<lparr>memory_size := sz, wants_memory := (wants_memory g)(p := True)\<rparr>"

definition memory_storage_constructor ::
  "('b, 't) ext \<Rightarrow> torrent_info \<Rightarrow> 'b process \<Rightarrow> ub + 'b memory_storage" where
  "memory_storage_constructor X ti g = new_memory_storage X (memory_size g) ti"

datatype setup_event = Set_size nat int | Construct nat torrent_info

fun setup_step :: "('b, 't) ext \<Rightarrow> setup_event \<Rightarrow> 'b process \<Rightarrow> ub + 'b process" where
  "setup_step X (Set_size p sz) g = Inr (set_memory_storage p sz g)"
| "setup_step X (Construct p ti) g =
     bindE (if wants_memory g p then bindE (memory_storage_constructor X ti g) (\<lambda>s. Inr (Memory s))
            else Inr Other_storage) (\<lambda>s.
       Inr (g\<lparr>storages := (p, s) # storages g\<rparr>))"

fun setup_run :: "('b, 't) ext \<Rightarrow> setup_event list \<Rightarrow> 'b process \<Rightarrow> ub + 'b process" where
  "setup_run X [] g = Inr g"
| "setup_run X (e # es) g = bindE (setup_step X e g) (setup_run X es)"

text \<open>
  \<open>(memory_storage*) self->get_storage_impl()\<close>: the cast is not checked, and is undefined when the
  object is of another class; a torrent without storage gives the null pointer.
\<close>

definition get_memory_storage :: "nat \<Rightarrow> 'b process \<Rightarrow> ub + 'b memory_storage option" where
  "get_memory_storage t g =
     (case map_of (storages g) t of
        None \<Rightarrow> Inr None
      | Some (Memory s) \<Rightarrow> Inr (Some s)
      | Some Other_storage \<Rightarrow> Inl Wrong_Type)"

section \<open>The global is shared\<close>

lemma setup_run_append: "setup_run X (es @ es') g = bindE (setup_run X es g) (setup_run X es')"
  by (induction es arbitrary: g) (auto simp: bindE_def split: sum.splits)

fun is_construct :: "setup_event \<Rightarrow> bool" where
  "is_construct (Construct p ti) = True"
| "is_construct (Set_size p sz) = False"

lemma constructs_keep_size:
  "list_all is_construct es \<Longrightarrow> setup_run X es g = Inr g' \<Longrightarrow>
     memory_size g' = memory_size g \<and> wants_memory g' = wants_memory g"
proof (induction es arbitrary: g)
  case Nil
  then show ?case by simp
next
  case (Cons e es)
  then obtain g1 where "setup_step X e g = Inr g1" "setup_run X es g1 = Inr g'"
    by (auto simp: bindE_eq_Inr)
  moreover have "memory_size g1 = memory_size g \<and> wants_memory g1 = wants_memory g"
    using calculation(1) Cons.prems(1) by (cases e) (auto simp: bindE_eq_Inr split: if_splits)
  ultimately show ?case using Cons by auto
qed

lemma wants_iff:
  "setup_run X es g = Inr g' \<Longrightarrow> wants_memory g' q = (wants_memory g q \<or> (\<exists>sz. Set_size q sz \<in> set es))"
proof (induction es arbitrary: g)
  case Nil
  then show ?case by simp
next
  case (Cons e es)
  then obtain g1 where "setup_step X e g = Inr g1" "setup_run X es g1 = Inr g'"
    by (auto simp: bindE_eq_Inr)
  moreover have "wants_memory g1 q = (wants_memory g q \<or> (\<exists>sz. e = Set_size q sz))"
    using calculation(1) by (cases e) (auto simp: set_memory_storage_def bindE_eq_Inr)
  ultimately show ?case using Cons.IH by auto
qed

lemma constructed_capacity: "new_memory_storage X mem ti = Inr s \<Longrightarrow> capacity s = mem"
  by (auto simp: new_memory_storage_def Let_def bindE_eq_Inr)

text \<open>C34 The last size set wins for every torrent: a storage constructed for any parameters gets the
  capacity of the most recent \<open>set_memory_storage\<close> of the whole process, not the size that was
  set for its own parameters. A torrent for which none was ever asked has a storage of another
  class, and \<open>get_memory_storage\<close> of it is undefined.\<close>

theorem last_memory_size_wins:
  assumes run: "setup_run X (es @ [Set_size p sz] @ cs @ [Construct q ti]) g = Inr g'"
    and cs: "list_all is_construct cs"
  shows "if q = p \<or> wants_memory g q \<or> (\<exists>own. Set_size q own \<in> set es)
    then \<exists>s. get_memory_storage q g' = Inr (Some s) \<and> capacity s = sz
    else get_memory_storage q g' = Inl Wrong_Type"
proof -
  obtain g1 where g1: "setup_run X es g = Inr g1"
    and rest: "setup_run X (cs @ [Construct q ti]) (set_memory_storage p sz g1) = Inr g'"
    using run by (auto simp: setup_run_append bindE_eq_Inr)
  obtain g3 where g3: "setup_run X cs (set_memory_storage p sz g1) = Inr g3"
    and last: "setup_step X (Construct q ti) g3 = Inr g'"
    using rest by (auto simp: setup_run_append bindE_eq_Inr)
  have k: "memory_size g3 = sz" "wants_memory g3 = (wants_memory g1)(p := True)"
    using constructs_keep_size [OF cs g3] by (auto simp: set_memory_storage_def)
  have asked: "wants_memory g3 q = (q = p \<or> wants_memory g q \<or> (\<exists>own. Set_size q own \<in> set es))"
    using wants_iff [OF g1, of q] k(2) by auto
  show ?thesis
  proof (cases "wants_memory g3 q")
    case True
    then obtain s where "new_memory_storage X sz ti = Inr s" "g' = g3\<lparr>storages := (q, Memory s) # storages g3\<rparr>"
      using last k(1) by (auto simp: bindE_eq_Inr memory_storage_constructor_def)
    then have "get_memory_storage q g' = Inr (Some s) \<and> capacity s = sz"
      using constructed_capacity by (simp add: get_memory_storage_def)
    then show ?thesis using True asked by simp
  next
    case False
    then have "get_memory_storage q g' = Inl Wrong_Type" using last by (auto simp: get_memory_storage_def)
    then show ?thesis using False asked by simp
  qed
qed

lemma last_memory_size_wins_witness:
  "\<exists>s g' g''. setup_run demo_ext [Set_size 0 100, Set_size 1 8, Construct 0 (demo_info 4)]
      \<lparr>memory_size = 0, wants_memory = (\<lambda>_. False), storages = []\<rparr> = Inr g' \<and>
    get_memory_storage 0 g' = Inr (Some s) \<and> capacity s = 8 \<and>
    setup_run demo_ext [Set_size 1 8, Construct 2 (demo_info 4)]
      \<lparr>memory_size = 0, wants_memory = (\<lambda>_. False), storages = []\<rparr> = Inr g'' \<and>
    get_memory_storage 2 g'' = Inl Wrong_Type"
proof -
  let ?g = "\<lparr>memory_size = 0, wants_memory = (\<lambda>_. False), storages = []\<rparr> :: bool list process"
  obtain g' where g': "setup_run demo_ext [Set_size 0 100, Set_size 1 8, Construct 0 (demo_info 4)] ?g = Inr g'"
    using demo_constructed [of 4 8] by (simp add: set_memory_storage_def memory_storage_constructor_def)
  obtain g'' where g'': "setup_run demo_ext [Set_size 1 8, Construct 2 (demo_info 4)] ?g = Inr g''"
    by (simp add: set_memory_storage_def)
  have "\<exists>s. get_memory_storage 0 g' = Inr (Some s) \<and> capacity s = 8"
    using last_memory_size_wins [of demo_ext "[Set_size 0 100]" 1 8 "[]" 0 "demo_info 4" ?g g'] g'
    by (auto split: if_splits)
  moreover have "get_memory_storage 2 g'' = Inl Wrong_Type"
    using last_memory_size_wins [of demo_ext "[]" 1 8 "[]" 2 "demo_info 4" ?g g''] g'' by simp
  ultimately show ?thesis using g' g'' by blast
qed

end
