(* ===== verification/Shared_Infos.thy ===== *)
theory Shared_Infos
  imports Runs
begin

text \<open>
  Who owns a \<open>torrent_info\<close> (interfaces/add_torrent_params.i, interfaces/torrent_handle.i). The
  parameters of a torrent and the torrents of the session hold it by \<open>boost::shared_ptr\<close>; the
  bindings hand the client the bare pointer.
\<close>

section \<open>Objects with counted owners\<close>

text \<open>
  The address of an object is its position; an object without owners is deleted, and its address
  is not used again, so that an old pointer to it stays recognizable.
\<close>

type_synonym 'o counted = "('o \<times> nat) list"

definition object :: "'o counted \<Rightarrow> nat \<Rightarrow> ub + 'o" where
  "object h a = (if a < length h \<and> 0 < snd (h ! a) then Inr (fst (h ! a)) else Inl Use_After_Free)"

definition make_shared :: "'o \<Rightarrow> 'o counted \<Rightarrow> nat option \<times> 'o counted" where
  "make_shared x h = (Some (length h), h @ [(x, 1)])"

definition recount :: "(nat \<Rightarrow> nat) \<Rightarrow> nat option \<Rightarrow> 'o counted \<Rightarrow> 'o counted" where
  "recount f p h = (case p of None \<Rightarrow> h | Some a \<Rightarrow> h[a := (fst (h ! a), f (snd (h ! a)))])"

text \<open>A copy of a \<open>shared_ptr\<close> is made, one is destroyed.\<close>

abbreviation share :: "nat option \<Rightarrow> 'o counted \<Rightarrow> 'o counted" where
  "share \<equiv> recount Suc"

abbreviation unshare :: "nat option \<Rightarrow> 'o counted \<Rightarrow> 'o counted" where
  "unshare \<equiv> recount (\<lambda>n. n - Suc 0)"

section \<open>The holders and the bindings\<close>

datatype holder = Params nat | In_session nat

record 'o sharing =
  infos :: "'o counted"
  held :: "holder \<Rightarrow> nat option"

text \<open>Assignment of a \<open>shared_ptr\<close>: the new object gains an owner before the old one loses it.\<close>

definition assign :: "holder \<Rightarrow> nat option \<Rightarrow> 'o sharing \<Rightarrow> 'o sharing" where
  "assign k p s = s\<lparr>infos := unshare (held s k) (share p (infos s)), held := (held s)(k := p)\<rparr>"

definition set_torrent_info :: "nat \<Rightarrow> 'o \<Rightarrow> 'o sharing \<Rightarrow> 'o sharing" where
  "set_torrent_info k torrent_info s =
     (let (ptr, h) = make_shared torrent_info (infos s);
          s = assign (Params k) ptr (s\<lparr>infos := h\<rparr>)
      in s\<lparr>infos := unshare ptr (infos s)\<rparr>)"

definition get_torrent_info :: "nat \<Rightarrow> 'o sharing \<Rightarrow> nat option" where
  "get_torrent_info k s = held s (Params k)"

text \<open>
  libtorrent answers \<open>torrent_file\<close> with a \<open>shared_ptr\<close> to the torrent's own object or, as its
  documentation allows, to a copy of it; the binding returns \<open>get()\<close> of that temporary.
\<close>

definition torrent_file :: "bool \<Rightarrow> nat \<Rightarrow> 'o sharing \<Rightarrow> nat option \<times> 'o sharing" where
  "torrent_file copied t s =
     (let (temporary, h) =
        (case held s (In_session t) of
           None \<Rightarrow> (None, infos s)
         | Some a \<Rightarrow>
             if copied then make_shared (fst (infos s ! a)) (infos s)
             else (Some a, share (Some a) (infos s)))
      in (temporary, s\<lparr>infos := unshare temporary h\<rparr>))"

text \<open>
  What happens to the objects in the course of a program: besides the bindings, a torrent that is
  added takes over the pointer of its parameters, and parameters are deleted and torrents
  removed.
\<close>

datatype 'o info_event =
    Set_torrent_info nat 'o
  | Torrent_file bool nat
  | Add_torrent nat nat
  | Destroy holder

fun info_step :: "'o info_event \<Rightarrow> 'o sharing \<Rightarrow> (ub + 'o sharing) option" where
  "info_step (Set_torrent_info k x) s = Some (Inr (set_torrent_info k x s))"
| "info_step (Torrent_file copied t) s = Some (Inr (snd (torrent_file copied t s)))"
| "info_step (Add_torrent k t) s = Some (Inr (assign (In_session t) (held s (Params k)) s))"
| "info_step (Destroy k) s = Some (Inr (assign k None s))"

definition no_infos :: "'o sharing" where
  "no_infos = \<lparr>infos = [], held = (\<lambda>_. None)\<rparr>"

section \<open>The counts are exact\<close>

definition owners :: "'o sharing \<Rightarrow> nat \<Rightarrow> holder set" where
  "owners s a = {k. held s k = Some a}"

text \<open>The count of an object is the number of its holders, and one more for a temporary to it.\<close>

definition counted :: "nat option \<Rightarrow> 'o sharing \<Rightarrow> bool" where
  "counted tmp s \<longleftrightarrow> finite {k. held s k \<noteq> None} \<and>
     (\<forall>k a. held s k = Some a \<or> tmp = Some a \<longrightarrow> a < length (infos s)) \<and>
     (\<forall>a < length (infos s). snd (infos s ! a) = card (owners s a) + (if tmp = Some a then 1 else 0))"

lemma countedD:
  assumes "counted tmp s"
  shows "finite {k. held s k \<noteq> None}" "held s k = Some a \<or> tmp = Some a \<Longrightarrow> a < length (infos s)"
    "a < length (infos s) \<Longrightarrow> snd (infos s ! a) = card (owners s a) + (if tmp = Some a then 1 else 0)"
  using assms unfolding counted_def by blast+

lemma finite_owners: "counted tmp s \<Longrightarrow> finite (owners s a)"
  by (rule finite_subset [OF _ countedD(1)]) (auto simp: owners_def)

lemma object_owned:
  assumes c: "counted None s"
  shows "(\<exists>x. object (infos s) a = Inr x) \<longleftrightarrow> owners s a \<noteq> {}"
proof (cases "a < length (infos s)")
  case True
  then show ?thesis using countedD(3) [OF c True] finite_owners [OF c, of a] by (simp add: object_def card_gt_0_iff)
next
  case False
  then show ?thesis using countedD(2) [OF c, of _ a] by (auto simp: object_def owners_def)
qed

lemma length_recount [simp]: "length (recount f p h) = length h"
  by (simp add: recount_def split: option.split)

lemma fst_recount [simp]: "fst (recount f p h ! a) = fst (h ! a)"
  by (cases p; cases "the p = a"; cases "a < length h") (simp_all add: recount_def list_update_beyond)

lemma snd_recount:
  "a < length h \<Longrightarrow> snd (recount f p h ! a) = (if p = Some a then f (snd (h ! a)) else snd (h ! a))"
  by (cases p) (auto simp: recount_def nth_list_update)

lemma unshare_share: "unshare p (share p h) = h"
  by (rule nth_equalityI) (simp_all add: prod_eq_iff snd_recount)

lemma card_owners_upd:
  assumes "counted tmp s"
  shows "card (owners (s\<lparr>infos := h, held := (held s)(k := p)\<rparr>) a) + (if held s k = Some a then 1 else 0) =
    card (owners s a) + (if p = Some a then 1 else 0)"
proof -
  define rest where "rest = owners s a - {k}"
  have "finite rest" "k \<notin> rest" using finite_owners [OF assms] by (auto simp: rest_def)
  then have c: "card (insert k rest) = card rest + 1" by simp
  have "owners s a = (if held s k = Some a then insert k rest else rest)"
    "owners (s\<lparr>infos := h, held := (held s)(k := p)\<rparr>) a = (if p = Some a then insert k rest else rest)"
    by (auto simp: owners_def rest_def)
  then show ?thesis using c by auto
qed

lemma counted_assign:
  assumes c: "counted tmp s" and p: "\<And>a. p = Some a \<Longrightarrow> a < length (infos s)"
  shows "counted tmp (assign k p s)"
proof -
  let ?h = "unshare (held s k) (share p (infos s))"
  have "snd (?h ! a) = card (owners (assign k p s) a) + (if tmp = Some a then 1 else 0)"
    if a: "a < length (infos s)" for a
  proof -
    have "0 < card (owners s a)" if "held s k = Some a"
      using that finite_owners [OF c] by (auto simp: card_gt_0_iff owners_def)
    moreover have "snd (?h ! a) = (if held s k = Some a then snd (share p (infos s) ! a) - 1
        else snd (share p (infos s) ! a))" using a by (simp add: snd_recount)
    moreover have "snd (share p (infos s) ! a) = (if p = Some a then Suc (snd (infos s ! a)) else snd (infos s ! a))"
      using a by (simp add: snd_recount)
    ultimately show ?thesis
      using card_owners_upd [OF c, of k p ?h a] countedD(3) [OF c a] by (auto simp: assign_def split: if_splits)
  qed
  moreover have "{j. held (assign k p s) j \<noteq> None} \<subseteq> insert k {j. held s j \<noteq> None}"
    by (auto simp: assign_def)
  then have "finite {j. held (assign k p s) j \<noteq> None}"
    by (rule finite_subset) (simp only: finite_insert countedD(1) [OF c])
  moreover have "a < length (infos s)" if "held (assign k p s) j = Some a \<or> tmp = Some a" for j a
    using that p countedD(2) [OF c, of j a] by (auto simp: assign_def split: if_splits)
  moreover have "length (infos (assign k p s)) = length (infos s)" "infos (assign k p s) = ?h"
    by (simp_all add: assign_def)
  ultimately show ?thesis unfolding counted_def by auto
qed

text \<open>A temporary comes and goes.\<close>

lemma counted_made:
  assumes c: "counted None s"
  shows "counted (fst (make_shared x (infos s))) (s\<lparr>infos := snd (make_shared x (infos s))\<rparr>)"
proof -
  have "owners s (length (infos s)) = {}" using countedD(2) [OF c] by (fastforce simp: owners_def)
  then show ?thesis
    using countedD [OF c] by (auto simp: counted_def make_shared_def owners_def nth_append less_Suc_eq)
qed

lemma counted_shared:
  assumes c: "counted None s" and p: "\<And>a. p = Some a \<Longrightarrow> a < length (infos s)"
  shows "counted p (s\<lparr>infos := share p (infos s)\<rparr>)"
  using countedD [OF c] p by (auto simp: counted_def snd_recount owners_def)

lemma counted_unshared:
  assumes c: "counted p s"
  shows "counted None (s\<lparr>infos := unshare p (infos s)\<rparr>)"
  using countedD [OF c] by (auto simp: counted_def snd_recount owners_def)

section \<open>No operation miscounts\<close>

lemma counted_set_torrent_info: "counted None s \<Longrightarrow> counted None (set_torrent_info k x s)"
proof -
  assume "counted None s"
  note made = counted_made [OF this, of x]
  then have "counted (Some (length (infos s)))
      (assign (Params k) (Some (length (infos s))) (s\<lparr>infos := infos s @ [(x, 1)]\<rparr>))"
    unfolding make_shared_def fst_conv snd_conv by (rule counted_assign) simp
  from counted_unshared [OF this] show ?thesis by (simp add: set_torrent_info_def make_shared_def Let_def)
qed

lemma counted_torrent_file:
  assumes c: "counted None s"
  shows "counted None (snd (torrent_file copied t s))"
proof (cases "held s (In_session t)")
  case None
  then show ?thesis using c by (simp add: torrent_file_def recount_def)
next
  case (Some a)
  then show ?thesis
    using c counted_unshared [OF counted_made [OF c, of "fst (infos s ! a)"]]
    by (simp add: torrent_file_def unshare_share make_shared_def)
qed

lemma counted_step: "counted None s \<Longrightarrow> info_step e s = Some (Inr s') \<Longrightarrow> counted None s'"
  using counted_set_torrent_info counted_torrent_file countedD(2) [of None s]
  by (cases e) (auto intro!: counted_assign)

interpretation sharing_counts: keeps_invariant "counted None" "\<lambda>_ _. True" info_step
  by unfold_locales (rule counted_step)

lemma counted_start: "counted None no_infos"
  by (simp add: counted_def no_infos_def)

text \<open>An address always means the same object.\<close>

definition same_objects :: "'o sharing \<Rightarrow> 'o sharing \<Rightarrow> bool" where
  "same_objects s s' \<longleftrightarrow> length (infos s) \<le> length (infos s') \<and>
     (\<forall>a < length (infos s). fst (infos s' ! a) = fst (infos s ! a))"

lemma same_objects_step: "info_step e s = Some (Inr s') \<Longrightarrow> same_objects s s'"
  by (cases e) (auto simp: same_objects_def set_torrent_info_def torrent_file_def assign_def make_shared_def
      nth_append Let_def split: option.splits)

interpretation sharing_objects: keeps_invariant "same_objects s" "\<lambda>_ _. True" info_step for s
  by unfold_locales (use same_objects_step in \<open>fastforce simp: same_objects_def\<close>)

section \<open>How long a bare pointer lives\<close>

text \<open>C35 A bare pointer lives as long as somebody owns the object, and the bindings own nothing.
  After any run of the program an address can be used exactly when the parameters of some torrent
  or some torrent of the session hold the object, and it then still means the object it meant at
  any earlier time. Setting an info gives the parameters an object of their own with the value
  passed. \<open>torrent_file\<close> changes no count: what it returns is the torrent's own object, gone with
  the last of its holders, or, when libtorrent answered with a copy, an object that was deleted
  before the call returned.\<close>

theorem bare_pointer_needs_owner:
  assumes run: "calls_to (\<lambda>_ _. True) info_step no_infos s"
    and later: "calls_to (\<lambda>_ _. True) info_step s s'"
  shows "(\<exists>x. object (infos s') a = Inr x) = (\<exists>k. held s' k = Some a) \<and>
    (\<forall>x y. object (infos s) a = Inr x \<and> object (infos s') a = Inr y \<longrightarrow> x = y) \<and>
    (\<exists>b. get_torrent_info k (set_torrent_info k x s') = Some b \<and>
      object (infos (set_torrent_info k x s')) b = Inr x \<and>
      (\<forall>j. j \<noteq> Params k \<longrightarrow> held (set_torrent_info k x s') j \<noteq> Some b)) \<and>
    torrent_file False t s' = (held s' (In_session t), s') \<and>
    (\<forall>b. fst (torrent_file True t s') = Some b \<longrightarrow>
      object (infos (snd (torrent_file True t s'))) b = Inl Use_After_Free)"
proof -
  have c: "counted None s" by (rule sharing_counts.kept_by_runs [OF run counted_start])
  have c': "counted None s'" by (rule sharing_counts.kept_by_runs [OF later c])
  have same: "same_objects s s'" by (rule sharing_objects.kept_by_runs [OF later]) (simp add: same_objects_def)
  let ?u = "set_torrent_info k x s'" and ?b = "length (infos s')"
  have b: "held ?u (Params k) = Some ?b" "fst (infos ?u ! ?b) = x"
    by (simp_all add: set_torrent_info_def make_shared_def assign_def Let_def)
  have "counted None ?u" by (rule counted_set_torrent_info [OF c'])
  from object_owned [OF this, of ?b] b have "object (infos ?u) ?b = Inr x"
    by (auto simp: owners_def object_def split: if_splits)
  moreover have "held ?u j \<noteq> Some ?b" if "j \<noteq> Params k" for j
    using that countedD(2) [OF c', of j ?b] by (auto simp: set_torrent_info_def make_shared_def assign_def Let_def)
  ultimately have set: "\<exists>b. get_torrent_info k ?u = Some b \<and> object (infos ?u) b = Inr x \<and>
      (\<forall>j. j \<noteq> Params k \<longrightarrow> held ?u j \<noteq> Some b)"
    using b(1) by (auto simp: get_torrent_info_def)
  have "x = y" if "object (infos s) a = Inr x \<and> object (infos s') a = Inr y" for x y
    using that same by (auto simp: object_def same_objects_def split: if_splits)
  moreover have "torrent_file False t s' = (held s' (In_session t), s')"
    by (simp add: torrent_file_def unshare_share split: option.split) (simp add: recount_def)
  moreover have "object (infos (snd (torrent_file True t s'))) b = Inl Use_After_Free"
    if "fst (torrent_file True t s') = Some b" for b
    using that by (auto simp: torrent_file_def make_shared_def object_def recount_def split: option.splits)
  ultimately show ?thesis using object_owned [OF c', of a] set by (auto simp: owners_def)
qed

text \<open>A torrent is added with an info and removed again, the parameters having been deleted before.\<close>

lemma bare_pointer_needs_owner_witness:
  "\<exists>s s'. calls_to (\<lambda>_ _. True) info_step no_infos s \<and> calls_to (\<lambda>_ _. True) info_step s s' \<and>
     torrent_file False 5 s = (Some 0, s) \<and> object (infos s) 0 = Inr ''info'' \<and>
     object (infos s') 0 = Inl Use_After_Free"
proof -
  let ?es = "[Set_torrent_info 3 ''info'', Add_torrent 3 5, Destroy (Params 3)]"
  obtain s where s: "performed (\<lambda>_ _. True) info_step ?es no_infos = Some s"
    "held s (In_session 5) = Some 0" "\<forall>k. k \<noteq> In_session 5 \<longrightarrow> held s k = None" "infos s = [(''info'', 1)]"
    by (simp add: no_infos_def set_torrent_info_def make_shared_def assign_def recount_def Let_def)
  obtain s' where s': "info_step (Destroy (In_session 5)) s = Some (Inr s')" "\<forall>k. held s' k = None"
    using s(2,3) by (simp add: assign_def)
  have run: "calls_to (\<lambda>_ _. True) info_step no_infos s"
    by (rule performed_calls [OF s(1) calls_to.no_call])
  have later: "calls_to (\<lambda>_ _. True) info_step s s'"
    by (rule calls_to.one_more [where op = info_step and c = "Destroy (In_session 5)", OF calls_to.no_call])
      (simp_all only: s'(1))
  note owned = bare_pointer_needs_owner [OF run later, of 0 0 "''''" 5]
  have "\<nexists>x. object (infos s') 0 = Inr x" using conjunct1 [OF owned] s'(2) by simp
  then have "object (infos s') 0 = Inl Use_After_Free" by (auto simp: object_def split: if_splits)
  moreover have "torrent_file False 5 s = (Some 0, s)"
    using bare_pointer_needs_owner [OF run calls_to.no_call, of 0 0 "''''" 5] s(2) by simp
  moreover have "object (infos s) 0 = Inr ''info''" by (simp add: object_def s(4))
  ultimately show ?thesis using run later by blast
qed

end
