(* ===== verification/Entries.thy ===== *)
theory Entries
  imports Shared_Infos
begin

text \<open>
  Bencoded data across the bindings (interfaces/entry.i, interfaces/alert_types.i). libtorrent's
  encoder and decoder are arguments. A decoded node holds offsets into the buffer it was decoded
  from and, as its documentation says, does not own that buffer.
\<close>

section \<open>The bindings\<close>

text \<open>\<open>'e\<close> are entries, \<open>'n\<close> the offsets of a node, \<open>'c\<close> error codes.\<close>

record ('e, 'n, 'c) codec =
  write_entry :: "'e \<Rightarrow> byte list"
  parse :: "byte list \<Rightarrow> 'n \<times> 'c"

record 'n bdecode_node =
  nd_buffer :: "nat option"
  nd_offsets :: 'n

definition bencode_string :: "('e, 'n, 'c) codec \<Rightarrow> 'e \<Rightarrow> byte list" where
  "bencode_string C e = write_entry C e"

text \<open>libtorrent's own \<open>bdecode\<close> on bytes that lie in some buffer.\<close>

definition parse_buffer ::
  "('e, 'n, 'c) codec \<Rightarrow> nat option \<Rightarrow> byte list counted \<Rightarrow> ub + 'n bdecode_node \<times> 'c" where
  "parse_buffer C buf h =
     (case buf of
        None \<Rightarrow> Inl Null_Deref
      | Some a \<Rightarrow> bindE (object h a) (\<lambda>bytes. case parse C bytes of (n, ec) \<Rightarrow>
          Inr (\<lparr>nd_buffer = Some a, nd_offsets = n\<rparr>, ec)))"

text \<open>The binding takes the string by value: its bytes are a local object.\<close>

definition bdecode_string ::
  "('e, 'n, 'c) codec \<Rightarrow> byte list \<Rightarrow> byte list counted \<Rightarrow> ub + ('c \<times> 'n bdecode_node) \<times> byte list counted" where
  "bdecode_string C data h =
     (let (local, h) = make_shared data h in
      bindE (parse_buffer C local h) (\<lambda>(node, ec). Inr ((ec, node), unshare local h)))"

text \<open>The text of a node is read from its buffer.\<close>

definition node_text :: "('n \<Rightarrow> nat \<times> nat) \<Rightarrow> 'n bdecode_node \<Rightarrow> byte list counted \<Rightarrow> ub + byte list" where
  "node_text span nd h =
     (case nd_buffer nd of
        None \<Rightarrow> Inl Null_Deref
      | Some a \<Rightarrow> bindE (object h a) (\<lambda>bytes. case span (nd_offsets nd) of (i, n) \<Rightarrow>
          Inr (take n (drop i bytes))))"

text \<open>\<open>resume_data\<close> of an alert returns a copy of the entry the alert points to.\<close>

definition resume_data :: "nat option \<Rightarrow> 'e counted \<Rightarrow> ub + 'e \<times> 'e counted" where
  "resume_data p h =
     (case p of
        None \<Rightarrow> Inl Null_Deref
      | Some a \<Rightarrow> bindE (object h a) (\<lambda>e. case make_shared e h of (ptr, h) \<Rightarrow>
          (case ptr of None \<Rightarrow> Inl Null_Deref
           | Some b \<Rightarrow> bindE (object h b) (\<lambda>x. Inr (x, unshare ptr h)))))"

section \<open>What the client gets\<close>

lemma object_made: "make_shared x h = (p, h') \<Longrightarrow> p = Some (length h) \<and> object h' (length h) = Inr x"
  by (auto simp: make_shared_def object_def nth_append)

lemma object_unshared_made: "make_shared x h = (p, h') \<Longrightarrow> object (unshare p h') (length h) = Inl Use_After_Free"
  by (auto simp: make_shared_def object_def recount_def)

lemma object_old: "make_shared x h = (p, h') \<Longrightarrow> a < length h \<Longrightarrow> object (unshare p h') a = object h a"
  by (auto simp: make_shared_def object_def recount_def nth_append list_update_append)

text \<open>A copy of the entry is the entry, and nothing else changes.\<close>

lemma resume_data_copies:
  assumes "object h a = Inr e"
  shows "\<exists>h'. resume_data (Some a) h = Inr (e, h') \<and> (\<forall>b < length h. object h' b = object h b)"
proof -
  obtain p h' where m: "make_shared e h = (p, h')" by (cases "make_shared e h")
  then show ?thesis using assms object_made [OF m] object_old [OF m] by (auto simp: resume_data_def)
qed

text \<open>What \<open>bdecode\<close> of a string delivers cannot be read. The error code and the offsets are those
  of libtorrent's decoder, but the bytes they refer to are the local copy of the string, which is
  gone when the function returns, so reading the text of the node faults, whatever the string;
  the same bytes decoded where they lie can be read as long as their buffer is kept.\<close>

theorem decoded_text_gone:
  assumes "object h a = Inr data"
  shows "\<exists>node h'. bdecode_string C data h = Inr ((snd (parse C data), node), h') \<and>
    nd_offsets node = fst (parse C data) \<and> node_text span node h' = Inl Use_After_Free \<and>
    (\<exists>kept. parse_buffer C (Some a) h' = Inr (kept, snd (parse C data)) \<and>
      nd_offsets kept = nd_offsets node \<and>
      node_text span kept h' = Inr (take (snd (span (nd_offsets node))) (drop (fst (span (nd_offsets node))) data)))"
proof -
  obtain p h1 where m: "make_shared data h = (p, h1)" by (cases "make_shared data h")
  have a: "a < length h" using assms by (simp add: object_def split: if_splits)
  have kept: "object (unshare p h1) a = Inr data" using object_old [OF m a] assms by simp
  obtain n ec where pn: "parse C data = (n, ec)" by (cases "parse C data")
  note p = object_made [OF m]
  let ?h = "unshare p h1"
  have "bdecode_string C data h = Inr ((ec, \<lparr>nd_buffer = p, nd_offsets = n\<rparr>), ?h)"
    using m p pn by (simp add: bdecode_string_def parse_buffer_def)
  moreover have "node_text span \<lparr>nd_buffer = p, nd_offsets = n\<rparr> ?h = Inl Use_After_Free"
    using object_unshared_made [OF m] p by (simp add: node_text_def)
  moreover have "parse_buffer C (Some a) ?h = Inr (\<lparr>nd_buffer = Some a, nd_offsets = n\<rparr>, ec)"
    using kept pn by (simp add: parse_buffer_def)
  moreover have "node_text span \<lparr>nd_buffer = Some a, nd_offsets = n\<rparr> ?h =
      Inr (take (snd (span n)) (drop (fst (span n)) data))"
    using kept by (simp add: node_text_def split: prod.split)
  ultimately show ?thesis using pn by force
qed

end
