(* ===== verification/Cache_Runs.thy ===== *)
theory Cache_Runs
  imports Cache_Properties
begin

text \<open>
  The storage as one cache. The specification knows pieces, bytes and how many bytes of a piece
  have been counted; it has no buffers, limits, times or priorities. Every run of calls, with what
  the calls answered, is a run of it.
\<close>

section \<open>The specification\<close>

text \<open>The cache: bytes and count of the pieces it holds, the pieces it must not drop, and the
  lengths of all pieces and of a buffer, which never change.\<close>

record store =
  entries :: "nat \<rightharpoonup> byte list \<times> int"
  kept :: "nat set"
  lengths :: "int list"
  room :: nat

definition drop_entries :: "nat set \<Rightarrow> store \<Rightarrow> store" where
  "drop_entries E s = s\<lparr>entries := entries s |` (- E)\<rparr>"

definition put_entry :: "nat \<Rightarrow> nat \<Rightarrow> byte list \<Rightarrow> store \<Rightarrow> store" where
  "put_entry k off bs s =
     (case (case entries s k of Some e \<Rightarrow> e | None \<Rightarrow> (replicate (room s) 0, 0)) of
        (d, n) \<Rightarrow> s\<lparr>entries := (entries s)(k \<mapsto> (patch d off bs, n + int (length bs)))\<rparr>)"

text \<open>What a caller sees: the result, and what became of the memory it passed.\<close>

datatype answer =
    Stored int
  | Copied int "byte list"
  | Scattered int "byte list"
  | Done

fun quiet :: "'t call \<Rightarrow> bool" where
  "quiet (Read buf sz piece off) = False"
| "quiet (Readv bufs piece off) = False"
| "quiet (Writev bufs piece off) = False"
| "quiet (Update_reserved_pieces ps) = False"
| "quiet (Remove_piece bi) = False"
| "quiet (Trim pi) = False"
| "quiet _ = True"

inductive store_call :: "'t call \<Rightarrow> answer \<Rightarrow> store \<Rightarrow> store \<Rightarrow> bool" where
  put: "k < length (lengths s) \<Longrightarrow> bs = take (nat (lengths s ! k - off)) (gathered bufs) \<Longrightarrow>
    k \<notin> E \<Longrightarrow> E \<inter> kept s = {} \<Longrightarrow>
    store_call (Writev bufs (int k) off) (Stored (int (length bs))) s (drop_entries E (put_entry k (nat off) bs s))"
| turned_away: "entries s k = None \<Longrightarrow> store_call (Writev bufs (int k) off) (Stored 0) s s"
| hit: "entries s k = Some (d, n) \<Longrightarrow> lengths s ! k \<le> n \<Longrightarrow>
    store_call (Read buf sz (int k) off) (Copied sz (patch buf 0 (take (nat sz) (drop (nat off) d)))) s s"
| miss: "(\<And>d n. entries s k = Some (d, n) \<Longrightarrow> n < lengths s ! k) \<Longrightarrow>
    store_call (Read buf sz (int k) off) (Copied (-1) buf) s s"
| hit_all: "entries s k = Some (d, n) \<Longrightarrow> bs = take (length (gathered bufs)) (drop (nat off) d) \<Longrightarrow>
    store_call (Readv bufs (int k) off) (Scattered (int (length bs)) (patch (gathered bufs) 0 bs)) s s"
| miss_all: "entries s k = None \<Longrightarrow> store_call (Readv bufs (int k) off) (Scattered 0 (gathered bufs)) s s"
| trimmed: "k \<notin> E \<Longrightarrow> E \<inter> kept s = {} \<Longrightarrow> store_call (Trim (int k)) Done s (drop_entries E s)"
| removed: "k \<notin> kept s \<Longrightarrow> store_call (Remove_piece bi) Done s (drop_entries {k} s)"
| reserving: "store_call (Update_reserved_pieces ps) Done s (s\<lparr>kept := {i. i < length (lengths s) \<and> int i \<in> set ps}\<rparr>)"
| nothing_seen: "quiet c \<Longrightarrow> store_call c Done s s"

section \<open>The storage seen as the cache\<close>

definition store_of :: "('b, 't) ext \<Rightarrow> ('b, 't) world \<Rightarrow> store" where
  "store_of X w =
     \<lparr>entries = (\<lambda>k. map_option (\<lambda>d. (d, mp_size (pieces w ! k))) (cached w k)), kept = reserved_set X w,
      lengths = map mp_length (pieces w), room = nat (piece_length w)\<rparr>"

text \<open>A call with what its caller sees of it.\<close>

fun observe :: "('b, 't) ext \<Rightarrow> 't call \<Rightarrow> ('b, 't) world \<Rightarrow> (ub + answer \<times> ('b, 't) world) option" where
  "observe X (Read buf sz piece off) w =
     Some (bindE (read X buf sz piece off w) (\<lambda>(n, buf, w). Inr (Copied n buf, w)))"
| "observe X (Readv bufs piece off) w =
     Some (bindE (readv X bufs piece off w) (\<lambda>(n, bufs, w). Inr (Scattered n (gathered bufs), w)))"
| "observe X (Writev bufs piece off) w =
     map_option (\<lambda>r. bindE r (\<lambda>(n, w). Inr (Stored n, w))) (writev X bufs piece off w)"
| "observe X c w = map_option (\<lambda>r. bindE r (\<lambda>w. Inr (Done, w))) (exec X c w)"

lemma bindE_right: "bindE m Inr = m"
  by (simp add: bindE_def split: sum.split)

lemma observe_exec: "exec X c w = map_option (\<lambda>r. bindE r (\<lambda>(a, w). Inr w)) (observe X c w)"
  by (cases c) (simp_all add: bindE_right option.map_ident drop_result_def bindE_assoc option.map_comp comp_def case_prod_unfold)

text \<open>Calls inside the piece they name, which respect the accounting.\<close>

fun proper :: "('b, 't) ext \<Rightarrow> 't call \<Rightarrow> ('b, 't) world \<Rightarrow> bool" where
  "proper X (Read buf sz piece off) w =
     (0 \<le> piece \<and> piece < int (length (pieces w)) \<and> 0 \<le> off \<and> off < piece_length w \<and> 0 \<le> sz \<and>
      min sz (piece_length w - off) \<le> int (length buf))"
| "proper X (Readv bufs piece off) w =
     (0 \<le> piece \<and> piece < int (length (pieces w)) \<and> list_all iov_ok bufs \<and>
      0 \<le> off \<and> off \<le> piece_length w \<and> (is_logging w \<longrightarrow> bufs \<noteq> []))"
| "proper X (Writev bufs piece off) w = (0 \<le> piece \<and> write_ok w (nat piece) off bufs)"
| "proper X (Trim pi) w = (0 \<le> pi)"
| "proper X c w = benign X c w"

lemma proper_benign: "proper X c w \<Longrightarrow> benign X c w"
  by (cases c) simp_all

lemma store_of_same:
  assumes "cached w' = cached w" "reserved_set X w' = reserved_set X w" "pieces w' = pieces w"
    "piece_length w' = piece_length w"
  shows "store_of X w' = store_of X w"
  using assms by (simp add: store_of_def)

lemma store_of_frame:
  assumes "pieces w' = pieces w" "buffers w' = buffers w" "reserved_pieces w' = reserved_pieces w"
    "piece_length w' = piece_length w"
  shows "store_of X w' = store_of X w"
proof -
  have pd: "piece_data w' = piece_data w" using assms(1,2) by (simp add: piece_data_def fun_eq_iff)
  have "cached w' = cached w" unfolding cached_def pd assms(1) by (rule refl)
  then show ?thesis using assms by (intro store_of_same) (simp_all add: reserved_set_def)
qed

text \<open>Evicting is dropping, with the counts.\<close>

lemma store_of_evicted:
  assumes ev: "evicted_from X (int k) w w'"
  shows "\<exists>E. k \<notin> E \<and> E \<inter> kept (store_of X w) = {} \<and> store_of X w' = drop_entries E (store_of X w)"
proof -
  obtain E where E: "k \<notin> E" "E \<inter> reserved_set X w = {}" "cached w' = cached w |` (- E)"
    using evicted_drops [OF ev] by (auto simp: cache_drops_def)
  have same: "length (pieces w') = length (pieces w)" "reserved_pieces w' = reserved_pieces w"
    "piece_length w' = piece_length w"
    using ev by (simp_all add: evicted_from_def same_frame_def)
  have p: "pieces w' ! i = pieces w ! i \<or> pieces w' ! i = piece_reset (pieces w ! i)" if "i < length (pieces w)" for i
    using ev that unfolding evicted_from_def by blast
  have "map_option (\<lambda>d. (d, mp_size (pieces w' ! i))) (cached w' i) =
      ((\<lambda>i. map_option (\<lambda>d. (d, mp_size (pieces w ! i))) (cached w i)) |` (- E)) i" for i
  proof (cases "cached w' i")
    case None
    then show ?thesis using E(3) by (auto simp: restrict_map_def split: if_splits)
  next
    case (Some d)
    then have "i < length (pieces w)" "is_buffered (pieces w' ! i)" using same by (auto simp: cached_Some)
    then have "pieces w' ! i = pieces w ! i" using p [of i] by auto
    moreover have "i \<notin> E" "cached w i = Some d" using Some E(3) by (auto simp: restrict_map_def split: if_splits)
    ultimately show ?thesis using Some by simp
  qed
  moreover have "map mp_length (pieces w') = map mp_length (pieces w)"
    using p same(1) by (intro nth_equalityI) (fastforce simp: piece_reset_def)+
  ultimately have "store_of X w' = drop_entries E (store_of X w)"
    using same by (simp add: store_of_def drop_entries_def reserved_set_def fun_eq_iff)
  then show ?thesis using E(1,2) by (auto simp: store_of_def)
qed

lemma store_of_stored:
  assumes wf: "wf X w" and k: "k < length (pieces w)" and adm: "admitted X k w w1"
  shows "store_of X (stored k off bs w1) = put_entry k off bs (store_of X w)"
proof -
  note f = admitted_facts [OF wf k adm]
  let ?w2 = "stored k off bs w1"
  have c: "cached ?w2 = cache_put (nat (piece_length w)) k off bs (cached w)"
    by (rule cached_stored [OF wf k adm])
  have size: "mp_size (pieces ?w2 ! k) = mp_size (pieces w ! k) + int (length bs)" using f(3,4) k by simp
  have zero: "mp_size (pieces w ! k) = 0" if "cached w k = None"
    using that k wf_piece [OF wf k] by (auto simp: cached_def piece_ok_def is_buffered_def split: if_splits)
  have "mp_length (pieces ?w2 ! i) = mp_length (pieces w ! i)" if "i < length (pieces w)" for i
    using that f(2,4,9) by (cases "i = k") auto
  then have "map mp_length (pieces ?w2) = map mp_length (pieces w)"
    using f(4) by (intro nth_equalityI) auto
  moreover have "piece_length ?w2 = piece_length w" "reserved_set X ?w2 = reserved_set X w"
    using f(4,8) adm by (auto simp: reserved_set_def admitted_def)
  moreover have "map_option (\<lambda>d. (d, mp_size (pieces ?w2 ! i))) (cached ?w2 i) =
      entries (put_entry k off bs (store_of X w)) i" for i
  proof (cases "i = k")
    case True
    then show ?thesis using c size zero
      by (cases "cached w k") (simp_all add: put_entry_def store_of_def cache_put_def)
  next
    case False
    then show ?thesis using c f(9) [of i]
      by (simp add: put_entry_def store_of_def cache_put_def split: prod.split)
  qed
  ultimately show ?thesis by (simp add: store_of_def put_entry_def split: prod.splits)
qed

section \<open>Every call does what the specification allows\<close>

lemma allowed_writev:
  assumes o: "orderly X w" and ok: "write_ok w k off bufs"
    and r: "writev X bufs (int k) off w = Some (Inr (n, w'))"
  shows "store_call (Writev bufs (int k) off) (Stored n) (store_of X w) (store_of X w')"
proof -
  note w = orderlyD [OF o]
  have k: "k < length (pieces w)" using ok by (simp add: write_ok_def)
  obtain ok1 w1 where g: "get_buffer X (int k) True w = Inr (ok1, w1)"
    using get_buffer_total [OF w(1,2,3) k] by blast
  show ?thesis
  proof (cases ok1)
    case False
    then have e: "n = 0" "w' = w1" using writev_refused [OF w(1), of k w1 bufs off] g r by auto
    have g: "get_buffer X (int k) True w = Inr (False, w')" using g False e(2) by simp
    note none = get_buffer_False_cached [OF w(1) k g]
    have "pieces w' = pieces w \<and> reserved_set X w' = reserved_set X w \<and> piece_length w' = piece_length w"
      using w(1) k g by (cases rule: get_buffer_InrE) auto
    then have "store_of X w' = store_of X w" using none by (intro store_of_same) auto
    moreover have "entries (store_of X w) k = None" using none by (auto simp: store_of_def)
    ultimately show ?thesis using e(1) by (simp add: turned_away)
  next
    case True
    then have g: "get_buffer X (int k) True w = Inr (True, w1)" using g by simp
    let ?bs = "accepted_bytes w k off bufs"
    have n: "n = int (length ?bs)" and ev: "evicted_from X (int k) (stored k (nat off) ?bs w1) w'"
      using writev_result [OF w(5) ok g r] by auto
    obtain E where E: "k \<notin> E" "E \<inter> kept (store_of X (stored k (nat off) ?bs w1)) = {}"
      "store_of X w' = drop_entries E (store_of X (stored k (nat off) ?bs w1))"
      using store_of_evicted [OF ev] by blast
    note st = store_of_stored [OF w(1) k writev_admitted(2) [OF w(5) ok g], of "nat off" ?bs]
    have bs: "?bs = take (nat (lengths (store_of X w) ! k - off)) (gathered bufs)"
      using k by (simp add: accepted_bytes_def store_of_def)
    have "E \<inter> kept (store_of X w) = {}" using E(2) unfolding st by (simp add: put_entry_def split: prod.splits)
    then show ?thesis unfolding n E(3) st
      using k E(1) by (intro put [OF _ bs]) (simp_all add: store_of_def)
  qed
qed

lemma allowed_read:
  assumes o: "orderly X w" and g: "proper X (Read buf sz piece off) w"
    and r: "read X buf sz piece off w = Inr (n, buf', w')"
  shows "store_call (Read buf sz piece off) (Copied n buf') (store_of X w) (store_of X w')"
proof -
  note w = orderlyD [OF o]
  obtain k where k: "piece = int k" "k < length (pieces w)" using g by (auto intro: that [of "nat piece"])
  have same: "store_of X w' = store_of X w"
    using read_keeps_cache [OF w(4) r] by (intro store_of_same) auto
  show ?thesis
  proof (cases "is_buffered (pieces w ! k) \<and> mp_length (pieces w ! k) \<le> mp_size (pieces w ! k)")
    case True
    then have "n = sz" "buf' = patch buf 0 (take (nat sz) (drop (nat off) (piece_data w k)))"
      using r k g read_complete [OF w(4) k(2), of off sz buf] by auto
    moreover have "entries (store_of X w) k = Some (piece_data w k, mp_size (pieces w ! k))"
      using True k(2) by (simp add: store_of_def cached_def)
    moreover have "lengths (store_of X w) ! k \<le> mp_size (pieces w ! k)"
      using True k(2) by (simp add: store_of_def)
    ultimately show ?thesis unfolding k(1) same by (simp only: hit)
  next
    case False
    then have "n = -1" "buf' = buf"
      using r k read_refused [OF w(4) k(2), of buf sz off] by (auto simp: bindE_eq_Inr)
    moreover have "m < lengths (store_of X w) ! k" if "entries (store_of X w) k = Some (d, m)" for d m
      using that False k(2) by (auto simp: store_of_def cached_def split: if_splits)
    ultimately show ?thesis using miss [of "store_of X w" k] k(1) same by simp
  qed
qed

lemma allowed_readv:
  assumes o: "orderly X w" and g: "proper X (Readv bufs piece off) w"
    and r: "readv X bufs piece off w = Inr (n, bufs', w')"
  shows "store_call (Readv bufs piece off) (Scattered n (gathered bufs')) (store_of X w) (store_of X w')"
proof -
  note w = orderlyD [OF o]
  obtain k where k: "piece = int k" "k < length (pieces w)" using g by (auto intro: that [of "nat piece"])
  have same: "store_of X w' = store_of X w"
    using readv_keeps_cache [OF w(4) r] by (intro store_of_same) auto
  show ?thesis
  proof (cases "is_buffered (pieces w ! k)")
    case False
    then have "n = 0" "bufs' = bufs" using r k readv_unbuffered [OF w(4) k(2)] by auto
    moreover have "entries (store_of X w) k = None" using False by (simp add: store_of_def cached_def)
    ultimately show ?thesis unfolding k(1) same by (simp only: miss_all)
  next
    case True
    have "entries (store_of X w) k = Some (piece_data w k, mp_size (pieces w ! k))"
      using True k(2) by (simp add: store_of_def cached_def)
    moreover have "n = int (length (take (length (gathered bufs)) (drop (nat off) (piece_data w k))))"
      "gathered bufs' = patch (gathered bufs) 0 (take (length (gathered bufs)) (drop (nat off) (piece_data w k)))"
      using readv_eq [OF w(4) k(2) True, of bufs off] g r k(1) by auto
    ultimately show ?thesis unfolding k(1) same by (simp only: hit_all [OF _ refl])
  qed
qed

lemma allowed_remove:
  assumes o: "orderly X w" and g: "benign X (Remove_piece bi) w" and r: "remove_piece X bi w = Inr w'"
  shows "store_call (Remove_piece bi) Done (store_of X w) (store_of X w')"
proof -
  note w = orderlyD [OF o]
  obtain j where j: "j < length (buffers w)" "bi = int j" using remove_piece_range [OF r] by blast
  then have u: "mb_is_used (buffers w ! j)"
    "\<not> bs_test X (reserved_pieces w) (nat (mb_pi (buffers w ! j)))" using g by auto
  define k where "k = nat (mb_pi (buffers w ! j))"
  have k: "mb_pi (buffers w ! j) = int k" using wf_buffer_piece(1) [OF w(1) j(1) u(1)] by (simp add: k_def)
  have kl: "k < length (pieces w)"
    using wf_buffer_piece [OF w(1) j(1) u(1)] k wf_shape(4) [OF w(1)] by simp
  obtain t where w': "w' = (freed j k w)\<lparr>torrent := t\<rparr>"
    using remove_piece_InrE [OF w(1) j(1) u(1)] r j(2) unfolding k_def by blast
  have "evicted_from X (int (Suc k)) w w'"
    using evicted_one [OF w(1) j(1) u(1) k, where pi = "int (Suc k)" and n = "ticks w" and tr = t] u(2)
    by (simp add: w' k_def)
  note ev = store_of_evicted [OF this]
  have c: "cached w' i = None \<longleftrightarrow> cached w i = None \<or> i = k" for i
    using kl by (cases "i = k") (auto simp: w' cached_def)
  obtain E where E: "E \<inter> kept (store_of X w) = {}" "store_of X w' = drop_entries E (store_of X w)"
    using ev by blast
  have "entries (store_of X w') = entries (store_of X w) |` (- {k})"
  proof
    fix i
    have "entries (store_of X w') i = None \<longleftrightarrow> entries (store_of X w) i = None \<or> i = k"
      using c [of i] by (simp add: store_of_def)
    then show "entries (store_of X w') i = (entries (store_of X w) |` (- {k})) i"
      unfolding E(2) by (auto simp: drop_entries_def restrict_map_def split: if_splits)
  qed
  then have "store_of X w' = drop_entries {k} (store_of X w)" unfolding E(2) by (simp add: drop_entries_def)
  moreover have "k \<notin> kept (store_of X w)" using u(2) by (simp add: store_of_def reserved_set_def k_def)
  ultimately show ?thesis by (simp add: removed)
qed

lemma allowed_reserve:
  assumes o: "orderly X w" and r: "update_reserved_pieces X ps w = Inr w'"
  shows "store_call (Update_reserved_pieces ps) Done (store_of X w) (store_of X w')"
proof -
  note w = orderlyD [OF o]
  obtain b where b: "w' = w\<lparr>reserved_pieces := b, buffer_reserved := int (length ps)\<rparr>"
    "bs_size X b = bs_size X (reserved_pieces w)" "\<forall>i < bs_size X b. bs_test X b i = (int i \<in> set ps)"
    using update_reserved_InrD [OF w(6,4) r] by blast
  have "i < bs_size X b" if "i < length (pieces w)" for i
    using that b(2) wf_shape(4,10) [OF w(1)] by simp
  then have "reserved_set X w' = {i. i < length (pieces w) \<and> int i \<in> set ps}"
    using b(1,3) by (auto simp: reserved_set_def)
  moreover have "cached w' = cached w" by (simp add: b(1) cached_def piece_data_def fun_eq_iff)
  ultimately have "store_of X w' =
      store_of X w\<lparr>kept := {i. i < length (lengths (store_of X w)) \<and> int i \<in> set ps}\<rparr>"
    by (simp add: store_of_def b(1))
  then show ?thesis using reserving by simp
qed

lemma quiet_same:
  assumes o: "orderly X w" and q: "quiet c" and r: "exec X c w = Some (Inr w')"
  shows "store_of X w' = store_of X w"
proof -
  note w = orderlyD [OF o]
  show ?thesis
  proof (cases c)
    case (Set_memory_size s)
    then have "set_memory_size s w = Inr w'" using r by simp
    from set_memory_size_InrD [OF w(4) this] show ?thesis
      using grown_keeps_cache [OF w(1)] by (auto intro!: store_of_same simp: grown_def [of _ _ w])
  next
    case (Set_torrent_handle h)
    then obtain h' where "w' = w\<lparr>m_handle := Valid, m_t := h'\<rparr>"
      using r set_torrent_handle_InrD [of X h w w'] by auto
    then show ?thesis by (intro store_of_frame) simp_all
  next
    case (Update_reader_pieces ps)
    then obtain b where "w' = w\<lparr>reader_pieces := b\<rparr>"
      using r wf_shape(1) [OF w(1)] by (auto simp: update_reader_pieces_def bindE_eq_Inr)
    then show ?thesis by (intro store_of_frame) simp_all
  qed (use q r in \<open>auto intro!: store_of_frame simp: enable_logging_def disable_logging_def\<close>)
qed

lemma observe_allowed:
  assumes o: "orderly X w" and g: "proper X c w" and r: "observe X c w = Some (Inr (a, w'))"
  shows "orderly X w' \<and> store_call c a (store_of X w) (store_of X w')"
proof -
  note w = orderlyD [OF o]
  have x: "exec X c w = Some (Inr w')" using r by (simp add: observe_exec)
  have "orderly X w'" by (rule exec_orderly [OF o proper_benign [OF g] x])
  moreover have "store_call c a (store_of X w) (store_of X w')"
  proof (cases c)
    case (Read buf sz piece off)
    then obtain n buf' where "read X buf sz piece off w = Inr (n, buf', w')" "a = Copied n buf'"
      using r by (auto simp: bindE_eq_Inr)
    then show ?thesis using allowed_read [OF o g [unfolded Read]] Read by simp
  next
    case (Readv bufs piece off)
    then obtain n bufs' where "readv X bufs piece off w = Inr (n, bufs', w')" "a = Scattered n (gathered bufs')"
      using r by (auto simp: bindE_eq_Inr)
    then show ?thesis using allowed_readv [OF o g [unfolded Readv]] Readv by simp
  next
    case (Writev bufs piece off)
    then show ?thesis using r g allowed_writev [OF o, of "nat piece" off bufs] by (auto simp: bindE_eq_Inr)
  next
    case (Trim pi)
    then obtain k where k: "pi = int k" "trim X (int k) w = Some (Inr w')" "a = Done"
      using r g by (auto simp: bindE_eq_Inr intro: that [of "nat pi"])
    have "evicted_from X (int k) w w'" using trim_returns [OF w(5) k(2)] by auto
    from store_of_evicted [OF this] show ?thesis using Trim k(1,3) trimmed by fastforce
  next
    case (Remove_piece bi)
    then show ?thesis using r g allowed_remove [OF o] by (auto simp: bindE_eq_Inr)
  next
    case (Update_reserved_pieces ps)
    then show ?thesis using r allowed_reserve [OF o] by (auto simp: bindE_eq_Inr)
  qed (use quiet_same [OF o _ x] r nothing_seen [of c] in \<open>auto simp: bindE_eq_Inr\<close>)
  ultimately show ?thesis by blast
qed

interpretation storage: implements "orderly X" "proper X" "observe X" "store_of X" store_call for X
  by unfold_locales (rule observe_allowed)

section \<open>The storage of a new torrent\<close>

text \<open>The cache of a torrent before anything was written.\<close>

definition empty_store :: "torrent_info \<Rightarrow> store" where
  "empty_store ti =
     \<lparr>entries = Map.empty, kept = {},
      lengths = map (\<lambda>k. ti_piece_size ti (int k)) [0..<nat (ti_num_pieces ti)],
      room = nat (ti_piece_length ti)\<rparr>"

lemma store_of_new:
  assumes X: "bitset_laws X" and s: "new_memory_storage X mem ti = Inr s" and ti: "info_ok ti" and mem: "0 \<le> mem"
    and h: "set_torrent_handle X Valid (in_world s t c) = Inr w"
  shows "store_of X w = empty_store ti"
proof -
  note eq = new_memory_storage_eq [OF ti mem constructed_bound [OF s ti mem], of X, unfolded s]
  have "store_of X w = store_of X (in_world s t c)"
    using set_torrent_handle_InrD [OF h] by (auto intro: store_of_frame)
  moreover have "cached (in_world s t c) = Map.empty"
    using eq by (auto simp: cached_def is_buffered_def new_memory_piece_def)
  moreover have "bs_size X (bs_new X) = 0" "\<And>b n i. i < n \<Longrightarrow>
      bs_test X (bs_resize X b n) i = (i < bs_size X b \<and> bs_test X b i)"
    using X by (simp_all add: bitset_laws_def)
  then have "reserved_set X (in_world s t c) = {}"
    using eq ti by (auto simp: reserved_set_def info_ok_def)
  moreover have "map mp_length (pieces (in_world s t c)) =
      map (\<lambda>k. ti_piece_size ti (int k)) [0..<nat (ti_num_pieces ti)]" "piece_length (in_world s t c) = ti_piece_length ti"
    using eq by (simp_all add: new_memory_piece_def)
  ultimately show ?thesis by (simp add: store_of_def empty_store_def)
qed

section \<open>Faults\<close>

text \<open>The calls that move data or evict.\<close>

definition moves_data :: "'t call \<Rightarrow> bool" where
  "moves_data c = (case c of Read buf sz piece off \<Rightarrow> True | Readv bufs piece off \<Rightarrow> True
     | Writev bufs piece off \<Rightarrow> True | Trim pi \<Rightarrow> True | _ \<Rightarrow> False)"

lemma read_answers:
  assumes o: "orderly X w" and g: "proper X (Read buf sz piece off) w"
  shows "\<exists>r. read X buf sz piece off w = Inr r"
proof -
  note w = orderlyD [OF o]
  obtain k where k: "piece = int k" "k < length (pieces w)" using g by (auto intro: that [of "nat piece"])
  show ?thesis
  proof (cases "is_buffered (pieces w ! k) \<and> mp_length (pieces w ! k) \<le> mp_size (pieces w ! k)")
    case True
    then show ?thesis using g k read_complete [OF w(4) k(2), of off sz buf] by auto
  next
    case False
    have "handle_ok (w\<lparr>is_reading := True\<rparr>)" using w(3) by (simp add: handle_ok_def)
    then obtain t where "restore_piece X (int k) (w\<lparr>is_reading := True\<rparr>) = Inr t"
      using restore_piece_total by blast
    then show ?thesis using read_refused [OF w(4) k(2) False, of buf sz off] k(1) by simp
  qed
qed

lemma readv_answers:
  assumes o: "orderly X w" and g: "proper X (Readv bufs piece off) w"
  shows "\<exists>r. readv X bufs piece off w = Inr r"
proof -
  note w = orderlyD [OF o]
  obtain k where k: "piece = int k" "k < length (pieces w)" using g by (auto intro: that [of "nat piece"])
  show ?thesis
  proof (cases "is_buffered (pieces w ! k)")
    case True
    have "list_all iov_ok bufs" "0 \<le> off" "off \<le> piece_length w" "is_logging w \<longrightarrow> bufs \<noteq> []"
      using g by simp_all
    from readv_eq [OF w(4) k(2) True this] show ?thesis unfolding k(1) by blast
  next
    case False
    then show ?thesis unfolding k(1) using readv_unbuffered [OF w(4) k(2)] by blast
  qed
qed

lemma writev_answers:
  assumes o: "orderly X w" and g: "proper X (Writev bufs piece off) w"
    and r: "writev X bufs piece off w = Some r"
  shows "\<exists>v. r = Inr v"
proof -
  note w = orderlyD [OF o]
  obtain k where k: "piece = int k" "write_ok w k off bufs" using g by (auto intro: that [of "nat piece"])
  then have "k < length (pieces w)" by (simp add: write_ok_def)
  then obtain ok w1 where b: "get_buffer X (int k) True w = Inr (ok, w1)"
    using get_buffer_total [OF w(1,2,3)] by blast
  then show ?thesis
    using r k(1) writev_result [OF w(5) k(2), of w1 r] writev_refused [OF w(1), of k w1 bufs off]
    by (cases ok) auto
qed

lemma no_fault:
  assumes o: "orderly X w" and g: "proper X c w" and m: "moves_data c"
  shows "observe X c w \<noteq> Some (Inl e)"
proof (cases c)
  case (Read buf sz piece off)
  then show ?thesis using read_answers [OF o g [unfolded Read]] by (auto simp: split_beta)
next
  case (Readv bufs piece off)
  then show ?thesis using readv_answers [OF o g [unfolded Readv]] by (auto simp: split_beta)
next
  case (Writev bufs piece off)
  then show ?thesis using writev_answers [OF o g [unfolded Writev]] by (auto simp: split_beta)
next
  case (Trim pi)
  then show ?thesis using trim_returns [OF orderlyD(5) [OF o], of pi _] by (force simp: bindE_eq_Inl)
qed (use m in \<open>simp_all add: moves_data_def\<close>)

end
