(* ===== verification/Upload_Plugin.thy ===== *)
theory Upload_Plugin
  imports Prelude
begin

text \<open>
  The extension that marks upload-only torrents (upload_plugin.cxx): the factory, the plugin of a
  torrent and the plugins it attaches to peer connections; and how a session registers it
  (interfaces/extensions.i). libtorrent is an argument: what a handle answers (the type of a
  connection, the object behind a handle, which may be gone), the session's \<open>add_extension\<close>, and
  the plugins that the factories a session was given make for a torrent.
\<close>

section \<open>The plugins\<close>

record ('h, 'p, 'c) connections =
  conn_type :: "'h \<Rightarrow> 'c"
  bittorrent_connection :: 'c
  conn_native :: "'h \<Rightarrow> 'p option"

record 't upload_plugin =
  up_torrent :: 't

record ('t, 'p) upload_peer_plugin =
  upp_torrent :: 't
  upp_pc :: 'p
  upp_tp :: "'t upload_plugin"

definition plugin_type :: "('t, 'p) upload_peer_plugin \<Rightarrow> string" where
  "plugin_type pp = ''upload''"

text \<open>A null \<open>shared_ptr\<close> is \<open>None\<close>; dereferencing a handle whose object is gone is undefined.\<close>

definition new_connection ::
  "('h, 'p, 'c) connections \<Rightarrow> 't upload_plugin \<Rightarrow> 'h \<Rightarrow> ub + ('t, 'p) upload_peer_plugin option" where
  "new_connection X tp pc =
     (if conn_type X pc \<noteq> bittorrent_connection X then Inr None
      else case conn_native X pc of
        None \<Rightarrow> Inl Null_Deref
      | Some c \<Rightarrow> Inr (Some \<lparr>upp_torrent = up_torrent tp, upp_pc = c, upp_tp = tp\<rparr>))"

definition create_upload_plugin :: "('th \<Rightarrow> 't option) \<Rightarrow> 'th \<Rightarrow> ub + 't upload_plugin" where
  "create_upload_plugin native_handle th =
     (case native_handle th of
        None \<Rightarrow> Inl Null_Deref
      | Some t \<Rightarrow> Inr \<lparr>up_torrent = t\<rparr>)"

section \<open>Registering extensions with a session\<close>

text \<open>A factory gets the handle of a torrent and answers a plugin or null. The three plugins of
  \<open>add_extensions\<close> are libtorrent's.\<close>

datatype ('l, 't) plugin = Library_plugin 'l | Uploads "'t upload_plugin"

type_synonym ('th, 'l, 't) factory = "'th \<Rightarrow> ub + ('l, 't) plugin option"

record ('th, 'l) library_plugins =
  create_smart_ban_plugin :: "'th \<Rightarrow> 'l option"
  create_ut_metadata_plugin :: "'th \<Rightarrow> 'l option"
  create_ut_pex_plugin :: "'th \<Rightarrow> 'l option"

definition from_library :: "('th \<Rightarrow> 'l option) \<Rightarrow> ('th, 'l, 't) factory" where
  "from_library create th = Inr (map_option Library_plugin (create th))"

text \<open>
  The session of libtorrent, and its documented promise: the factory given to \<open>add_extension\<close> is
  called for each torrent that is added later, and what it makes is attached unless it is null.
\<close>

record ('th, 'l, 't, 's) session_api =
  add_extension :: "('th, 'l, 't) factory \<Rightarrow> 's \<Rightarrow> 's"
  attached :: "'s \<Rightarrow> 'th \<Rightarrow> ub + ('l, 't) plugin list"

definition session_laws :: "('th, 'l, 't, 's) session_api \<Rightarrow> bool" where
  "session_laws S \<longleftrightarrow> (\<forall>f s th. attached S (add_extension S f s) th =
     bindE (attached S s th) (\<lambda>ps. bindE (f th) (\<lambda>p. Inr (case p of None \<Rightarrow> ps | Some q \<Rightarrow> ps @ [q]))))"

definition add_extensions ::
  "('th, 'l, 't, 's) session_api \<Rightarrow> ('th, 'l) library_plugins \<Rightarrow> 's \<Rightarrow> 's" where
  "add_extensions S L self =
     (let self = add_extension S (from_library (create_smart_ban_plugin L)) self;
          self = add_extension S (from_library (create_ut_metadata_plugin L)) self
      in add_extension S (from_library (create_ut_pex_plugin L)) self)"

definition add_upload_extension ::
  "('th, 'l, 't, 's) session_api \<Rightarrow> ('th \<Rightarrow> 't option) \<Rightarrow> 's \<Rightarrow> 's" where
  "add_upload_extension S native_handle self =
     add_extension S (\<lambda>th. bindE (create_upload_plugin native_handle th) (\<lambda>p. Inr (Some (Uploads p)))) self"

text \<open>The calls a client makes to set up its session.\<close>

datatype registration = Add_extensions | Add_upload_extension

fun registered ::
  "('th, 'l, 't, 's) session_api \<Rightarrow> ('th \<Rightarrow> 't option) \<Rightarrow> ('th, 'l) library_plugins \<Rightarrow> registration list \<Rightarrow> 's \<Rightarrow> 's" where
  "registered S nh L [] s = s"
| "registered S nh L (Add_extensions # rs) s = registered S nh L rs (add_extensions S L s)"
| "registered S nh L (Add_upload_extension # rs) s = registered S nh L rs (add_upload_extension S nh s)"

definition uploads :: "('l, 't) plugin list \<Rightarrow> 't upload_plugin list" where
  "uploads ps = concat (map (\<lambda>p. case p of Uploads u \<Rightarrow> [u] | Library_plugin l \<Rightarrow> []) ps)"

lemma uploads_simps [simp]:
  "uploads [] = []" "uploads (ps @ qs) = uploads ps @ uploads qs"
  "uploads [Library_plugin l] = []" "uploads [Uploads u] = [u]"
  by (simp_all add: uploads_def)

lemma attached_added:
  "session_laws S \<Longrightarrow> attached S (add_extension S f s) th =
     bindE (attached S s th) (\<lambda>ps. bindE (f th) (\<lambda>p. Inr (case p of None \<Rightarrow> ps | Some q \<Rightarrow> ps @ [q])))"
  by (simp add: session_laws_def)

lemma library_added:
  assumes "session_laws S" "attached S s th = Inr ps"
  shows "\<exists>qs. attached S (add_extension S (from_library create) s) th = Inr qs \<and> uploads qs = uploads ps"
  using assms(2) attached_added [OF assms(1)] by (cases "create th") (simp_all add: from_library_def)

lemma library_registered:
  assumes S: "session_laws S" and ps: "attached S s th = Inr ps"
  shows "\<exists>qs. attached S (add_extensions S L s) th = Inr qs \<and> uploads qs = uploads ps"
  unfolding add_extensions_def Let_def using library_added [OF S] ps by metis

lemma registered_fault:
  assumes S: "session_laws S" and e: "attached S s th = Inl e"
  shows "attached S (registered S nh L rs s) th = Inl e"
  using e
proof (induction rs arbitrary: s)
  case (Cons r rs)
  have "attached S (add_extensions S L s) th = Inl e" "attached S (add_upload_extension S nh s) th = Inl e"
    using Cons.prems attached_added [OF S] by (simp_all add: add_extensions_def add_upload_extension_def)
  then show ?case using Cons.IH by (cases r) simp_all
qed simp

lemma registered_plugins:
  assumes S: "session_laws S" and ps: "attached S s th = Inr ps"
  shows "case nh th of
      Some t \<Rightarrow> \<exists>qs. attached S (registered S nh L rs s) th = Inr qs \<and>
        uploads qs = uploads ps @ replicate (count_list rs Add_upload_extension) \<lparr>up_torrent = t\<rparr>
    | None \<Rightarrow> if Add_upload_extension \<in> set rs then attached S (registered S nh L rs s) th = Inl Null_Deref
        else \<exists>qs. attached S (registered S nh L rs s) th = Inr qs \<and> uploads qs = uploads ps"
  using ps
proof (induction rs arbitrary: s ps)
  case Nil
  then show ?case by (simp split: option.split)
next
  case (Cons r rs)
  show ?case
  proof (cases r)
    case Add_extensions
    obtain ls where "attached S (add_extensions S L s) th = Inr ls" "uploads ls = uploads ps"
      using library_registered [OF S Cons.prems] by blast
    from Cons.IH [OF this(1)] this(2) show ?thesis using Add_extensions by (cases "nh th") (simp_all split: if_splits)
  next
    case Add_upload_extension
    note added = attached_added [OF S, where s = s and th = th, unfolded Cons.prems]
    show ?thesis
    proof (cases "nh th")
      case None
      then have "attached S (add_upload_extension S nh s) th = Inl Null_Deref"
        using added by (simp add: add_upload_extension_def create_upload_plugin_def)
      then show ?thesis using None Add_upload_extension registered_fault [OF S] by simp
    next
      case (Some t)
      then have "attached S (add_upload_extension S nh s) th = Inr (ps @ [Uploads \<lparr>up_torrent = t\<rparr>])"
        using added by (simp add: add_upload_extension_def create_upload_plugin_def)
      from Cons.IH [OF this] show ?thesis using Some Add_upload_extension by simp
    qed
  qed
qed

text \<open>C36 With any session that keeps libtorrent's promise about \<open>add_extension\<close>, every call of
  \<open>add_upload_extension\<close> gives each torrent added later one more upload plugin that refers to that
  torrent, and \<open>add_extensions\<close> gives it none, in whatever order they are called. Asked about a
  BitTorrent connection such a plugin attaches a peer plugin that refers to the torrent, the
  connection and itself; it declines every other connection (web seeds). A torrent or a BitTorrent
  connection that is gone when it is asked about is dereferenced all the same.\<close>

theorem plugin_attaches_to_bittorrent_only:
  assumes S: "session_laws S" and start: "attached S s th = Inr ps"
  shows "case native_handle th of
      None \<Rightarrow> Add_upload_extension \<in> set rs \<longrightarrow> attached S (registered S native_handle L rs s) th = Inl Null_Deref
    | Some t \<Rightarrow> \<exists>qs new. attached S (registered S native_handle L rs s) th = Inr qs \<and>
        uploads qs = uploads ps @ new \<and> length new = count_list rs Add_upload_extension \<and>
        (\<forall>tp\<in>set new. up_torrent tp = t \<and>
          (\<forall>C pc. if conn_type C pc \<noteq> bittorrent_connection C then new_connection C tp pc = Inr None
            else case conn_native C pc of
                None \<Rightarrow> new_connection C tp pc = Inl Null_Deref
              | Some c \<Rightarrow> \<exists>p. new_connection C tp pc = Inr (Some p) \<and>
                  upp_pc p = c \<and> upp_torrent p = t \<and> upp_tp p = tp \<and> plugin_type p = ''upload''))"
proof (cases "native_handle th")
  case None
  then show ?thesis using registered_plugins [OF S start, where nh = native_handle and L = L and rs = rs] by simp
next
  case (Some t)
  then obtain qs where "attached S (registered S native_handle L rs s) th = Inr qs"
    "uploads qs = uploads ps @ replicate (count_list rs Add_upload_extension) \<lparr>up_torrent = t\<rparr>"
    using registered_plugins [OF S start, where nh = native_handle and L = L and rs = rs] by auto
  then show ?thesis using Some
    by (auto simp: new_connection_def plugin_type_def split: option.split intro!: exI [of _ qs])
qed

text \<open>A session that keeps its factories in a list.\<close>

fun made_by :: "('th, 'l, 't) factory list \<Rightarrow> 'th \<Rightarrow> ub + ('l, 't) plugin list" where
  "made_by [] th = Inr []"
| "made_by (f # fs) th =
     bindE (made_by fs th) (\<lambda>ps. bindE (f th) (\<lambda>p. Inr (case p of None \<Rightarrow> ps | Some q \<Rightarrow> ps @ [q])))"

definition demo_session :: "('th, 'l, 't, ('th, 'l, 't) factory list) session_api" where
  "demo_session = \<lparr>add_extension = (#), attached = made_by\<rparr>"

lemma demo_session_laws: "session_laws demo_session"
  by (simp add: session_laws_def demo_session_def)

definition demo_plugins :: "(bool, nat) library_plugins" where
  "demo_plugins = \<lparr>create_smart_ban_plugin = (\<lambda>th. Some 1), create_ut_metadata_plugin = (\<lambda>th. None),
     create_ut_pex_plugin = (\<lambda>th. Some 3)\<rparr>"

definition demo_connections :: "(int, int, int) connections" where
  "demo_connections = \<lparr>conn_type = (\<lambda>h. h mod 2), bittorrent_connection = 0, conn_native = (\<lambda>h. Some (h + 10))\<rparr>"

lemma plugin_attaches_to_bittorrent_only_witness:
  "\<exists>qs tp p. attached demo_session (registered demo_session Some demo_plugins
      [Add_extensions, Add_upload_extension, Add_extensions] []) True = Inr qs \<and> uploads qs = [tp] \<and>
    new_connection demo_connections tp 2 = Inr (Some p) \<and> upp_pc p = 12 \<and>
    new_connection demo_connections tp 3 = Inr None"
proof -
  let ?rs = "[Add_extensions, Add_upload_extension, Add_extensions]"
  have "attached demo_session [] True = Inr []" by (simp add: demo_session_def)
  from plugin_attaches_to_bittorrent_only [OF demo_session_laws this, where native_handle = Some and L = demo_plugins and rs = ?rs]
  obtain qs new where qs: "attached demo_session (registered demo_session Some demo_plugins ?rs []) True = Inr qs"
    "uploads qs = new" "length new = 1"
    and new: "\<And>tp (C :: (int, int, int) connections) pc. tp \<in> set new \<Longrightarrow> if conn_type C pc \<noteq> bittorrent_connection C then new_connection C tp pc = Inr None
      else case conn_native C pc of
          None \<Rightarrow> new_connection C tp pc = Inl Null_Deref
        | Some c \<Rightarrow> \<exists>p. new_connection C tp pc = Inr (Some p) \<and> upp_pc p = c"
    by (fastforce split: if_splits option.splits)
  obtain tp where tp: "new = [tp]" using qs(3) by (auto simp: length_Suc_conv)
  then have "\<exists>p. new_connection demo_connections tp 2 = Inr (Some p) \<and> upp_pc p = 12"
    "new_connection demo_connections tp 3 = Inr None"
    using new [of tp demo_connections 2] new [of tp demo_connections 3] by (simp_all add: demo_connections_def)
  then show ?thesis using qs(1,2) tp by blast
qed

end
