(* ===== verification/Std_Map.thy ===== *)
theory Std_Map
  imports Prelude
begin

text \<open>
  The \<open>std::map\<close> the bindings export (interfaces/std_map.i): \<open>get\<close>, \<open>set\<close>, \<open>del\<close>, \<open>has_key\<close>
  and \<open>keys\<close> over \<open>find\<close>, \<open>operator[]\<close>, \<open>erase\<close> and the iterators of the standard container,
  which keeps its entries in ascending order of their keys. The laws a client of the bindings
  relies on are a locale; the model of the code is an instance.
\<close>

section \<open>What a client relies on\<close>

locale keyed_store =
  fixes inv :: "'m \<Rightarrow> bool" and lookup :: "'m \<Rightarrow> 'k \<Rightarrow> 'e + 'v"
    and put :: "'m \<Rightarrow> 'k \<Rightarrow> 'v \<Rightarrow> 'm" and remove :: "'m \<Rightarrow> 'k \<Rightarrow> 'e + 'm" and missing :: 'e
  assumes put_inv: "inv m \<Longrightarrow> inv (put m k v)"
    and remove_inv: "inv m \<Longrightarrow> remove m k = Inr m' \<Longrightarrow> inv m'"
    and lookup_put: "inv m \<Longrightarrow> lookup (put m k v) k' = (if k' = k then Inr v else lookup m k')"
    and lookup_remove: "inv m \<Longrightarrow> remove m k = Inr m' \<Longrightarrow>
      lookup m' k' = (if k' = k then Inl missing else lookup m k')"
    and remove_missing: "inv m \<Longrightarrow> lookup m k = Inl missing \<Longrightarrow> remove m k = Inl missing"
    and remove_present: "inv m \<Longrightarrow> lookup m k = Inr v \<Longrightarrow> \<exists>m'. remove m k = Inr m'"
begin

lemma put_then_remove:
  assumes "inv m" "lookup m k = Inl missing"
  shows "\<exists>m'. remove (put m k v) k = Inr m' \<and> (\<forall>k'. lookup m' k' = lookup m k')"
proof -
  obtain m' where m': "remove (put m k v) k = Inr m'"
    using remove_present [OF put_inv, of m k v k v] lookup_put [of m k v k] assms(1) by auto
  then show ?thesis
    using lookup_remove [OF put_inv [OF assms(1)] m'] lookup_put [OF assms(1)] assms(2) by auto
qed

lemma removed_twice:
  assumes "inv m" "remove m k = Inr m'"
  shows "remove m' k = Inl missing"
  using assms remove_missing [OF remove_inv [OF assms]] lookup_remove [OF assms] by simp

end

section \<open>The container\<close>

type_synonym ('k, 'v) std_map = "('k \<times> 'v) list"

datatype map_error = out_of_range string

definition map_ok :: "('k :: linorder, 'v) std_map \<Rightarrow> bool" where
  "map_ok m \<longleftrightarrow> sorted (map fst m) \<and> distinct (map fst m)"

fun find_key :: "('k, 'v) std_map \<Rightarrow> 'k \<Rightarrow> 'v option" where
  "find_key [] k = None"
| "find_key ((k', v) # m) k = (if k' = k then Some v else find_key m k)"

fun assign_key :: "('k :: linorder, 'v) std_map \<Rightarrow> 'k \<Rightarrow> 'v \<Rightarrow> ('k, 'v) std_map" where
  "assign_key [] k v = [(k, v)]"
| "assign_key ((k', v') # m) k v =
     (if k < k' then (k, v) # (k', v') # m
      else if k = k' then (k, v) # m
      else (k', v') # assign_key m k v)"

fun erase_key :: "('k, 'v) std_map \<Rightarrow> 'k \<Rightarrow> ('k, 'v) std_map" where
  "erase_key [] k = []"
| "erase_key ((k', v) # m) k = (if k' = k then m else (k', v) # erase_key m k)"

section \<open>The exported operations\<close>

definition map_get :: "('k, 'v) std_map \<Rightarrow> 'k \<Rightarrow> map_error + 'v" where
  "map_get m key =
     (case find_key m key of Some v \<Rightarrow> Inr v | None \<Rightarrow> Inl (out_of_range ''key not found''))"

definition map_set :: "('k :: linorder, 'v) std_map \<Rightarrow> 'k \<Rightarrow> 'v \<Rightarrow> ('k, 'v) std_map" where
  "map_set m key x = assign_key m key x"

definition map_del :: "('k, 'v) std_map \<Rightarrow> 'k \<Rightarrow> map_error + ('k, 'v) std_map" where
  "map_del m key =
     (case find_key m key of
        Some v \<Rightarrow> Inr (erase_key m key)
      | None \<Rightarrow> Inl (out_of_range ''key not found''))"

definition map_has_key :: "('k, 'v) std_map \<Rightarrow> 'k \<Rightarrow> bool" where
  "map_has_key m key = (find_key m key \<noteq> None)"

text \<open>
  Vectors are objects with a lifetime: the address of one is its position, and one whose lifetime
  has ended is \<open>None\<close>.
\<close>

type_synonym 'k vectors = "'k list option list"

definition vector_at :: "'k vectors \<Rightarrow> nat \<Rightarrow> ub + 'k list" where
  "vector_at h a =
     (if a < length h then (case h ! a of Some v \<Rightarrow> Inr v | None \<Rightarrow> Inl Use_After_Free) else Inl OutOfBounds)"

text \<open>The loop of \<open>keys\<close>, from an iterator on: what it points to is pushed back to the vector.\<close>

fun push_keys :: "('k, 'v) std_map \<Rightarrow> nat \<Rightarrow> 'k vectors \<Rightarrow> ub + 'k vectors" where
  "push_keys [] keys_v h = Inr h"
| "push_keys ((k, v) # iter) keys_v h =
     bindE (vector_at h keys_v) (\<lambda>ks. push_keys iter keys_v (h[keys_v := Some (ks @ [k])]))"

text \<open>\<open>keys\<close> returns a reference, which is an address. The vector is a local object: it begins with
  its declaration and ends when the function returns.\<close>

definition map_keys :: "('k, 'v) std_map \<Rightarrow> 'k vectors \<Rightarrow> ub + nat \<times> 'k vectors" where
  "map_keys m h =
     (let keys_v = length h; h = h @ [Some []] in
      bindE (push_keys m keys_v h) (\<lambda>h. let result = keys_v in Inr (result, h[keys_v := None])))"

section \<open>The laws hold\<close>

lemma find_key_map_of: "find_key m k = map_of m k"
  by (induction m k rule: find_key.induct) auto

lemma push_keys_eq:
  "a < length h \<Longrightarrow> h ! a = Some ks \<Longrightarrow> push_keys m a h = Inr (h[a := Some (ks @ map fst m)])"
  by (induction m a h arbitrary: ks rule: push_keys.induct) (auto simp: vector_at_def list_update_same_conv [THEN iffD2])

lemma set_assign_key: "fst ` set (assign_key m k v) = insert k (fst ` set m)"
  by (induction m k v rule: assign_key.induct) auto

lemma map_ok_assign: "map_ok m \<Longrightarrow> map_ok (assign_key m k v)"
  unfolding map_ok_def
proof (induction m k v rule: assign_key.induct)
  case (2 k' v' m k v)
  then show ?case using set_assign_key [of m k v] by (auto simp: image_iff)
qed simp

lemma map_of_assign: "map_ok m \<Longrightarrow> map_of (assign_key m k v) = (map_of m)(k \<mapsto> v)"
  unfolding map_ok_def by (induction m k v rule: assign_key.induct) (auto simp: fun_eq_iff)

lemma erase_key_filter: "distinct (map fst m) \<Longrightarrow> erase_key m k = filter (\<lambda>e. fst e \<noteq> k) m"
proof (induction m k rule: erase_key.induct)
  case (2 k' v m k)
  then show ?case by (auto simp: filter_id_conv intro!: filter_True [symmetric])
qed simp

lemma map_ok_erase: "map_ok m \<Longrightarrow> map_ok (erase_key m k)"
  unfolding map_ok_def by (simp add: erase_key_filter sorted_filter distinct_map_filter)

lemma map_of_erase: "map_ok m \<Longrightarrow> map_of (erase_key m k) = (map_of m)(k := None)"
proof -
  assume "map_ok m"
  then have "erase_key m k = filter (\<lambda>e. fst e \<noteq> k) m" by (simp add: map_ok_def erase_key_filter)
  moreover have "map_of (filter (\<lambda>e. fst e \<noteq> k) m) = (map_of m)(k := None)" for m
    by (induction m) (auto simp: fun_eq_iff)
  ultimately show ?thesis by simp
qed

interpretation std_map_store: keyed_store map_ok map_get map_set map_del "out_of_range ''key not found''"
proof
  fix m :: "('a :: linorder, 'b) std_map" and k k' :: 'a and v :: 'b and m'
  assume ok: "map_ok m"
  show "map_ok (map_set m k v)" using ok by (simp add: map_set_def map_ok_assign)
  show "map_get (map_set m k v) k' = (if k' = k then Inr v else map_get m k')"
    using ok by (simp add: map_get_def map_set_def find_key_map_of map_of_assign)
  show "\<exists>m'. map_del m k = Inr m'" if "map_get m k = Inr v"
    using that by (auto simp: map_get_def map_del_def split: option.splits)
  show "map_del m k = Inl (out_of_range ''key not found'')"
    if "map_get m k = Inl (out_of_range ''key not found'')"
    using that by (auto simp: map_get_def map_del_def split: option.splits)
  assume "map_del m k = Inr m'"
  then have m': "m' = erase_key m k" by (auto simp: map_del_def split: option.splits)
  show "map_ok m'" using ok m' by (simp add: map_ok_erase)
  show "map_get m' k' = (if k' = k then Inl (out_of_range ''key not found'') else map_get m k')"
    using ok m' by (simp add: map_get_def find_key_map_of map_of_erase)
qed

text \<open>C37 The exported map refines a partial function. On a container in order, \<open>set\<close> updates the
  function at its key and keeps the order; \<open>get\<close> and \<open>del\<close> answer \<open>out_of_range\<close> exactly for
  the keys it does not have, and a successful \<open>del\<close> removes just its key; \<open>has_key\<close> tells the
  keys it has; a key that was not there, set and deleted again, leaves every lookup as it was;
  and the vector that \<open>keys\<close> fills holds the keys in ascending order as long as the function runs,
  but is gone when it returns, so that using the reference it returned faults.\<close>

theorem exported_map_refines_function:
  assumes ok: "map_ok m"
  shows "map_ok (map_set m k v) \<and> map_of (map_set m k v) = (map_of m)(k \<mapsto> v) \<and>
    map_get m k = (case map_of m k of Some x \<Rightarrow> Inr x | None \<Rightarrow> Inl (out_of_range ''key not found'')) \<and>
    (if k \<in> dom (map_of m)
     then \<exists>m'. map_del m k = Inr m' \<and> map_ok m' \<and> map_of m' = (map_of m)(k := None)
     else map_del m k = Inl (out_of_range ''key not found'') \<and>
       (\<exists>m'. map_del (map_set m k v) k = Inr m' \<and> map_get m' = map_get m)) \<and>
    map_has_key m k = (k \<in> dom (map_of m)) \<and>
    (\<exists>h1 ks h'. push_keys m (length h) (h @ [Some []]) = Inr h1 \<and> vector_at h1 (length h) = Inr ks \<and>
       sorted ks \<and> distinct ks \<and> set ks = dom (map_of m) \<and>
       map_keys m h = Inr (length h, h') \<and> vector_at h' (length h) = Inl Use_After_Free)"
proof (intro conjI)
  show "map_ok (map_set m k v)" by (rule std_map_store.put_inv [OF ok])
  show "map_of (map_set m k v) = (map_of m)(k \<mapsto> v)" using ok by (simp add: map_set_def map_of_assign)
  show "map_get m k = (case map_of m k of Some x \<Rightarrow> Inr x | None \<Rightarrow> Inl (out_of_range ''key not found''))"
    by (simp add: map_get_def find_key_map_of)
  show "map_has_key m k = (k \<in> dom (map_of m))" by (auto simp: map_has_key_def find_key_map_of)
  have "push_keys m (length h) (h @ [Some []]) = Inr (h @ [Some (map fst m)])"
    using push_keys_eq [of "length h" "h @ [Some []]" "[]" m] by simp
  then show "\<exists>h1 ks h'. push_keys m (length h) (h @ [Some []]) = Inr h1 \<and> vector_at h1 (length h) = Inr ks \<and>
       sorted ks \<and> distinct ks \<and> set ks = dom (map_of m) \<and>
       map_keys m h = Inr (length h, h') \<and> vector_at h' (length h) = Inl Use_After_Free"
    using ok by (auto simp: map_keys_def Let_def vector_at_def map_ok_def dom_map_of_conv_image_fst)
  show "if k \<in> dom (map_of m)
     then \<exists>m'. map_del m k = Inr m' \<and> map_ok m' \<and> map_of m' = (map_of m)(k := None)
     else map_del m k = Inl (out_of_range ''key not found'') \<and>
       (\<exists>m'. map_del (map_set m k v) k = Inr m' \<and> map_get m' = map_get m)"
  proof (cases "k \<in> dom (map_of m)")
    case True
    then show ?thesis
      using ok map_ok_erase [OF ok] map_of_erase [OF ok] by (auto simp: map_del_def find_key_map_of)
  next
    case False
    then have "map_get m k = Inl (out_of_range ''key not found'')"
      by (auto simp: map_get_def find_key_map_of split: option.splits)
    then show ?thesis
      using False std_map_store.put_then_remove [OF ok] std_map_store.remove_missing [OF ok]
      by (auto simp: fun_eq_iff)
  qed
qed

lemma exported_map_refines_function_witness:
  "map_ok (map_set [(1 :: int, True), (5, False)] 3 True) \<and>
   (\<exists>h'. map_keys [(1 :: int, True), (5, False)] [] = Inr (0, h') \<and> vector_at h' 0 = Inl Use_After_Free)"
  using exported_map_refines_function [of "[(1 :: int, True), (5, False)]" 3 True "[]"]
  by (auto simp: map_ok_def map_set_def)

end
