(* ===== verification/Go_Wrappers.thy ===== *)
theory Go_Wrappers
  imports Std_Map
begin

text \<open>
  The Go side: how an exception of libtorrent becomes a panic (interfaces/exceptions.i), how
  \<open>catch\<close> (libtorrent.go) turns a panic into an error, and the wrappers that defer it (session.go,
  session_handle.go). The functions the wrapper generator produces and the libtorrent functions
  behind them are arguments.
\<close>

section \<open>Exceptions and panics\<close>

text \<open>A call into C++ changes the state \<open>'s\<close> of the library and returns a value or throws; a Go call
  returns a value or panics.\<close>

datatype cpp_exception = Std_exception string | Foreign_exception

type_synonym ('a, 's) cpp = "'s \<Rightarrow> (cpp_exception + 'a) \<times> 's"

datatype 'a go = Value 'a | Panic string

definition swig_call :: "('a, 's) cpp \<Rightarrow> 's \<Rightarrow> 'a go \<times> 's" where
  "swig_call action s =
     (case action s of
        (Inr x, s) \<Rightarrow> (Value x, s)
      | (Inl (Std_exception what), s) \<Rightarrow> (Panic what, s)
      | (Inl Foreign_exception, s) \<Rightarrow> (Panic ''Unknown exception type'', s))"

text \<open>The generated function of an overloaded name picks an overload by its arguments; a method
  called through a nil interface value panics.\<close>

definition one_overload :: "('a, 's) cpp option \<Rightarrow> 's \<Rightarrow> 'a go \<times> 's" where
  "one_overload f s =
     (case f of
        Some action \<Rightarrow> swig_call action s
      | None \<Rightarrow> (Panic ''No match for overloaded function call'', s))"

definition nil_dereference :: string where
  "nil_dereference = ''runtime error: invalid memory address or nil pointer dereference''"

fun through :: "'p option \<Rightarrow> ('p \<Rightarrow> 's \<Rightarrow> 'a go \<times> 's) \<Rightarrow> 's \<Rightarrow> 'a go \<times> 's" where
  "through (Some p) f s = f p s"
| "through None f s = (Panic nil_dereference, s)"

section \<open>catch\<close>

text \<open>What \<open>recover\<close> yields, none being nil, and the error parameter before and after.\<close>

definition catch :: "string option \<Rightarrow> string option \<Rightarrow> string option" where
  "catch recovered err = (case recovered of Some r \<Rightarrow> Some r | None \<Rightarrow> err)"

text \<open>A function with \<open>defer catch(&err)\<close> and a named result: when its body panics, the result keeps
  its zero value.\<close>

definition deferring :: "'r \<Rightarrow> ('s \<Rightarrow> 'r go \<times> 's) \<Rightarrow> 's \<Rightarrow> ('r \<times> string option) \<times> 's" where
  "deferring zero body s =
     (case body s of
        (Value r, s) \<Rightarrow> ((r, catch None None), s)
      | (Panic m, s) \<Rightarrow> ((zero, catch (Some m) None), s))"

fun wrapped :: "('a \<Rightarrow> 'b) \<Rightarrow> 'a go \<times> 's \<Rightarrow> 'b go \<times> 's" where
  "wrapped f (Value x, s) = (Value (f x), s)"
| "wrapped f (Panic m, s) = (Panic m, s)"

section \<open>The wrappers\<close>

text \<open>The library: pointers \<open>'p\<close> to sessions, which are handles of themselves, torrent handles
  \<open>'t\<close>, variadic arguments \<open>'a\<close>.\<close>

record ('p, 't, 'a, 's) library =
  new_session :: "'a list \<Rightarrow> ('p, 's) cpp option"
  delete_session :: "'p \<Rightarrow> (unit, 's) cpp"
  add_torrent :: "'p \<Rightarrow> 'a list \<Rightarrow> ('t, 's) cpp option"
  async_add_torrent :: "'p \<Rightarrow> 'a \<Rightarrow> (unit, 's) cpp"
  remove_torrent :: "'p \<Rightarrow> 'a list \<Rightarrow> (unit, 's) cpp option"

text \<open>The structs embed an interface value, which may be nil; an interface variable holds a struct
  or is nil.\<close>

record 'p SessionImpl = WrappedSession :: "'p option"
record 'p SessionHandleImpl = WrappedSessionHandle :: "'p option"
record 't TorrentHandleImpl = WrappedTorrentHandle :: "'t option"

definition get_handle :: "'p \<Rightarrow> ('p, 's) cpp" where
  "get_handle self s = (Inr self, s)"

definition NewSession ::
  "('p, 't, 'a, 's) library \<Rightarrow> 'a list \<Rightarrow> 's \<Rightarrow> ('p SessionImpl option \<times> string option) \<times> 's" where
  "NewSession L a = deferring None (\<lambda>s.
     wrapped (\<lambda>p. Some \<lparr>WrappedSession = Some p\<rparr>) (one_overload (new_session L a) s))"

definition DeleteSession ::
  "('p, 't, 'a, 's) library \<Rightarrow> 'p SessionImpl option \<Rightarrow> 's \<Rightarrow> (unit \<times> string option) \<times> 's" where
  "DeleteSession L arg1 = deferring () (\<lambda>s.
     through (Option.bind arg1 WrappedSession) (\<lambda>p. swig_call (delete_session L p)) s)"

definition GetHandle ::
  "'p SessionImpl \<Rightarrow> 's \<Rightarrow> ('p SessionHandleImpl option \<times> string option) \<times> 's" where
  "GetHandle self = deferring None (\<lambda>s.
     wrapped (\<lambda>h. Some \<lparr>WrappedSessionHandle = Some h\<rparr>)
       (through (WrappedSession self) (\<lambda>p. swig_call (get_handle p)) s))"

definition AddTorrent ::
  "('p, 't, 'a, 's) library \<Rightarrow> 'p SessionHandleImpl \<Rightarrow> 'a list \<Rightarrow> 's
    \<Rightarrow> ('t TorrentHandleImpl option \<times> string option) \<times> 's" where
  "AddTorrent L self a = deferring None (\<lambda>s.
     wrapped (\<lambda>t. Some \<lparr>WrappedTorrentHandle = Some t\<rparr>)
       (through (WrappedSessionHandle self) (\<lambda>p. one_overload (add_torrent L p a)) s))"

definition AsyncAddTorrent ::
  "('p, 't, 'a, 's) library \<Rightarrow> 'p SessionHandleImpl \<Rightarrow> 'a \<Rightarrow> 's \<Rightarrow> (unit \<times> string option) \<times> 's" where
  "AsyncAddTorrent L self arg2 = deferring () (\<lambda>s.
     through (WrappedSessionHandle self) (\<lambda>p. swig_call (async_add_torrent L p arg2)) s)"

definition RemoveTorrent ::
  "('p, 't, 'a, 's) library \<Rightarrow> 'p SessionHandleImpl \<Rightarrow> 'a list \<Rightarrow> 's \<Rightarrow> (unit \<times> string option) \<times> 's" where
  "RemoveTorrent L self a = deferring () (\<lambda>s.
     through (WrappedSessionHandle self) (\<lambda>p. one_overload (remove_torrent L p a)) s)"

text \<open>The methods the wrappers do not redefine are promoted from the embedded values as they are:
  nothing is deferred around them. The functions of the exported map have no wrapper either.\<close>

definition promoted :: "('p \<Rightarrow> ('a, 's) cpp) \<Rightarrow> 'p option \<Rightarrow> 's \<Rightarrow> 'a go \<times> 's" where
  "promoted f self = through self (\<lambda>p. swig_call (f p))"

definition as_cpp :: "map_error + 'a \<Rightarrow> ('a, 's) cpp" where
  "as_cpp r s = (case r of Inl (out_of_range what) \<Rightarrow> (Inl (Std_exception what), s) | Inr x \<Rightarrow> (Inr x, s))"

definition go_map_get :: "('k, 'v) std_map \<Rightarrow> 'k \<Rightarrow> 's \<Rightarrow> 'v go \<times> 's" where
  "go_map_get m key = swig_call (as_cpp (map_get m key))"

definition go_map_del :: "('k, 'v) std_map \<Rightarrow> 'k \<Rightarrow> 's \<Rightarrow> ('k, 'v) std_map go \<times> 's" where
  "go_map_del m key = swig_call (as_cpp (map_del m key))"

section \<open>What a client sees\<close>

text \<open>An answer tells of a call if its error is the message of the panic, and its result is there
  exactly when there was none.\<close>

fun tells :: "('a \<Rightarrow> 'r) \<Rightarrow> 'r \<Rightarrow> 'a go \<times> 's \<Rightarrow> ('r \<times> string option) \<times> 's" where
  "tells f zero (Value x, s) = ((f x, None), s)"
| "tells f zero (Panic m, s) = ((zero, Some m), s)"

lemma deferring_tells: "deferring zero body s = tells (\<lambda>x. x) zero (body s)"
  by (cases "body s"; cases "fst (body s)") (simp_all add: deferring_def catch_def)

lemma tells_wrapped [simp]: "tells (\<lambda>x. x) zero (wrapped f c) = tells f zero c"
  by (cases c; cases "fst c") simp_all

lemmas wrapper_defs = NewSession_def DeleteSession_def GetHandle_def AddTorrent_def AsyncAddTorrent_def
  RemoveTorrent_def deferring_tells

text \<open>What the panic of a generated function says.\<close>

fun panic_of :: "('a, 's) cpp option \<Rightarrow> 's \<Rightarrow> string option" where
  "panic_of None s = Some ''No match for overloaded function call''"
| "panic_of (Some action) s =
     (case fst (action s) of
        Inr x \<Rightarrow> None
      | Inl (Std_exception what) \<Rightarrow> Some what
      | Inl Foreign_exception \<Rightarrow> Some ''Unknown exception type'')"

lemma promoted_throws: "(\<exists>m. fst (promoted f (Some p) s) = Panic m) = (\<exists>e. fst (f p s) = Inl e)"
  by (auto simp: promoted_def swig_call_def split: sum.splits cpp_exception.splits prod.splits)

text \<open>C38 What the six functions with a deferred \<open>catch\<close> report. \<open>NewSession\<close> has an error exactly when
  the library threw or the arguments fit no overload, with the message of the exception or of the
  missing overload, and a result exactly when it has no error. The session it gives has a handle
  to the same object, without error; adding and removing torrents through that handle and deleting
  the session report what the library did, and a nil session is an error and not a panic. The
  protection ends there: a method that is promoted from the embedded value, without a wrapper,
  panics whenever the library throws, and so do \<open>get\<close> and \<open>del\<close> of the exported map for the
  keys that are absent, and for no others.\<close>

theorem errors_tell_exceptions:
  assumes new: "NewSession L a s = ((ret, err), s1)"
  shows "(ret = None) = (err \<noteq> None) \<and> err = panic_of (new_session L a) s \<and>
    (\<forall>se. ret = Some se \<longrightarrow> (\<exists>p. one_overload (new_session L a) s = (Value p, s1) \<and>
      GetHandle se s1 = ((Some \<lparr>WrappedSessionHandle = Some p\<rparr>, None), s1) \<and>
      (\<forall>b. AddTorrent L \<lparr>WrappedSessionHandle = Some p\<rparr> b s1 =
        tells (\<lambda>t. Some \<lparr>WrappedTorrentHandle = Some t\<rparr>) None (one_overload (add_torrent L p b) s1)) \<and>
      (\<forall>b. AsyncAddTorrent L \<lparr>WrappedSessionHandle = Some p\<rparr> b s1 =
        tells (\<lambda>x. x) () (swig_call (async_add_torrent L p b) s1)) \<and>
      (\<forall>b. RemoveTorrent L \<lparr>WrappedSessionHandle = Some p\<rparr> b s1 =
        tells (\<lambda>x. x) () (one_overload (remove_torrent L p b) s1)) \<and>
      DeleteSession L ret s1 = tells (\<lambda>x. x) () (swig_call (delete_session L p) s1) \<and>
      (\<forall>f. (\<exists>m. fst (promoted f (WrappedSession se) s1) = Panic m) = (\<exists>e. fst (f p s1) = Inl e)))) \<and>
    DeleteSession L None s1 = (((), Some nil_dereference), s1) \<and>
    go_map_get mp k s1 = (case map_of mp k of Some v \<Rightarrow> Value v | None \<Rightarrow> Panic ''key not found'', s1) \<and>
    (k \<notin> dom (map_of mp)) = (go_map_del mp k s1 = (Panic ''key not found'', s1))"
proof -
  have new': "tells (\<lambda>p. Some \<lparr>WrappedSession = Some p\<rparr>) None (one_overload (new_session L a) s) = ((ret, err), s1)"
    using new by (simp add: wrapper_defs)
  have maps: "go_map_get mp k s1 = (case map_of mp k of Some v \<Rightarrow> Value v | None \<Rightarrow> Panic ''key not found'', s1)"
    "(k \<notin> dom (map_of mp)) = (go_map_del mp k s1 = (Panic ''key not found'', s1))"
    by (auto simp: go_map_get_def go_map_del_def swig_call_def as_cpp_def map_get_def map_del_def
        find_key_map_of split: option.splits)
  have err: "err = panic_of (new_session L a) s"
    using new' by (cases "new_session L a")
      (auto simp: one_overload_def swig_call_def split: sum.splits cpp_exception.splits prod.splits)
  show ?thesis
  proof (cases "one_overload (new_session L a) s")
    case (Pair r t)
    then show ?thesis
      using new' maps err by (cases r) (auto simp: promoted_throws wrapper_defs swig_call_def get_handle_def
          dest: promoted_throws [THEN iffD1, OF exI])
  qed
qed

text \<open>A library whose session comes up and which refuses the torrent.\<close>

definition demo_library :: "(nat, nat, nat, nat) library" where
  "demo_library =
     \<lparr>new_session = (\<lambda>a. if a = [] then Some (\<lambda>s. (Inr 7, s + 1)) else None),
      delete_session = (\<lambda>p s. (Inr (), s)),
      add_torrent = (\<lambda>p a. Some (\<lambda>s. (Inl (Std_exception ''duplicate torrent''), s + 1))),
      async_add_torrent = (\<lambda>p a s. (Inr (), s)),
      remove_torrent = (\<lambda>p a. None)\<rparr>"

lemma errors_tell_exceptions_witness:
  "NewSession demo_library [] 0 = ((Some \<lparr>WrappedSession = Some 7\<rparr>, None), 1) \<and>
   AddTorrent demo_library \<lparr>WrappedSessionHandle = Some 7\<rparr> [3] 1 = ((None, Some ''duplicate torrent''), 2) \<and>
   RemoveTorrent demo_library \<lparr>WrappedSessionHandle = Some 7\<rparr> [3] 1 =
     (((), Some ''No match for overloaded function call''), 1)"
proof -
  have new: "NewSession demo_library [] 0 = ((Some \<lparr>WrappedSession = Some 7\<rparr>, None), 1)"
    by (simp add: wrapper_defs demo_library_def one_overload_def swig_call_def)
  note told = conjunct1 [OF conjunct2 [OF conjunct2 [OF errors_tell_exceptions [OF new]]], rule_format, OF refl]
  obtain p where p: "one_overload (new_session demo_library []) 0 = (Value p, 1)"
    "\<forall>b. AddTorrent demo_library \<lparr>WrappedSessionHandle = Some p\<rparr> b 1 =
      tells (\<lambda>t. Some \<lparr>WrappedTorrentHandle = Some t\<rparr>) None (one_overload (add_torrent demo_library p b) 1)"
    "\<forall>b. RemoveTorrent demo_library \<lparr>WrappedSessionHandle = Some p\<rparr> b 1 =
      tells (\<lambda>x. x) () (one_overload (remove_torrent demo_library p b) 1)"
    using told by blast
  have "p = 7" using p(1) by (simp add: demo_library_def one_overload_def swig_call_def)
  then show ?thesis using new p(2,3) by (simp add: demo_library_def one_overload_def swig_call_def)
qed

end
