(* ===== verification/Session_Handle.thy ===== *)
theory Session_Handle
  imports Prelude
begin

text \<open>
  The part of \<open>session_handle.hpp\<close> that has code of its own: the handle, which is a pointer to
  the session or null, and the values of its enumerations. Everything else in the header is the
  declaration of a function of libtorrent.
\<close>

section \<open>The handle\<close>

text \<open>\<open>'i\<close> stands for \<open>aux::session_impl\<close>; the null pointer is \<open>None\<close>.\<close>

record 'i session_handle =
  m_impl :: "'i option"

definition session_handle_null :: "'i session_handle" where
  "session_handle_null = \<lparr>m_impl = None\<rparr>"

definition session_handle_of :: "'i option \<Rightarrow> 'i session_handle" where
  "session_handle_of impl = \<lparr>m_impl = impl\<rparr>"

definition is_valid :: "'i session_handle \<Rightarrow> bool" where
  "is_valid h \<longleftrightarrow> m_impl h \<noteq> None"

definition native_handle :: "'i session_handle \<Rightarrow> 'i option" where
  "native_handle h = m_impl h"

section \<open>The enumerations\<close>

text \<open>The names from \<open>save_encryption_settings\<close> on, and \<open>listen_on_flags_t\<close>, exist only where
  \<open>TORRENT_NO_DEPRECATE\<close> is not defined; \<open>libtorrent.swigcxx\<close> defines it for the bindings.\<close>

datatype save_state_flags =
    Save_settings
  | Save_dht_settings
  | Save_dht_state
  | Save_encryption_settings
  | Save_as_map
  | Save_feeds
  | Save_proxy
  | Save_i2p_proxy
  | Save_dht_proxy
  | Save_peer_proxy
  | Save_web_proxy
  | Save_tracker_proxy

fun save_state_flag :: "save_state_flags \<Rightarrow> 32 word" where
  "save_state_flag Save_settings = 0x001"
| "save_state_flag Save_dht_settings = 0x002"
| "save_state_flag Save_dht_state = 0x004"
| "save_state_flag Save_encryption_settings = 0x020"
| "save_state_flag Save_as_map = 0x040"
| "save_state_flag Save_feeds = 0x080"
| "save_state_flag Save_proxy = 0x008"
| "save_state_flag Save_i2p_proxy = 0x010"
| "save_state_flag Save_dht_proxy = 0x008"
| "save_state_flag Save_peer_proxy = 0x008"
| "save_state_flag Save_web_proxy = 0x008"
| "save_state_flag Save_tracker_proxy = 0x008"

definition disk_cache_no_pieces :: "32 word" where
  "disk_cache_no_pieces = 1"

datatype peer_class_ids = Global_peer_class_id | Tcp_peer_class_id | Local_peer_class_id

fun peer_class_id :: "peer_class_ids \<Rightarrow> 32 word" where
  "peer_class_id Global_peer_class_id = 0"
| "peer_class_id Tcp_peer_class_id = 1"
| "peer_class_id Local_peer_class_id = 2"

datatype listen_on_flags = Listen_reuse_address | Listen_no_system_port

fun listen_on_flag :: "listen_on_flags \<Rightarrow> 32 word" where
  "listen_on_flag Listen_reuse_address = 0x01"
| "listen_on_flag Listen_no_system_port = 0x02"

datatype remove_options = Delete_files | Delete_partfile

fun remove_option :: "remove_options \<Rightarrow> 32 word" where
  "remove_option Delete_files = 1"
| "remove_option Delete_partfile = 2"

datatype session_flags = Add_default_plugins | Start_default_features

fun session_flag :: "session_flags \<Rightarrow> 32 word" where
  "session_flag Add_default_plugins = 1"
| "session_flag Start_default_features = 2"

datatype protocol_type = Udp | Tcp

fun protocol_number :: "protocol_type \<Rightarrow> 32 word" where
  "protocol_number Udp = 1"
| "protocol_number Tcp = 2"

text \<open>The values coincide only among \<open>save_proxy\<close> and the four names that stand for it.\<close>

definition proxy_names :: "save_state_flags set" where
  "proxy_names = {Save_proxy, Save_dht_proxy, Save_peer_proxy, Save_web_proxy, Save_tracker_proxy}"

lemma save_state_flag_inj:
  "save_state_flag g = save_state_flag f \<longleftrightarrow> f = g \<or> (f \<in> proxy_names \<and> g \<in> proxy_names)"
  by (cases f; cases g) (simp_all add: proxy_names_def)

end
