(* ===== verification/Dht_Items.thy ===== *)
theory Dht_Items
  imports Prelude
begin

text \<open>
  Items in the DHT (interfaces/dht.i, interfaces/boost_array.i): what a client puts and asks for,
  the operation objects it fills in for mutable items, the callback that libtorrent runs later, possibly several times, to
  sign the next version of the item, and what the callback still refers to by then. Bencoding
  and signing are libtorrent's: they are arguments.
\<close>

section \<open>Arrays of bytes\<close>

text \<open>The loop \<open>this->key[i] = key[i]\<close> for \<open>i\<close> below \<open>n\<close>.\<close>

function copy_key :: "byte list \<Rightarrow> nat \<Rightarrow> nat \<Rightarrow> byte list \<Rightarrow> ub + byte list" where
  "copy_key src n i dst =
     (if i < n
      then bindE (vec_at src (int i)) (\<lambda>b. bindE (vec_upd dst (int i) (\<lambda>_. b)) (copy_key src n (i + 1)))
      else Inr dst)"
  by pat_completeness auto
termination by (relation "measure (\<lambda>(src, n, i, dst). n - i)") auto

declare copy_key.simps [simp del]

text \<open>
  Go hands a slice to a parameter of type \<open>boost::array\<close>: the shorter of the two lengths is
  copied over a fresh array, whose bytes are whatever the memory held.
\<close>

definition array_in :: "byte list \<Rightarrow> byte list \<Rightarrow> byte list" where
  "array_in fresh input = patch fresh 0 (take (if length fresh < length input then length fresh
                                              else length input) input)"

lemma array_in_eq: "array_in fresh input = take (length fresh) input @ drop (length input) fresh"
  by (auto simp: array_in_def patch_def)

section \<open>The operations\<close>

text \<open>Objects are known by their address. A \<open>data\<close> pointer is unassigned or refers to an entry.\<close>

record dht_put_operation =
  put_data :: "nat option"
  put_public_key :: "byte list"
  put_private_key :: "byte list"
  put_salt :: "byte list"

record dht_get_operation =
  get_data :: "nat option"
  get_public_key :: "byte list"
  get_salt :: "byte list"

definition new_dht_put_operation ::
  "byte list \<Rightarrow> byte list \<Rightarrow> byte list \<Rightarrow> byte list \<Rightarrow> ub + dht_put_operation" where
  "new_dht_put_operation mem mem' public_key private_key =
     bindE (copy_key public_key 32 0 mem) (\<lambda>pk.
     bindE (copy_key private_key 64 0 mem') (\<lambda>sk.
       Inr \<lparr>put_data = None, put_public_key = pk, put_private_key = sk, put_salt = []\<rparr>))"

definition new_dht_get_operation :: "byte list \<Rightarrow> byte list \<Rightarrow> ub + dht_get_operation" where
  "new_dht_get_operation mem public_key =
     bindE (copy_key public_key 32 0 mem) (\<lambda>pk.
       Inr \<lparr>get_data = None, get_public_key = pk, get_salt = []\<rparr>)"

section \<open>The callback\<close>

record 'e dht_ext =
  bencode :: "'e \<Rightarrow> byte list"
  sign_mutable_item :: "byte list \<times> int \<Rightarrow> byte list \<times> int \<Rightarrow> 64 word \<Rightarrow> byte list \<Rightarrow> byte list \<Rightarrow> byte list"

text \<open>The pair of a pointer and a length, which is narrowed from \<open>size_t\<close> to \<open>int\<close>.\<close>

definition span :: "byte list \<Rightarrow> byte list \<times> int" where
  "span bs = (bs, to_int32 (of_nat (length bs)))"

record 'e item =
  it_entry :: 'e
  it_sig :: "byte list"
  it_seq :: "64 word"

definition dht_put_item_cb ::
  "'e dht_ext \<Rightarrow> byte list \<Rightarrow> byte list \<Rightarrow> byte list \<Rightarrow> 'e \<Rightarrow> 'e item \<Rightarrow> 'e item" where
  "dht_put_item_cb D salt public_key private_key data it =
     (let e = data; buf = bencode D e; seq = it_seq it + 1 in
      \<lparr>it_entry = e, it_sig = sign_mutable_item D (span buf) (span salt) seq public_key private_key,
       it_seq = seq\<rparr>)"

section \<open>Handing it to libtorrent\<close>

record 'e objects =
  entries :: "nat \<Rightarrow> 'e option"
  puts :: "nat \<Rightarrow> dht_put_operation option"
  gets :: "nat \<Rightarrow> dht_get_operation option"

definition object_at :: "(nat \<Rightarrow> 'a option) \<Rightarrow> nat \<Rightarrow> ub + 'a" where
  "object_at m i = (case m i of None \<Rightarrow> Inl Use_After_Free | Some x \<Rightarrow> Inr x)"

text \<open>The other two calls hand libtorrent an entry, or the key and the salt that name an item.\<close>

definition dht_put_item :: "nat \<Rightarrow> 'e objects \<Rightarrow> ub + 'e" where
  "dht_put_item item h = object_at (entries h) item"

definition dht_get_item :: "nat \<Rightarrow> 'e objects \<Rightarrow> ub + byte list \<times> byte list" where
  "dht_get_item op h = bindE (object_at (gets h) op) (\<lambda>g. Inr (get_public_key g, get_salt g))"

text \<open>
  What \<open>boost::bind\<close> keeps: the two key pointers, which point into the operation object, and a
  copy of the entry. The key and the salt that name the item are passed by value.
\<close>

record 'e pending =
  bound_op :: nat
  bound_data :: 'e
  item_key :: "byte list"
  item_salt :: "byte list"

definition dht_put_mutable_item :: "nat \<Rightarrow> 'e objects \<Rightarrow> ub + 'e pending" where
  "dht_put_mutable_item op h =
     bindE (object_at (puts h) op) (\<lambda>p.
     bindE (case put_data p of None \<Rightarrow> Inl Indeterminate_Read | Some d \<Rightarrow> object_at (entries h) d) (\<lambda>e.
       Inr \<lparr>bound_op = op, bound_data = e, item_key = put_public_key p, item_salt = put_salt p\<rparr>))"

text \<open>libtorrent calls back with the item it found under the key and the salt.\<close>

definition run_callback :: "'e dht_ext \<Rightarrow> 'e pending \<Rightarrow> 'e objects \<Rightarrow> 'e item \<Rightarrow> ub + 'e item" where
  "run_callback D q h it =
     bindE (object_at (puts h) (bound_op q)) (\<lambda>p.
       Inr (dht_put_item_cb D (item_salt q) (put_public_key p) (put_private_key p) (bound_data q) it))"

text \<open>Several versions, each starting from the one before, whatever happens to the objects between.\<close>

fun versions :: "'e dht_ext \<Rightarrow> 'e pending \<Rightarrow> 'e objects list \<Rightarrow> 'e item \<Rightarrow> ub + 'e item" where
  "versions D q [] it = Inr it"
| "versions D q (h # hs) it = bindE (run_callback D q h it) (versions D q hs)"

section \<open>What is signed\<close>

lemma copy_key_eq:
  assumes "i \<le> n" "length dst = n"
  shows "copy_key src n i dst =
    (if i < n \<and> length src < n then Inl OutOfBounds else Inr (take i dst @ take (n - i) (drop i src)))"
  using assms
proof (induction src n i dst rule: copy_key.induct)
  case (1 src n i dst)
  show ?case
  proof (cases "i < n \<and> i < length src")
    case False
    then show ?thesis using "1.prems" by (auto simp: copy_key.simps [of src n i] vec_at_def)
  next
    case True
    then have step: "copy_key src n i dst = copy_key src n (i + 1) (dst[i := src ! i])"
      using "1.prems" by (simp add: copy_key.simps [of src n i])
    have "copy_key src n (i + 1) (dst[i := src ! i]) =
      (if i + 1 < n \<and> length src < n then Inl OutOfBounds
       else Inr (take (i + 1) (dst[i := src ! i]) @ take (n - (i + 1)) (drop (i + 1) src)))"
      using True "1.prems" by (intro "1.IH") (auto simp: vec_at_def vec_upd_def)
    moreover have "take (i + 1) (dst[i := src ! i]) @ take (n - (i + 1)) (drop (i + 1) src) =
        take i dst @ take (n - i) (drop i src)"
    proof -
      have "n - i = Suc (n - (i + 1))" using True by linarith
      then have "take (n - i) (drop i src) = src ! i # take (n - (i + 1)) (drop (i + 1) src)"
        using True by (simp flip: Cons_nth_drop_Suc)
      then show ?thesis using True "1.prems" by (simp add: take_Suc_conv_app_nth)
    qed
    ultimately show ?thesis using True step by auto
  qed
qed

text \<open>The keys of an operation, as long as it exists.\<close>

definition holds_keys :: "byte list \<Rightarrow> byte list \<Rightarrow> nat \<Rightarrow> 'e objects \<Rightarrow> bool" where
  "holds_keys pk sk op h \<longleftrightarrow>
     (\<exists>p. puts h op = Some p \<and> put_public_key p = pk \<and> put_private_key p = sk)"

definition signed_item ::
  "'e dht_ext \<Rightarrow> byte list \<Rightarrow> byte list \<Rightarrow> byte list \<Rightarrow> 'e \<Rightarrow> 64 word \<Rightarrow> 'e item" where
  "signed_item D salt pk sk e seq =
     \<lparr>it_entry = e, it_sig = sign_mutable_item D (span (bencode D e)) (span salt) seq pk sk, it_seq = seq\<rparr>"

lemma versions_eq:
  assumes "\<forall>h\<in>set hs. holds_keys pk sk (bound_op q) h" "hs \<noteq> []"
  shows "versions D q hs it =
    Inr (signed_item D (item_salt q) pk sk (bound_data q) (it_seq it + of_nat (length hs)))"
  using assms
proof (induction hs arbitrary: it)
  case Nil
  then show ?case by simp
next
  case (Cons h hs)
  have "run_callback D q h it =
      Inr (signed_item D (item_salt q) pk sk (bound_data q) (it_seq it + 1))"
    using Cons.prems(1)
    by (auto simp: holds_keys_def run_callback_def object_at_def dht_put_item_cb_def signed_item_def Let_def)
  then show ?case
    using Cons.IH Cons.prems(1)
    by (cases "hs = []") (simp_all add: signed_item_def [of _ _ _ _ _ "it_seq it + 1"] add.assoc)
qed

text \<open>C39 Every version of a mutable item is signed anew. As long as the operation object exists with
  its keys, after any positive number of callbacks the item is the entry as it was when it was
  put, whatever became of the entry object since, with the sequence number advanced by one per
  callback and the signature of exactly that entry, salt and number; the number is above the
  one before unless it wraps past the largest 64-bit value. A client that asks for the item
  with an operation made from the same public key, and the same salt, asks for this very item.\<close>

theorem versions_signed:
  assumes put: "dht_put_mutable_item op h0 = Inr q" "puts h0 op = Some p"
      "put_data p = Some d" "entries h0 d = Some e"
    and alive: "\<forall>h\<in>set hs. holds_keys pk sk op h" "hs \<noteq> []"
    and get: "length mem = 32" "new_dht_get_operation mem (put_public_key p) = Inr g"
      "length (put_public_key p) = 32" "gets h1 r = Some (g\<lparr>get_salt := put_salt p\<rparr>)"
  shows "versions D q hs it =
      Inr (signed_item D (put_salt p) pk sk e (it_seq it + of_nat (length hs))) \<and>
    uint (it_seq it + of_nat (length hs)) = (uint (it_seq it) + int (length hs)) mod 2 ^ 64 \<and>
    dht_get_item r h1 = Inr (item_key q, item_salt q)"
proof -
  have q: "bound_op q = op" "item_key q = put_public_key p" "item_salt q = put_salt p" "bound_data q = e"
    using put by (auto simp: dht_put_mutable_item_def object_at_def)
  have "get_public_key g = put_public_key p"
    using get(1-3) by (auto simp: new_dht_get_operation_def copy_key_eq)
  then have "dht_get_item r h1 = Inr (item_key q, item_salt q)"
    using get(4) q by (simp add: dht_get_item_def object_at_def)
  moreover have "it_seq it + of_nat (length hs) = word_of_int (uint (it_seq it) + int (length hs))" by simp
  then have "uint (it_seq it + of_nat (length hs)) = (uint (it_seq it) + int (length hs)) mod 2 ^ 64"
    by (simp only: uint_word_of_int take_bit_eq_mod) simp
  ultimately show ?thesis using versions_eq [of hs pk sk q D it] alive q by simp
qed

text \<open>C40 What an operation needs. The constructors read 32 and 64 bytes of the keys they are given,
  whatever their length, and fault on shorter ones; the one of a put leaves the entry pointer unassigned, so
  an operation whose entry was not set cannot be put; and the callback keeps pointers into the
  operation, so it faults once the operation is deleted, however often it worked before.\<close>

theorem put_operation_needs:
  assumes "length mem = 32" "length mem' = 64"
  shows "new_dht_put_operation mem mem' pk sk =
      (if 32 \<le> length pk \<and> 64 \<le> length sk
       then Inr \<lparr>put_data = None, put_public_key = take 32 pk, put_private_key = take 64 sk, put_salt = []\<rparr>
       else Inl OutOfBounds) \<and>
    new_dht_get_operation mem pk =
      (if 32 \<le> length pk then Inr \<lparr>get_data = None, get_public_key = take 32 pk, get_salt = []\<rparr>
       else Inl OutOfBounds) \<and>
    (puts h op = Some p \<and> put_data p = None \<longrightarrow> dht_put_mutable_item op h = Inl Indeterminate_Read) \<and>
    (dht_put_mutable_item op h = Inr q \<and> puts h' op = None \<longrightarrow> run_callback D q h' it = Inl Use_After_Free)"
proof (intro conjI impI)
  show "new_dht_put_operation mem mem' pk sk =
      (if 32 \<le> length pk \<and> 64 \<le> length sk
       then Inr \<lparr>put_data = None, put_public_key = take 32 pk, put_private_key = take 64 sk, put_salt = []\<rparr>
       else Inl OutOfBounds)"
    using assms by (auto simp: new_dht_put_operation_def copy_key_eq)
  show "new_dht_get_operation mem pk =
      (if 32 \<le> length pk then Inr \<lparr>get_data = None, get_public_key = take 32 pk, get_salt = []\<rparr>
       else Inl OutOfBounds)"
    using assms by (auto simp: new_dht_get_operation_def copy_key_eq)
  show "dht_put_mutable_item op h = Inl Indeterminate_Read" if "puts h op = Some p \<and> put_data p = None"
    using that by (simp add: dht_put_mutable_item_def object_at_def)
  show "run_callback D q h' it = Inl Use_After_Free" if "dht_put_mutable_item op h = Inr q \<and> puts h' op = None"
    using that
    by (auto simp: dht_put_mutable_item_def run_callback_def object_at_def bindE_eq_Inr split: option.splits)
qed

section \<open>A run\<close>

definition demo_dht :: "byte list dht_ext" where
  "demo_dht = \<lparr>bencode = (\<lambda>e. 105 # e @ [101]),
     sign_mutable_item = (\<lambda>(v, n) (s, m) seq pk sk. take 2 pk @ v @ s @ [ucast seq])\<rparr>"

definition demo_objects :: "byte list objects" where
  "demo_objects = \<lparr>entries = [1 \<mapsto> [55]],
     puts = [7 \<mapsto> \<lparr>put_data = Some 1, put_public_key = replicate 32 3, put_private_key = replicate 64 4,
       put_salt = [9]\<rparr>],
     gets = [8 \<mapsto> \<lparr>get_data = None, get_public_key = replicate 32 3, get_salt = [9]\<rparr>]\<rparr>"

lemma demo_put: "\<exists>q. dht_put_mutable_item 7 demo_objects = Inr q"
  by (simp add: dht_put_mutable_item_def demo_objects_def object_at_def)

lemma versions_signed_witness:
  "\<exists>q. dht_put_mutable_item 7 demo_objects = Inr q \<and>
     versions demo_dht q [demo_objects, demo_objects\<lparr>entries := Map.empty\<rparr>]
       \<lparr>it_entry = [], it_sig = [], it_seq = 5\<rparr> =
       Inr \<lparr>it_entry = [55], it_sig = [3, 3, 105, 55, 101, 9, 7], it_seq = 7\<rparr> \<and>
     dht_get_item 8 demo_objects = Inr (item_key q, item_salt q)"
proof -
  obtain q where q: "dht_put_mutable_item 7 demo_objects = Inr q"
    using demo_put by blast
  have alive: "\<forall>h\<in>set [demo_objects, demo_objects\<lparr>entries := Map.empty\<rparr>].
      holds_keys (replicate 32 3) (replicate 64 4) 7 h"
    by (simp add: holds_keys_def demo_objects_def)
  let ?p = "\<lparr>put_data = Some 1, put_public_key = replicate 32 3, put_private_key = replicate 64 4, put_salt = [9]\<rparr>"
  have p: "puts demo_objects 7 = Some ?p" "put_data ?p = Some 1" "entries demo_objects 1 = Some [55]"
    by (simp_all add: demo_objects_def)
  have g: "new_dht_get_operation (replicate 32 0) (put_public_key ?p) =
      Inr \<lparr>get_data = None, get_public_key = replicate 32 3, get_salt = []\<rparr>"
    by (simp add: new_dht_get_operation_def copy_key_eq)
  have "gets demo_objects 8 =
      Some (\<lparr>get_data = None, get_public_key = replicate 32 3, get_salt = []\<rparr>\<lparr>get_salt := put_salt ?p\<rparr>)"
    by (simp add: demo_objects_def)
  note versions_signed [OF q p alive _ _ g _ this, of demo_dht "\<lparr>it_entry = [], it_sig = [], it_seq = 5\<rparr>"]
  moreover have "take 2 (replicate 32 3) = [3, 3 :: byte]" by (simp add: numeral_2_eq_2)
  ultimately show ?thesis using q
    by (simp add: signed_item_def demo_dht_def span_def)
qed

lemma put_operation_needs_witness:
  "new_dht_put_operation (replicate 32 0) (replicate 64 0) [1, 2] [] = Inl OutOfBounds \<and>
   (\<exists>q it. dht_put_mutable_item 7 demo_objects = Inr q \<and>
     run_callback demo_dht q (demo_objects\<lparr>puts := Map.empty\<rparr>) it = Inl Use_After_Free)"
proof -
  note needs = put_operation_needs [of "replicate 32 0" "replicate 64 0"]
  obtain q where q: "dht_put_mutable_item 7 demo_objects = Inr q"
    using demo_put by blast
  then show ?thesis
    using needs [of "[1, 2]" "[]"] needs [of _ _ demo_objects 7 _ q "demo_objects\<lparr>puts := Map.empty\<rparr>" demo_dht]
    by simp
qed

end
