(* ===== verification/Spec2Isabelle.thy ===== *)
theory Spec2Isabelle
  imports Progress_Properties Storage_Properties Branch_Properties Locking Scatter
    Crowd_Properties Control_Races Lifetimes Mutexes Assembly
    Torrent_Params Shared_Infos Entries Cache_Runs Upload_Plugin Std_Map Go_Wrappers Session_Handle Dht_Items
begin

text \<open>
  A verification of libtorrent-go's own C++ code: the storage that keeps the pieces of a
  torrent in memory while a player reads them (\<open>memory_storage.hpp\<close>), the upload extension
  (\<open>upload_plugin.cxx\<close>), the session handle and its enumerations (\<open>session_handle.hpp\<close>), the logic
  in the bindings that carries state (\<open>interfaces/add_torrent_params.i\<close>, \<open>torrent_handle.i\<close>,
  \<open>std_map.i\<close>, \<open>dht.i\<close>, \<open>boost_array.i\<close>, \<open>extensions.i\<close>, \<open>session.i\<close>, \<open>entry.i\<close>,
  \<open>alert_types.i\<close>), and the way an exception of the library
  reaches a Go program (\<open>exceptions.i\<close> and the three Go files of the repository).

  \<^bold>\<open>How the program works.\<close> A client calls \<open>set_memory_storage\<close> on the parameters of a torrent;
  libtorrent later calls \<open>memory_storage_constructor\<close>, and from then on hands every downloaded
  block to \<open>writev\<close> and asks for blocks with \<open>readv\<close>; the client sets the torrent handle, reads
  with \<open>read\<close>, and tells the storage which pieces are reserved. Each of the pieces of the torrent
  may occupy one buffer of a pool that is smaller than the torrent. \<open>writev\<close> obtains a buffer
  (\<open>get_buffer\<close>), copies the block and, when the usage has reached the limit, evicts pieces in
  least-recently-used order (\<open>trim\<close>, \<open>find_last_buffer\<close>, \<open>remove_piece\<close>); an evicted or refused
  piece is given back to libtorrent's picker (\<open>restore_piece\<close>). All of this happens on several
  threads; \<open>m_mutex\<close> protects the pool inside \<open>get_buffer\<close>, \<open>trim\<close> and \<open>set_memory_size\<close>,
  \<open>r_mutex\<close> the two ranges of pieces.

  \<^bold>\<open>The model.\<close> Theory Prelude: outcomes (\<open>ub + 'a\<close>: a value or the undefined behaviour or
  exception an operation runs into), checked 32-bit arithmetic, 64-bit \<open>size_t\<close> with its wrap,
  checked vector access, \<open>memcpy\<close>. Storage_State: \<open>memory_piece\<close>, \<open>memory_buffer\<close>, the members
  of \<open>memory_storage\<close> as one record, extended to a \<open>world\<close> by the torrent the handle refers to
  and the clock; the constructor; \<open>set_torrent_handle\<close>, \<open>is_reserved\<close>, \<open>is_readered\<close>,
  \<open>restore_piece\<close>. Buffer_Pool: \<open>get_buffer\<close> and its two callers, \<open>remove_piece\<close>. Eviction:
  \<open>find_last_buffer\<close>, \<open>trim\<close>. Storage_IO: \<open>read\<close>, \<open>readv\<close>, \<open>writev\<close> with their copy loops.
  Admin: memory size, reader and reserved ranges, logging, \<open>get_buffer_info\<close>, and the file
  operations a storage in memory answers without effect. Client: every call as one step
  function \<open>exec\<close>, and the reachable states. Torrent_Params, Session_Handle, Dht_Items: the
  parameters of a torrent and the cast that recovers its storage (\<open>get_memory_storage\<close>), the
  handle and the values of the enumerations, items of the DHT. Shared_Infos: a heap of counted \<open>torrent_info\<close>
  objects, and what \<open>set_torrent_info\<close>, \<open>get_torrent_info\<close> and \<open>torrent_file\<close> do to the counts.
  Entries: decoding and encoding through a buffer that a call owns, and one that it does not. Upload_Plugin: the extension
  and how it is registered with a session. Std_Map: the exported map, with the exceptions it
  throws and the lifetime of the vector \<open>keys\<close> refers to. Go_Wrappers: the translation of a C++ exception into a panic and the
  deferred \<open>catch\<close> that makes an error of it. Functions keep the names of the code; a member
  or field \<open>x\<close> of a piece or buffer is \<open>mp_x\<close> or \<open>mb_x\<close>.

  \<^bold>\<open>Threads.\<close> These theories take the storage apart where other threads can come in, under
  sequentially consistent memory (a data race as such is not a fault of the model). Locking:
  \<open>get_buffer\<close> in the steps of its double-checked locking, for any number of threads at once;
  the mutex is the thread that owns it. Turns: a call of a thread as a step function over a
  program counter, the whole calls of \<open>exec\<close> that other threads make between its steps, and one
  locale \<open>steady_call\<close> for calls of which something stays true whatever the others do.
  Interleaving, Scatter, Writer: \<open>read\<close>, \<open>readv\<close> and \<open>writev\<close> in such steps, one for each entry
  of an array, each an interpretation of that locale; \<open>size += n\<close> is a read and a write.
  Control_Races: \<open>trim\<close>, \<open>set_memory_size\<close> and \<open>update_reserved_pieces\<close> in steps. All six are
  proved to compute the undivided functions when nobody interferes. Crowd, Crowd_Properties: any
  number of writers of one piece, each at its own place in \<open>writev\<close>; the locale \<open>tally\<close> is what
  the bytes and the count of the piece keep, under no rule, when counts are made one at a time,
  and after one of them has missed another. Mutexes: any
  number of threads in whole calls with both mutexes, put together from those steps, and \<open>trim\<close>
  turn by turn with the search that takes the second mutex; a loop that never ends is a run that
  never ends.

  \<^bold>\<open>What is outside.\<close> libtorrent's torrent and picker and Boost's bitset are the record \<open>ext\<close> of
  functions over a torrent state and a bitset type; the only hypothesis about them is
  \<open>bitset_laws\<close>, the documented behaviour of \<open>dynamic_bitset\<close>. \<open>info_ok\<close> states what
  \<open>torrent_info\<close> promises (positive piece length, no piece longer). The clock is the sequence
  of readings it will give; \<open>clock_advances\<close> says it gets past every time. The calls made on
  the torrent and its picker (\<open>piece_priority\<close>, \<open>set_piece_priority\<close> and the others) are functions
  of the torrent state: they return and do not throw, also for a torrent that has been removed
  from the session. Bencoding and signing are arguments of Dht_Items, the session of libtorrent
  an argument of Upload_Plugin with the documented promise \<open>session_laws\<close> about
  \<open>add_extension\<close>. The address \<open>&buffer[buffer.size()]\<close>, which the copy loops form when no byte is
  left to copy, is taken as the valid address one past the end. Output to the console and the file name members have no effect on
  the storage and are left out; the only effect of logging that is kept is its access to the
  first entry of a scatter array. A pointer
  member is unassigned, null, valid, or dangling: the storage keeps the address of the client's
  handle object and of the torrent, so the client's dropping the one and libtorrent's removing
  the other are calls of \<open>exec\<close> too (\<open>Handle_deleted\<close>, \<open>Torrent_removed\<close>).

  \<^bold>\<open>What is shown.\<close> Storage_Inv, Safety, Client: the invariant \<open>wf\<close> (sizes, mutual links between
  pieces and buffers, clean free buffers) holds in every reachable state; the accounting
  \<open>acct\<close> of the counters holds as long as calls respect it (\<open>benign\<close>), through one locale for
  invariants of runs, interpreted for calls, for reserved pieces, for the threads of \<open>get_buffer\<close>,
  for calls in steps, and for the mutexes and a trim that starves. Trim: two locales for loops that evict from a finite stock,
  interpreted on the loop of \<open>trim\<close>; they decide when it returns, with \<open>while_option\<close> being
  \<open>None\<close> for a loop that never ends, so no fuel is needed anywhere. Cache_Spec: an abstract cache
  from pieces to bytes that writes and reads refine. Runs: the two contracts about runs, \<open>keeps_invariant\<close> for what stays true and
  \<open>implements\<close> for answers a specification allows. Cache_Runs: the whole storage, every call of
  \<open>exec\<close> with its answer, implements one cache that knows pieces, bytes and counts. Lifetimes:
  what a pointer left dangling does to a read. Survival: a reserved piece outlives every
  run that leaves it alone. Assembly: a piece that arrives in blocks, in any order and between
  other calls, is read back whole. The properties are in Cache_Properties (reads and writes),
  Progress_Properties (eviction and termination), Storage_Properties (all reachable states,
  counters), Branch_Properties (control operations, refusals, faults), Locking (linearizability),
  Interleaving, Scatter and Writer (a reader or writer against other threads), Crowd_Properties
  (writers of one piece), Control_Races (resizing, reserving and writing at once; steps against
  calls), Mutexes (no deadlock; a trim that starves the others), Lifetimes, the theories of the smaller components, and here those that
  go from the constructor to a read, a write or any run. Sample holds the concrete storages on which each of them is applied.

  \<^bold>\<open>What is not modelled.\<close> Apart from the handle and the enumerations, \<open>session_handle.hpp\<close> declares
  libtorrent's API without bodies; the other SWIG interface files are declarations and one-line
  forwarding (\<open>settings\<close> by name, \<open>pop_alerts\<close> and the like hand a call to the library and its
  result back); the test client, the build scripts and the containers. Only the operations named above are cut into steps: the ranges of readers,
  the buffer table and \<open>restore_piece\<close> are whole calls.
\<close>

section \<open>From the constructor to any run\<close>

text \<open>C1 The storage is a cache. From the constructor on, whatever sequence of calls is made inside
  the pieces they name and within the accounting, all that callers see, the results and the bytes
  they get, is what a cache could show them that knows only pieces, bytes and counts and drops
  unreserved pieces at times of its choosing; and after any such run no read, write or trim runs
  into an undefined behaviour or an exception.\<close>

theorem storage_is_a_cache:
  assumes X: "bitset_laws X" and ti: "info_ok ti" and mem: "0 \<le> mem"
    and s: "new_memory_storage X mem ti = Inr s"
    and h: "set_torrent_handle X Valid (in_world s t c) = Inr w"
    and run: "observed (proper X) (observe X) w tr w'"
  shows "allowed store_call (empty_store ti) tr (store_of X w') \<and>
    (\<forall>c e. proper X c w' \<and> moves_data c \<longrightarrow> observe X c w' \<noteq> Some (Inl e))"
proof -
  have "orderly X w" by (rule constructed_orderly [OF X s ti mem h])
  from storage.runs_allowed [OF run this] show ?thesis
    using store_of_new [OF X s ti mem h] no_fault [of X w'] by simp
qed

text \<open>A block, two hits, a miss, and a block of the missed piece turned away.\<close>

definition demo_calls :: "(int \<Rightarrow> int) call list" where
  "demo_calls = [Writev [iov [1, 2, 3, 4]] 1 0, Read [0, 0, 0] 3 1 1, Readv [iov [0, 0]] 1 3,
     Trim 0, Read [0] 1 0 0, Writev [iov [5, 6]] 0 0]"

lemma demo_answers:
  "case answers (proper demo_ext) (observe demo_ext) demo_calls [] (demo_world 4 8) of
     Some (tr, w) \<Rightarrow> map snd tr = [Stored 4, Copied 3 [2, 3, 4], Scattered 1 [4, 0],
       Done, Copied (-1) [0], Stored 0]
   | None \<Rightarrow> False"
  by code_simp

lemma storage_is_a_cache_witness:
  "\<exists>tr w. answers (proper demo_ext) (observe demo_ext) demo_calls [] (demo_world 4 8) = Some (tr, w) \<and>
     map snd tr = [Stored 4, Copied 3 [2, 3, 4], Scattered 1 [4, 0],
       Done, Copied (-1) [0], Stored 0] \<and>
     allowed store_call (empty_store (demo_info 4)) tr (store_of demo_ext w)"
proof -
  obtain tr w where run: "answers (proper demo_ext) (observe demo_ext) demo_calls [] (demo_world 4 8) = Some (tr, w)"
    using demo_answers by (auto split: option.splits simp del: answers.simps)
  from storage_is_a_cache [OF demo_bitset_laws _ _ demo_constructed demo_single_set answers_observed [OF run nothing_yet]]
  have "allowed store_call (empty_store (demo_info 4)) tr (store_of demo_ext w)" by (simp add: demo_info_ok)
  then show ?thesis using run demo_answers by (auto simp del: answers.simps)
qed

section \<open>From the constructor to the first write\<close>

text \<open>C19 The first write to a torrent of a single piece never returns. Whatever the memory size,
  the constructor gives such a storage one buffer; as soon as the handle is set and a block of
  the piece is written, trimming finds the usage at the limit and nothing to evict.\<close>

theorem single_piece_write_spins:
  assumes X: "bitset_laws X" and ti: "info_ok ti" "ti_num_pieces ti = 1" and mem: "0 \<le> mem"
    and s: "new_memory_storage X mem ti = Inr s"
    and h: "set_torrent_handle X Valid (in_world s t c) = Inr w"
    and ok: "write_ok w 0 off bufs"
  shows "writev X bufs 0 off w = None"
proof -
  let ?v = "in_world s t c"
  note o = constructed_orderly [OF X s ti(1) mem h]
  note inv = orderlyD(5) [OF o]
  obtain p where w: "w = ?v\<lparr>m_handle := Valid, m_t := p\<rparr>" "p \<in> {Null, Valid}"
    using set_torrent_handle_InrD [OF h] by auto
  note eq = new_memory_storage_eq [OF ti(1) mem constructed_bound [OF s ti(1) mem], of X, unfolded s]
  have "0 \<le> mem div ti_piece_length ti"
    using mem ti(1) by (simp add: info_ok_def pos_imp_zdiv_nonneg_iff)
  then have f: "buffer_limit w = 1" "buffer_used w = 0" "\<not> is_reading w" "capacity w = mem"
    "reserved_pieces w = bs_resize X (bs_new X) 11"
    using eq ti(2) by (simp_all add: w)
  have "\<not> bs_test X (reserved_pieces w) 0" using X f(5) by (simp add: bitset_laws_def)
  moreover have "0 < length (pieces w)" using ok by (simp add: write_ok_def)
  then obtain w1 where "get_buffer X (int 0) True w = Inr (True, w1)"
    using get_buffer_granted [OF inv, of 0] f by auto
  ultimately show ?thesis using writev_hangs [OF inv, of 0 off bufs w1] ok f mem by simp
qed

lemma single_piece_write_spins_witness:
  "writev demo_ext [iov [1, 2]] 0 1 (demo_world 1 100) = None"
  using single_piece_write_spins [OF demo_bitset_laws _ _ _ demo_constructed, of 1 100 demo_prio demo_clock
      "demo_world 1 100" 1 "[iov [1, 2]]"]
  by (simp add: demo_info_ok demo_single_set demo_single_ok demo_info_pieces)

section \<open>From the constructor to the first read\<close>

text \<open>C33 Without a torrent handle nothing can be given back: on a storage fresh from the
  constructor a read of any piece, none of which is in the cache, uses the handle pointer that
  was never assigned.\<close>

theorem read_before_handle_faults:
  assumes X: "bitset_laws X" and ti: "info_ok ti" and mem: "0 \<le> mem"
    and s: "new_memory_storage X mem ti = Inr s" and k: "0 \<le> k" "k < ti_num_pieces ti"
  shows "read X buf sz k off (in_world s t c) = Inl Indeterminate_Read"
proof -
  let ?w = "in_world s t c"
  have safe: "safe X ?w" using created_safe [OF X s ti mem] by blast
  note eq = new_memory_storage_eq [OF ti mem constructed_bound [OF s ti mem], of X, unfolded s]
  have p: "nat k < length (pieces ?w)" "\<not> is_buffered (pieces ?w ! nat k)" "m_handle ?w = Indeterminate"
    using eq k by (auto simp: is_buffered_def new_memory_piece_def)
  then show ?thesis
    using read_refused [OF safe p(1), of buf sz off] k(1) by (simp add: restore_piece_def non_null_def)
qed

lemma read_before_handle_faults_witness:
  "read demo_ext [0] 1 0 0 (in_world (demo_storage 4 8) demo_prio demo_clock) = Inl Indeterminate_Read"
  using read_before_handle_faults [OF demo_bitset_laws _ _ demo_constructed, of 4 8 0]
  by (simp add: demo_info_ok demo_info_pieces)

end
